(* ===== verification/Gorb_Prelude.thy ===== *)
theory Gorb_Prelude
  imports Complex_Main "HOL-Library.Word" "HOL-Library.DAList" "HOL-Library.Multiset"
begin

text \<open>
  What every other theory shares: the machine types of Go that the program uses, its error
  values, the outcome of a call that may return an error or panic, Go's built-in map with
  string keys, and the functions of Go's \<open>strings\<close> package the program calls.

  Strings are Go strings read as lists of bytes.  The functions that Go defines on Unicode
  letters, digits and white space (\<open>strings.ToLower\<close>, \<open>strings.TrimSpace\<close>,
  \<open>unicode.IsDigit\<close>, the case folding of a regular expression) are modelled on ASCII; a
  byte above 127 counts as no letter, no digit and no white space.
\<close>

named_theorems gomap \<open>laws of the built-in map, as rewrite rules\<close>
named_theorems gostr \<open>evaluation of the string functions\<close>

section \<open>Machine types, errors and outcomes\<close>

type_synonym u8 = "8 word"
type_synonym u16 = "16 word"
type_synonym u32 = "32 word"
type_synonym i64 = "64 word" \<comment> \<open>read with \<open>sint\<close>\<close>

text \<open>
  \<open>net.IP\<close> is a byte slice; the nil slice is the empty list.
\<close>

type_synonym ip = "u8 list"

text \<open>
  The error values the program declares, in the order of its packages \<open>core\<close>,
  \<open>pulse\<close>, \<open>util\<close>, \<open>ipvs_shim\<close> and \<open>disco\<close>.  \<open>ErrExternal\<close> carries the
  message of an error made outside the program (the resolver, netlink, the key-value store,
  a JSON decoder).
\<close>

datatype error =
    ErrIpvsSyscallFailed
  | ErrObjectExists
  | ErrObjectNotFound
  | ErrIncompatibleAFs
  | ErrServiceKeyChanged string
  | ErrMissingEndpoint
  | ErrUnknownMethod
  | ErrUnknownProtocol
  | ErrUnknownFlag
  | ErrUnknownPulseType
  | ErrInvalidPulseInterval
  | ErrInvalidIntervalFormat
  | ErrShimProtocol string
  | ErrShimForwarding string
  | ErrConsul
  | ErrStoreScheme string
  | ErrStoreSchemeMismatch
  | ErrStorePathMismatch
  | ErrExternal string

text \<open>
  A Go call returns a value or an error, or panics.
\<close>

datatype 'a outcome = Ok 'a | Fail error | Panic

text \<open>A signed 64-bit integer in range keeps its value.\<close>

lemma sint_i64: "- (2 ^ 63) \<le> k \<Longrightarrow> k < 2 ^ 63 \<Longrightarrow> sint (word_of_int k :: i64) = k"
  by (simp add: signed_of_int signed_take_bit_int_eq_self)

text \<open>Go's integer division truncates towards zero.\<close>

definition go_quot :: "int \<Rightarrow> int \<Rightarrow> int" where
  "go_quot a b = sgn a * sgn b * (\<bar>a\<bar> div \<bar>b\<bar>)"

lemma go_quot_nonneg: "0 \<le> a \<Longrightarrow> 0 < b \<Longrightarrow> go_quot a b = a div b"
  by (cases "a = 0") (auto simp: go_quot_def)

section \<open>Go's built-in map\<close>

text \<open>
  A map with string keys.  The association list below it has distinct keys, so a map has
  finitely many entries and \<open>gkeys\<close> lists each key once.  Go leaves the order of a
  \<open>range\<close> loop open: code that ranges over a map takes the order from a parameter.
\<close>

type_synonym 'v gomap = "(string, 'v) alist"

definition gempty :: "'v gomap" where
  "gempty = DAList.empty"

definition gget :: "'v gomap \<Rightarrow> string \<Rightarrow> 'v option" where
  "gget m k = DAList.lookup m k"

definition gput :: "string \<Rightarrow> 'v \<Rightarrow> 'v gomap \<Rightarrow> 'v gomap" where
  "gput k v m = DAList.update k v m"

definition gdel :: "string \<Rightarrow> 'v gomap \<Rightarrow> 'v gomap" where
  "gdel k m = DAList.delete k m"

definition gkeys :: "'v gomap \<Rightarrow> string list" where
  "gkeys m = map fst (DAList.impl_of m)"

text \<open>The contract of a map, as the code that uses maps relies on it.\<close>

locale go_map =
  fixes empty :: 'm
    and get :: "'m \<Rightarrow> 'k \<Rightarrow> 'v option"
    and put :: "'k \<Rightarrow> 'v \<Rightarrow> 'm \<Rightarrow> 'm"
    and del :: "'k \<Rightarrow> 'm \<Rightarrow> 'm"
    and keys :: "'m \<Rightarrow> 'k list"
  assumes get_empty: "get empty k = None"
    and get_put: "get (put k v m) k' = (if k' = k then Some v else get m k')"
    and get_del: "get (del k m) k' = (if k' = k then None else get m k')"
    and keys_get: "k \<in> set (keys m) \<longleftrightarrow> get m k \<noteq> None"
    and keys_distinct: "distinct (keys m)"
begin

lemma keys_empty: "keys empty = []"
  by (cases "keys empty") (use keys_get [of _ empty] get_empty in fastforce)+

lemma set_keys_put: "set (keys (put k v m)) = insert k (set (keys m))"
  by (auto simp: keys_get get_put split: if_splits)

lemma set_keys_del: "set (keys (del k m)) = set (keys m) - {k}"
  by (auto simp: keys_get get_del split: if_splits)

lemma get_fold_del: "get (fold del ks m) k = (if k \<in> set ks then None else get m k)"
  by (induction ks arbitrary: m) (auto simp: get_del)

lemma length_keys_del:
  assumes "get m k \<noteq> None"
  shows "Suc (length (keys (del k m))) = length (keys m)"
proof -
  have "card (set (keys (del k m))) = card (set (keys m)) - 1"
    using assms by (simp add: set_keys_del keys_get)
  moreover have "0 < length (keys m)"
    using assms keys_get [of k m] by (cases "keys m") auto
  ultimately show ?thesis
    by (simp add: distinct_card keys_distinct)
qed

end

lemma alist_keys_lookup: "k \<in> set (map fst (DAList.impl_of m)) \<longleftrightarrow> DAList.lookup m k \<noteq> None"
  by (simp add: DAList.lookup.rep_eq map_of_eq_None_iff)

interpretation gm: go_map gempty gget gput gdel gkeys
proof
  fix m :: "'a gomap" and k k' :: string and v :: 'a
  show "gget gempty k = (None :: 'a option)"
    by (simp add: gget_def gempty_def)
  show "gget (gput k v m) k' = (if k' = k then Some v else gget m k')"
    by (simp add: gget_def gput_def lookup_update)
  show "gget (gdel k m) k' = (if k' = k then None else gget m k')"
    by (simp add: gget_def gdel_def)
  show "k \<in> set (gkeys m) \<longleftrightarrow> gget m k \<noteq> None"
    unfolding gkeys_def gget_def by (rule alist_keys_lookup)
  show "distinct (gkeys m)"
    by (simp add: gkeys_def)
qed

lemmas gm_laws [simp, gomap] = gm.get_empty gm.get_put gm.get_del gm.keys_empty gm.keys_distinct

text \<open>The list of keys itself, for evaluation on concrete maps.\<close>

lemma gkeys_put [gomap]:
  "gkeys (gput k v m) = (if k \<in> set (gkeys m) then gkeys m else gkeys m @ [k])"
  by (simp add: gkeys_def gput_def DAList.update.rep_eq AList.update_keys)

lemma gkeys_del [gomap]: "gkeys (gdel k m) = filter (\<lambda>x. x \<noteq> k) (gkeys m)"
  by (simp add: gkeys_def gdel_def DAList.delete.rep_eq AList.delete_keys removeAll_filter_not_eq eq_commute)

section \<open>Strings\<close>

definition lower_char :: "char \<Rightarrow> char" where
  "lower_char c = (let n = (of_char c :: nat) in if 65 \<le> n \<and> n \<le> 90 then char_of (n + 32) else c)"

definition to_lower :: "string \<Rightarrow> string" where
  "to_lower s = map lower_char s"

fun split_on :: "char \<Rightarrow> string \<Rightarrow> string list" where
  "split_on d [] = [[]]"
| "split_on d (c # cs) =
     (if c = d then [] # split_on d cs
      else case split_on d cs of [] \<Rightarrow> [[c]] | w # ws \<Rightarrow> (c # w) # ws)"

definition is_space :: "char \<Rightarrow> bool" where
  "is_space c \<longleftrightarrow> (let n = (of_char c :: nat) in n = 32 \<or> (9 \<le> n \<and> n \<le> 13))"

definition trim_space :: "string \<Rightarrow> string" where
  "trim_space s = rev (dropWhile is_space (rev (dropWhile is_space s)))"

definition is_digit :: "char \<Rightarrow> bool" where
  "is_digit c \<longleftrightarrow> (let n = (of_char c :: nat) in 48 \<le> n \<and> n \<le> 57)"

definition digit_val :: "char \<Rightarrow> int" where
  "digit_val c = int (of_char c) - 48"

definition digits_val :: "string \<Rightarrow> int" where
  "digits_val s = foldl (\<lambda>acc c. 10 * acc + digit_val c) 0 s"

text \<open>
  \<open>fmt.Sprintf("%d", n)\<close> of a natural number.
\<close>

fun show_nat :: "nat \<Rightarrow> string" where
  "show_nat n = (if n < 10 then [char_of (48 + n)] else show_nat (n div 10) @ [char_of (48 + n mod 10)])"

declare show_nat.simps [simp del]

text \<open>
  \<open>path.Clean\<close> and \<open>path.Join\<close>: empty and \<open>.\<close> segments go, \<open>..\<close> takes the segment
  before it away.  The accumulator is the kept segments, last first.
\<close>

fun join_with :: "string \<Rightarrow> string list \<Rightarrow> string" where
  "join_with sep [] = []"
| "join_with sep [w] = w"
| "join_with sep (w # v # ws) = w @ sep @ join_with sep (v # ws)"

fun clean_segs :: "bool \<Rightarrow> string list \<Rightarrow> string list \<Rightarrow> string list" where
  "clean_segs rooted acc [] = rev acc"
| "clean_segs rooted acc (w # ws) =
     (if w = [] \<or> w = ''.'' then clean_segs rooted acc ws
      else if w = ''..'' then
        (case acc of
           a # acc' \<Rightarrow> if a = ''..'' then clean_segs rooted (w # acc) ws else clean_segs rooted acc' ws
         | [] \<Rightarrow> clean_segs rooted (if rooted then [] else [w]) ws)
      else clean_segs rooted (w # acc) ws)"

definition path_Clean :: "string \<Rightarrow> string" where
  "path_Clean p = (let rooted = (p \<noteq> [] \<and> hd p = CHR ''/'');
       segs = clean_segs rooted [] (split_on CHR ''/'' p) in
     if rooted then CHR ''/'' # join_with ''/'' segs
     else if segs = [] then ''.'' else join_with ''/'' segs)"

definition path_Join :: "string list \<Rightarrow> string" where
  "path_Join es = (case dropWhile (\<lambda>e. e = []) es of [] \<Rightarrow> [] | e # r \<Rightarrow> path_Clean (join_with ''/'' (e # r)))"

lemma of_char_lower: "(of_char (lower_char c) :: nat) =
    (let n = of_char c in if 65 \<le> n \<and> n \<le> 90 then n + 32 else n)"
  by (simp add: lower_char_def Let_def)

lemma lower_char_idem [simp]: "lower_char (lower_char c) = lower_char c"
proof -
  have "(of_char (lower_char (lower_char c)) :: nat) = of_char (lower_char c)"
    by (simp add: of_char_lower Let_def)
  then show ?thesis by (simp only: of_char_eq_iff)
qed

lemma to_lower_idem [simp]: "to_lower (to_lower s) = to_lower s"
  by (simp add: to_lower_def)

lemma to_lower_Nil_iff [simp]: "to_lower s = [] \<longleftrightarrow> s = []"
  by (simp add: to_lower_def)

lemma split_on_not_Nil [simp]: "split_on d s \<noteq> []"
  by (induction s) (auto split: list.splits)

text \<open>A name that is one segment of a path.\<close>

definition plain_seg :: "string \<Rightarrow> bool" where
  "plain_seg w \<longleftrightarrow> w \<noteq> [] \<and> w \<noteq> ''.'' \<and> w \<noteq> ''..'' \<and> CHR ''/'' \<notin> set w"

lemma split_on_plain: "d \<notin> set w \<Longrightarrow> split_on d w = [w]"
  by (induction w) auto

lemma split_on_append: "d \<notin> set w \<Longrightarrow> split_on d (w @ d # r) = w # split_on d r"
  by (induction w) auto

lemma clean_segs_plain: "list_all plain_seg ws \<Longrightarrow> clean_segs r acc ws = rev acc @ ws"
  by (induction ws arbitrary: acc) (auto simp: plain_seg_def)

lemma split_join_plain:
  "ws \<noteq> [] \<Longrightarrow> list_all plain_seg ws \<Longrightarrow> split_on CHR ''/'' (join_with ''/'' ws) = ws"
  by (induction "''/''" ws rule: join_with.induct) (auto simp: split_on_plain split_on_append plain_seg_def)

lemma path_Clean_plain:
  assumes "ws \<noteq> []" "list_all plain_seg ws"
  shows "path_Clean (join_with ''/'' ws) = join_with ''/'' ws"
proof -
  obtain w ws' where ws: "ws = w # ws'" using assms(1) by (cases ws) auto
  have "w \<noteq> []" "hd w \<noteq> CHR ''/''"
    using assms(2) by (auto simp: ws plain_seg_def) (metis hd_in_set)
  then have "hd (join_with ''/'' ws) \<noteq> CHR ''/''"
    by (cases ws') (auto simp: ws hd_append)
  then show ?thesis
    using assms by (simp add: path_Clean_def Let_def split_join_plain clean_segs_plain)
qed

lemma split_on_join: "\<exists>w ws. split_on d s = w # ws"
  by (cases "split_on d s") auto

lemma is_digit_lower: "is_digit c \<Longrightarrow> lower_char c = c"
  by (auto simp: is_digit_def lower_char_def Let_def)

lemma digit_val_bounds: "is_digit c \<Longrightarrow> 0 \<le> digit_val c \<and> digit_val c \<le> 9"
  by (auto simp: is_digit_def digit_val_def Let_def)

lemma is_digit_char_of: "n < 10 \<Longrightarrow> is_digit (char_of (48 + n :: nat))"
  by (simp add: is_digit_def Let_def)

lemma digit_val_char_of: "n < 10 \<Longrightarrow> digit_val (char_of (48 + n :: nat)) = int n"
  by (simp add: digit_val_def)

lemma digits_val_snoc: "digits_val (s @ [c]) = 10 * digits_val s + digit_val c"
  by (simp add: digits_val_def)

lemma digits_val_nonneg: "list_all is_digit s \<Longrightarrow> 0 \<le> digits_val s"
proof (induction s rule: rev_induct)
  case Nil
  then show ?case by (simp add: digits_val_def)
next
  case (snoc c s)
  then show ?case using digit_val_bounds [of c] by (simp add: digits_val_snoc)
qed

lemma show_nat_digits: "list_all is_digit (show_nat n) \<and> show_nat n \<noteq> []"
proof (induction n rule: show_nat.induct)
  case (1 n)
  then show ?case by (subst (1 2) show_nat.simps) (auto simp: is_digit_char_of)
qed

lemma digits_val_show_nat [simp]: "digits_val (show_nat n) = int n"
proof (induction n rule: show_nat.induct)
  case (1 n)
  show ?case
  proof (cases "n < 10")
    case True
    then show ?thesis
      by (subst show_nat.simps) (simp add: digits_val_def digit_val_char_of)
  next
    case False
    with 1 have "digits_val (show_nat (n div 10)) = int (n div 10)" by simp
    with False show ?thesis
      by (subst show_nat.simps) (simp add: digits_val_snoc digit_val_char_of flip: of_nat_mult of_nat_add, presburger)
  qed
qed

lemma show_nat_inj: "show_nat m = show_nat n \<Longrightarrow> m = n"
  by (metis digits_val_show_nat of_nat_eq_iff)

end
