(* ===== verification/Gorb_Float.thy ===== *)
theory Gorb_Float
  imports Gorb_Prelude "HOL-Library.Log_Nat"
begin

text \<open>
  Go's \<open>float64\<close>.  A finite double is a rational number; an arithmetic operation is the
  exact rational operation followed by rounding to the nearest double, ties to even
  (IEEE 754, the mode Go uses).  \<open>fl64\<close> is that rounding for the normal range:
  every value the program computes lies between \<open>-2^64\<close> and \<open>2^64\<close> and is a sum,
  quotient or product of counts, so neither overflow nor the subnormal range is reached.
  What the clients need of the rounding (it is monotone, and it keeps every number that fits
  a 53-bit significand) is the locale \<open>rounding\<close>.
\<close>

section \<open>What the code relies on\<close>

locale rounding =
  fixes fl :: "rat \<Rightarrow> rat"
  assumes fl_mono: "x \<le> y \<Longrightarrow> fl x \<le> fl y"
    and fl_exact: "\<bar>n\<bar> \<le> 2 ^ 53 \<Longrightarrow> j \<le> 64 \<Longrightarrow> fl (of_int n / 2 ^ j) = of_int n / 2 ^ j"
begin

lemma fl_of_int: "\<bar>n\<bar> \<le> 2 ^ 53 \<Longrightarrow> fl (of_int n) = of_int n"
  using fl_exact [of n 0] by simp

lemma fl_of_nat: "n \<le> 2 ^ 53 \<Longrightarrow> fl (of_nat n) = of_nat n"
  using fl_of_int [of "int n"] by simp

lemma fl_0 [simp]: "fl 0 = 0"
  using fl_of_int [of 0] by simp

lemma fl_1 [simp]: "fl 1 = 1"
  using fl_of_int [of 1] by simp

lemma fl_nonneg: "0 \<le> x \<Longrightarrow> 0 \<le> fl x"
  using fl_mono [of 0 x] by simp

lemma fl_le_1: "x \<le> 1 \<Longrightarrow> fl x \<le> 1"
  using fl_mono [of x 1] by simp

lemma fl_le_of_nat: "x \<le> of_nat n \<Longrightarrow> n \<le> 2 ^ 53 \<Longrightarrow> fl x \<le> of_nat n"
  using fl_mono [of x "of_nat n"] by (simp add: fl_of_nat)

lemma fl_le_dyadic: "x \<le> of_int n / 2 ^ j \<Longrightarrow> \<bar>n\<bar> \<le> 2 ^ 53 \<Longrightarrow> j \<le> 64 \<Longrightarrow> fl x \<le> of_int n / 2 ^ j"
  using fl_mono [of x "of_int n / 2 ^ j"] by (simp add: fl_exact)

lemma fl_ge_dyadic: "of_int n / 2 ^ j \<le> x \<Longrightarrow> \<bar>n\<bar> \<le> 2 ^ 53 \<Longrightarrow> j \<le> 64 \<Longrightarrow> of_int n / 2 ^ j \<le> fl x"
  using fl_mono [of "of_int n / 2 ^ j" x] by (simp add: fl_exact)

end

section \<open>Rounding to nearest, ties to even\<close>

definition round_even :: "rat \<Rightarrow> int" where
  "round_even x = (let f = \<lfloor>x\<rfloor>; d = x - of_int f in
     if d < 1 / 2 then f
     else if d > 1 / 2 then f + 1
     else if even f then f else f + 1)"

text \<open>
  The binary exponent of a positive rational \<open>p / q\<close>, from the bit lengths of \<open>p\<close>
  and \<open>q\<close>.
\<close>

definition binexp :: "rat \<Rightarrow> int" where
  "binexp x = (let (p, q) = quotient_of x; d = bitlen p - bitlen q in
     if 2 powi d \<le> x then d else d - 1)"

definition fl64 :: "rat \<Rightarrow> rat" where
  "fl64 x = (if x = 0 then 0
     else let u = 2 powi (binexp \<bar>x\<bar> - 52) in of_int (round_even (x / u)) * u)"

text \<open>
  Conversion of a non-negative \<open>float64\<close> to \<open>uint32\<close>: the fraction is dropped.  Go
  leaves values out of range to the implementation; the low 32 bits are what the amd64
  compiler gives.
\<close>

definition trunc_int :: "rat \<Rightarrow> int" where
  "trunc_int x = (if 0 \<le> x then \<lfloor>x\<rfloor> else \<lceil>x\<rceil>)"

definition u32_of_f64 :: "rat \<Rightarrow> u32" where
  "u32_of_f64 x = word_of_int (trunc_int x)"

definition f64_of_u32 :: "u32 \<Rightarrow> rat" where
  "f64_of_u32 w = of_nat (unat w)"

subsection \<open>Rounding to an integer\<close>

lemma round_even_of_int [simp]: "round_even (of_int n) = n"
  by (simp add: round_even_def)

lemma round_even_ge: "of_int n \<le> x \<Longrightarrow> n \<le> round_even x"
  using le_floor_iff [of n x] by (auto simp: round_even_def Let_def)

lemma round_even_le: "x \<le> of_int n \<Longrightarrow> round_even x \<le> n"
proof -
  assume x: "x \<le> of_int n"
  show ?thesis
  proof (cases "x = of_int n")
    case False
    with x have "\<lfloor>x\<rfloor> < n" by (simp add: floor_less_iff)
    then show ?thesis by (auto simp: round_even_def Let_def)
  qed simp
qed

lemma round_even_mono:
  assumes "x \<le> y"
  shows "round_even x \<le> round_even y"
proof (cases "\<lfloor>x\<rfloor> = \<lfloor>y\<rfloor>")
  case True
  with assms show ?thesis by (auto simp: round_even_def Let_def)
next
  case False
  with floor_mono [OF assms] have "\<lfloor>x\<rfloor> + 1 \<le> \<lfloor>y\<rfloor>" by simp
  moreover have "round_even x \<le> \<lfloor>x\<rfloor> + 1"
    by (auto simp: round_even_def Let_def)
  moreover have "\<lfloor>y\<rfloor> \<le> round_even y"
    by (rule round_even_ge) simp
  ultimately show ?thesis by linarith
qed

lemma round_even_minus: "round_even (- x) = - round_even x"
proof (cases "x = of_int \<lfloor>x\<rfloor>")
  case True
  then show ?thesis by (metis of_int_minus round_even_of_int)
next
  case False
  then have "\<lfloor>- x\<rfloor> = - \<lfloor>x\<rfloor> - 1"
    using ceiling_def [of x] ceiling_altdef [of x] by force
  with False show ?thesis
    by (auto simp: round_even_def Let_def)
qed

subsection \<open>The exponent\<close>

lemma bitlen_quotient_bounds:
  assumes "0 < p"
  shows "2 powi (bitlen p - 1) \<le> (of_int p :: rat)" and "(of_int p :: rat) < 2 powi bitlen p"
proof -
  have b: "2 ^ nat (bitlen p - 1) \<le> p" "p < 2 ^ nat (bitlen p)"
    using bitlen_bounds [OF assms] by auto
  have pos: "1 \<le> bitlen p"
    using assms bitlen_eq_zero_iff [of p] bitlen_nonneg [of p] by linarith
  show "2 powi (bitlen p - 1) \<le> (of_int p :: rat)"
  proof -
    have "(of_int (2 ^ nat (bitlen p - 1)) :: rat) \<le> of_int p" using b(1) by (simp only: of_int_le_iff)
    with pos show ?thesis by (simp add: power_int_def)
  qed
  show "(of_int p :: rat) < 2 powi bitlen p"
  proof -
    have "(of_int p :: rat) < of_int (2 ^ nat (bitlen p))" using b(2) by (simp only: of_int_less_iff)
    with pos show ?thesis by (simp add: power_int_def)
  qed
qed

lemma binexp_bounds:
  assumes "0 < x"
  shows "2 powi binexp x \<le> x" and "x < 2 powi (binexp x + 1)"
proof -
  obtain p q where pq: "quotient_of x = (p, q)" by fastforce
  have q: "0 < q" and x: "x = of_int p / of_int q"
    using quotient_of_denom_pos [OF pq] quotient_of_div [OF pq] by auto
  have p: "0 < p" using assms q x by (simp add: zero_less_divide_iff)
  define d where "d = bitlen p - bitlen q"
  have "(2 :: rat) powi (d - 1) * of_int q \<le> 2 powi (d - 1) * (2 powi bitlen q)"
    using bitlen_quotient_bounds(2) [OF q] by (intro mult_left_mono) auto
  also have "\<dots> = 2 powi (bitlen p - 1)"
    by (simp add: d_def flip: power_int_add)
  also have "\<dots> \<le> of_int p" by (rule bitlen_quotient_bounds(1) [OF p])
  finally have lo: "2 powi (d - 1) \<le> x"
    using q by (simp add: x field_simps)
  have "(of_int p :: rat) < 2 powi bitlen p" by (rule bitlen_quotient_bounds(2) [OF p])
  also have "2 powi bitlen p = 2 powi (d + 1) * (2 powi (bitlen q - 1) :: rat)"
    by (simp add: d_def flip: power_int_add)
  also have "\<dots> \<le> 2 powi (d + 1) * of_int q"
    using bitlen_quotient_bounds(1) [OF q] by (intro mult_left_mono) auto
  finally have hi: "x < 2 powi (d + 1)"
    using q by (simp add: x field_simps)
  show "2 powi binexp x \<le> x" and "x < 2 powi (binexp x + 1)"
    using lo hi by (auto simp: binexp_def pq d_def Let_def)
qed

lemma binexp_mono:
  assumes "0 < x" "x \<le> y"
  shows "binexp x \<le> binexp y"
proof (rule ccontr)
  assume "\<not> binexp x \<le> binexp y"
  then have "2 powi (binexp y + 1) \<le> (2 powi binexp x :: rat)"
    by (intro power_int_increasing) auto
  moreover have "0 < y" using assms by simp
  ultimately show False
    using binexp_bounds(1) [of x] binexp_bounds(2) [of y] assms by linarith
qed

subsection \<open>Laws of the rounding\<close>

lemma fl64_pos: "0 < x \<Longrightarrow> fl64 x =
    of_int (round_even (x / 2 powi (binexp x - 52))) * 2 powi (binexp x - 52)"
  by (simp add: fl64_def Let_def)

lemma fl64_minus: "fl64 (- x) = - fl64 x"
  by (simp add: fl64_def Let_def round_even_minus)

lemma powi_split52: "(2 :: rat) powi e = 2 ^ 52 * 2 powi (e - 52)"
proof -
  have "(2 :: rat) powi e = 2 powi (52 + (e - 52))" by simp
  also have "\<dots> = 2 powi 52 * 2 powi (e - 52)" by (rule power_int_add) simp
  finally show ?thesis by simp
qed

lemma fl64_binade:
  assumes "0 < x"
  shows "2 powi binexp x \<le> fl64 x" and "fl64 x \<le> 2 powi (binexp x + 1)"
proof -
  let ?u = "2 powi (binexp x - 52) :: rat"
  have u: "0 < ?u" by simp
  have e: "2 powi binexp x = 2 ^ 52 * ?u" by (rule powi_split52)
  have e1: "2 powi (binexp x + 1) = 2 ^ 53 * ?u"
    by (simp add: power_int_add_1 powi_split52 [of "binexp x"])
  have "of_int (2 ^ 52) \<le> x / ?u"
    using binexp_bounds(1) [OF assms] u e by (simp add: field_simps)
  then have "2 ^ 52 \<le> round_even (x / ?u)" by (rule round_even_ge)
  then have "(of_int (2 ^ 52) :: rat) \<le> of_int (round_even (x / ?u))"
    by (simp only: of_int_le_iff)
  then show "2 powi binexp x \<le> fl64 x"
    using u by (simp add: fl64_pos [OF assms] e)
  have "x / ?u \<le> of_int (2 ^ 53)"
    using binexp_bounds(2) [OF assms] u e1 by (simp add: field_simps)
  then have "round_even (x / ?u) \<le> 2 ^ 53" by (rule round_even_le)
  then have "of_int (round_even (x / ?u)) \<le> (of_int (2 ^ 53) :: rat)"
    by (simp only: of_int_le_iff)
  then show "fl64 x \<le> 2 powi (binexp x + 1)"
    using u by (simp add: fl64_pos [OF assms] e1)
qed

lemma fl64_mono_pos:
  assumes "0 < x" "x \<le> y"
  shows "fl64 x \<le> fl64 y"
proof (cases "binexp x = binexp y")
  case True
  then show ?thesis
    using assms by (simp add: fl64_pos round_even_mono divide_right_mono)
next
  case False
  have y: "0 < y" using assms by simp
  have "binexp x + 1 \<le> binexp y" using False binexp_mono [OF assms] by simp
  then have "(2 :: rat) powi (binexp x + 1) \<le> 2 powi binexp y"
    by (intro power_int_increasing) auto
  with fl64_binade(2) [OF assms(1)] fl64_binade(1) [OF y] show ?thesis by linarith
qed

lemma fl64_nonneg: "0 \<le> x \<Longrightarrow> 0 \<le> fl64 x"
proof -
  assume "0 \<le> x"
  then consider "x = 0" | "0 < x" by linarith
  then show ?thesis
  proof cases
    case 2
    have "0 \<le> (2 :: rat) powi binexp x" by simp
    with fl64_binade(1) [OF 2] show ?thesis by linarith
  qed (simp add: fl64_def)
qed

lemma fl64_mono: "x \<le> y \<Longrightarrow> fl64 x \<le> fl64 y"
proof -
  assume xy: "x \<le> y"
  consider "0 < x" | "x \<le> 0" "0 \<le> y" | "y < 0" by linarith
  then show ?thesis
  proof cases
    case 1
    then show ?thesis using xy by (rule fl64_mono_pos)
  next
    case 2
    then have "0 \<le> fl64 (- x)" "0 \<le> fl64 y" by (auto intro: fl64_nonneg)
    then show ?thesis by (simp add: fl64_minus)
  next
    case 3
    then have "fl64 (- y) \<le> fl64 (- x)" using xy by (intro fl64_mono_pos) auto
    then show ?thesis by (simp add: fl64_minus)
  qed
qed

lemma fl64_integral:
  assumes "0 < x" "x / 2 powi (binexp x - 52) = of_int m"
  shows "fl64 x = x"
proof -
  have "fl64 x = of_int m * 2 powi (binexp x - 52)"
    by (simp only: fl64_pos [OF assms(1)] assms(2) round_even_of_int)
  also have "\<dots> = x" by (simp flip: assms(2))
  finally show ?thesis .
qed

lemma fl64_exact_pos:
  assumes n: "0 < n" "n \<le> 2 ^ 53"
  shows "fl64 (of_int n / 2 ^ j) = of_int n / 2 ^ j"
proof -
  define x :: rat where "x = of_int n / 2 ^ j"
  define k where "k = 52 - binexp x - int j"
  have x: "0 < x" using n by (simp add: x_def)
  have q: "x / 2 powi (binexp x - 52) = of_int n * 2 powi k"
    by (simp add: x_def k_def power_int_diff power_int_add field_simps)
  show ?thesis
  proof (cases "0 \<le> k")
    case True
    then have "of_int n * (2 :: rat) powi k = of_int (n * 2 ^ nat k)"
      by (simp add: power_int_def)
    with q have "fl64 x = x" using x by (intro fl64_integral [of _ "n * 2 ^ nat k"]) simp_all
    then show ?thesis by (simp add: x_def)
  next
    case False
    then have "(2 :: rat) powi (53 - int j) \<le> 2 powi binexp x"
      by (intro power_int_increasing) (auto simp: k_def)
    also have "\<dots> \<le> x" by (rule binexp_bounds(1) [OF x])
    finally have "(2 ^ 53 :: rat) \<le> of_int n"
      by (simp add: x_def power_int_diff field_simps)
    then have "(of_int (2 ^ 53) :: rat) \<le> of_int n" by simp
    then have "2 ^ 53 \<le> n" by (simp only: of_int_le_iff)
    with n have "n = 2 ^ 53" by simp
    then have x53: "x = 2 powi (53 - int j)" by (simp add: x_def power_int_diff)
    have "53 - int j \<le> binexp x" using False by (simp add: k_def)
    moreover have "\<not> 54 - int j \<le> binexp x"
    proof
      assume "54 - int j \<le> binexp x"
      then have "(2 :: rat) powi (54 - int j) \<le> 2 powi binexp x"
        by (intro power_int_increasing) auto
      with binexp_bounds(1) [OF x] have "(2 :: rat) powi (54 - int j) \<le> 2 powi (53 - int j)"
        by (simp add: x53)
      then show False by (simp add: power_int_diff field_simps)
    qed
    ultimately have e: "binexp x = 53 - int j" by linarith
    have "x / 2 powi (binexp x - 52) = of_int (2 ^ 52)"
      unfolding e by (simp add: x53 power_int_diff field_simps)
    with x show ?thesis using fl64_integral [of x] by (simp add: x_def)
  qed
qed

lemma fl64_exact:
  assumes "\<bar>n\<bar> \<le> 2 ^ 53"
  shows "fl64 (of_int n / 2 ^ j) = of_int n / 2 ^ j"
proof -
  consider "n = 0" | "0 < n" | "0 < - n" by linarith
  then show ?thesis
  proof cases
    case 1
    then show ?thesis by (simp add: fl64_def)
  next
    case 2
    then show ?thesis using assms by (intro fl64_exact_pos) auto
  next
    case 3
    then have "fl64 (of_int (- n) / 2 ^ j) = of_int (- n) / 2 ^ j"
      using assms by (intro fl64_exact_pos) auto
    then show ?thesis by (simp add: fl64_minus)
  qed
qed

interpretation f64: rounding fl64
  by unfold_locales (auto intro: fl64_mono fl64_exact)

section \<open>Weights as floats\<close>

lemma f64_of_u32_bounds: "0 \<le> f64_of_u32 w" "f64_of_u32 w < 2 ^ 32"
proof -
  show "0 \<le> f64_of_u32 w" unfolding f64_of_u32_def by (rule of_nat_0_le_iff)
  have "unat w < 2 ^ 32" using unsigned_less [where 'a = nat and w = w] by simp
  then have "(of_nat (unat w) :: rat) < of_nat (2 ^ 32)" by (simp only: of_nat_less_iff)
  then show "f64_of_u32 w < 2 ^ 32" unfolding f64_of_u32_def by simp
qed

lemma unat_u32_of_f64:
  assumes "0 \<le> x" "x < 2 ^ 32"
  shows "int (unat (u32_of_f64 x)) = \<lfloor>x\<rfloor>"
proof -
  have "0 \<le> \<lfloor>x\<rfloor>" "\<lfloor>x\<rfloor> < 2 ^ 32"
    using assms by (simp_all add: floor_less_iff)
  then show ?thesis
    using assms by (simp add: u32_of_f64_def trunc_int_def unsigned_of_int take_bit_int_eq_self)
qed

lemma u32_of_f64_of_u32 [simp]: "u32_of_f64 (f64_of_u32 w) = w"
proof -
  have "trunc_int (of_nat n) = int n" for n by (simp add: trunc_int_def)
  then show ?thesis by (simp only: u32_of_f64_def f64_of_u32_def) simp
qed

lemma u32_of_f64_mono:
  assumes "0 \<le> x" "x \<le> y" "y < 2 ^ 32"
  shows "u32_of_f64 x \<le> u32_of_f64 y"
proof -
  have "\<lfloor>x\<rfloor> \<le> \<lfloor>y\<rfloor>" using assms by (simp add: floor_mono)
  then show ?thesis
    using assms unat_u32_of_f64 [of x] unat_u32_of_f64 [of y]
    unfolding word_le_nat_alt by linarith
qed

lemma u32_of_f64_less:
  assumes "0 \<le> x" "x < f64_of_u32 w"
  shows "u32_of_f64 x < w"
proof -
  have lt: "x < 2 ^ 32" using assms f64_of_u32_bounds(2) [of w] by linarith
  have "\<lfloor>x\<rfloor> < int (unat w)"
    using assms by (simp add: floor_less_iff f64_of_u32_def)
  then show ?thesis
    using unat_u32_of_f64 [OF assms(1) lt] unfolding word_less_nat_alt by linarith
qed

end
