(* ===== verification/Gorb_World.thy ===== *)
theory Gorb_World
  imports Gorb_Float
begin

text \<open>
  The outside world as the program sees it.  Everything the program calls that is not under
  \<open>src/\<close> (the libipvs handle, netlink, the resolver, an HTTP client, the libkv store) is a
  function of the record \<open>env\<close>, a parameter of the model.  Such a function gets the call's
  arguments and the events that have happened so far, newest first, and gives the answer; so
  an outside component may have a state of its own, and may answer the same call differently
  each time.  A call that can change the outside appends an event with its answer to the log,
  which the model threads through every operation: a theorem about a log is a theorem about
  which requests the code sends, in which order, and on which answers.
\<close>

section \<open>Values that cross the boundary\<close>

subsection \<open>JSON documents\<close>

text \<open>
  A decoded JSON document, and at the same time the dynamic values of Go's
  \<open>interface{}\<close>: \<open>encoding/json\<close> decodes a number to a \<open>float64\<close>
  (\<open>JNum\<close>); \<open>JInt\<close> is a Go \<open>int\<close>, which a decoder never makes but which a default
  value and \<open>strconv.Atoi\<close> do.
\<close>

datatype json =
    JNull
  | JBool bool
  | JNum rat
  | JInt int
  | JStr string
  | JArr "json list"
  | JObj "(string \<times> json) list"

subsection \<open>Requests to libipvs\<close>

text \<open>
  The fields of \<open>libipvs.Service\<close> and \<open>libipvs.Destination\<close> that the shim sets, and
  the constants of that library (and of \<open>syscall\<close>) the shim names.
\<close>

record lib_service =
  sv_Address :: ip
  sv_Protocol :: u16
  sv_Port :: u16
  sv_AddressFamily :: nat
  sv_SchedName :: string
  sv_Flags :: u32
  sv_Mask :: u32

record lib_dest =
  ds_Address :: ip
  ds_Port :: u16
  ds_AddressFamily :: nat
  ds_FwdMethod :: u32
  ds_Weight :: u32

datatype ipvs_req =
    IpvsInit
  | IpvsFlush
  | NewService lib_service
  | UpdService lib_service
  | DelService lib_service
  | NewDestination lib_service lib_dest
  | UpdDestination lib_service lib_dest
  | DelDestination lib_service lib_dest

record lib_consts =
  c_SCHED_SH_FALLBACK :: u32
  c_SCHED_SH_PORT :: u32
  c_SCHED1 :: u32
  c_SCHED2 :: u32
  c_SCHED3 :: u32
  c_DROUTE :: u32
  c_MASQ :: u32
  c_TUNNEL :: u32

subsection \<open>Other requests\<close>

datatype addr_req = AddrAdd string ip | AddrDel string ip

text \<open>A parsed \<open>url.URL\<close>, and a request with it; a request without a body has \<open>JNull\<close>.\<close>

record url =
  u_scheme :: string
  u_host :: string
  u_path :: string
  u_query :: string

record http_request =
  rq_method :: string
  rq_url :: url
  rq_body :: json

text \<open>
  A value is put as a document, or as a directory without one.
\<close>

datatype kv_req = KvPut string "json option" | KvDeleteTree string

text \<open>
  The answer of the store's \<open>List\<close>: the pairs found, the one error the code looks at
  (\<open>store.ErrKeyNotFound\<close>), or another error.  A value that is no JSON document at all is
  \<open>None\<close>.
\<close>

datatype kv_listing = KvPairs "(string \<times> json option) list" | KvKeyNotFound | KvError string

section \<open>Events and answers\<close>

datatype event =
    EvResolve string
  | EvIpvs ipvs_req bool
  | EvAddr addr_req bool
  | EvHttp http_request "string + nat"
  | EvKvExists string
  | EvKv kv_req bool

type_synonym log = "event list"

text \<open>
  The answers.  \<open>resolveIP\<close> is \<open>net.ResolveIPAddr("ip", _)\<close>; the functions that
  return a string option give \<open>None\<close> for success and \<open>Some\<close> with the message of an
  error; \<open>httpDo\<close> gives the status code, or the message of a failed round trip;
  \<open>newKV\<close> is \<open>libkv.NewStore\<close>, by the name of a kind of store and its hosts;
  \<open>newRequest\<close> is the verdict of \<open>http.NewRequest\<close> on a method, a host with port and a path;
  \<open>parseURL\<close> is \<open>url.Parse\<close>, \<open>linkByName\<close> is \<open>netlink.LinkByName\<close> with the name in
  the link's attributes as its answer, and \<open>clock\<close> is \<open>time.Now\<close> in nanoseconds.
  \<open>iterKeys\<close> is the order in which a \<open>range\<close> loop visits a map: Go does not specify it.
\<close>

record env =
  libconsts :: lib_consts
  resolveIP :: "log \<Rightarrow> string \<Rightarrow> string + ip"
  ipvsDo :: "log \<Rightarrow> ipvs_req \<Rightarrow> string option"
  addrDo :: "log \<Rightarrow> addr_req \<Rightarrow> string option"
  httpDo :: "log \<Rightarrow> http_request \<Rightarrow> string + nat"
  kvExists :: "log \<Rightarrow> string \<Rightarrow> string + bool"
  kvDo :: "log \<Rightarrow> kv_req \<Rightarrow> string option"
  kvList :: "log \<Rightarrow> string \<Rightarrow> kv_listing"
  newKV :: "string \<Rightarrow> string list \<Rightarrow> string option"
  newRequest :: "string \<Rightarrow> string \<Rightarrow> string \<Rightarrow> string option"
  parseURL :: "string \<Rightarrow> string + url"
  linkByName :: "string \<Rightarrow> string + string"
  clock :: "log \<Rightarrow> int"
  iterKeys :: "log \<Rightarrow> string list \<Rightarrow> string list"

text \<open>
  What the Go specification says of a \<open>range\<close> loop: every key once.
\<close>

definition fair_iter :: "env \<Rightarrow> bool" where
  "fair_iter E \<longleftrightarrow> (\<forall>l ks. mset (iterKeys E l ks) = mset ks)"

definition range_keys :: "env \<Rightarrow> log \<Rightarrow> 'v gomap \<Rightarrow> string list" where
  "range_keys E l m = iterKeys E l (gkeys m)"

lemma mset_range_keys: "fair_iter E \<Longrightarrow> mset (range_keys E l m) = mset (gkeys m)"
  by (simp add: fair_iter_def range_keys_def)

lemma set_range_keys: "fair_iter E \<Longrightarrow> set (range_keys E l m) = {k. gget m k \<noteq> None}"
  using mset_eq_setD [OF mset_range_keys [of E l m]] gm.keys_get [of _ m] by blast

lemma distinct_range_keys: "fair_iter E \<Longrightarrow> distinct (range_keys E l m)"
  using mset_eq_imp_distinct_iff [OF mset_range_keys [of E l m]] by simp

lemma length_range_keys: "fair_iter E \<Longrightarrow> length (range_keys E l m) = length (gkeys m)"
  using mset_eq_length [OF mset_range_keys [of E l m]] by simp

section \<open>Calls that leave an event\<close>

definition resolve_call :: "env \<Rightarrow> string \<Rightarrow> log \<Rightarrow> (error + ip) \<times> log" where
  "resolve_call E h l =
     ((case resolveIP E l h of Inl e \<Rightarrow> Inl (ErrExternal e) | Inr a \<Rightarrow> Inr a), EvResolve h # l)"

definition ipvs_call :: "env \<Rightarrow> ipvs_req \<Rightarrow> log \<Rightarrow> error option \<times> log" where
  "ipvs_call E r l = (let e = ipvsDo E l r in (map_option ErrExternal e, EvIpvs r (e = None) # l))"

definition addr_call :: "env \<Rightarrow> addr_req \<Rightarrow> log \<Rightarrow> error option \<times> log" where
  "addr_call E r l = (let e = addrDo E l r in (map_option ErrExternal e, EvAddr r (e = None) # l))"

definition http_call :: "env \<Rightarrow> http_request \<Rightarrow> log \<Rightarrow> (error + nat) \<times> log" where
  "http_call E r l = (let s = httpDo E l r in (map_sum ErrExternal id s, EvHttp r s # l))"

definition kv_exists_call :: "env \<Rightarrow> string \<Rightarrow> log \<Rightarrow> (error + bool) \<times> log" where
  "kv_exists_call E k l =
     ((case kvExists E l k of Inl e \<Rightarrow> Inl (ErrExternal e) | Inr b \<Rightarrow> Inr b), EvKvExists k # l)"

definition kv_call :: "env \<Rightarrow> kv_req \<Rightarrow> log \<Rightarrow> error option \<times> log" where
  "kv_call E r l = (let e = kvDo E l r in (map_option ErrExternal e, EvKv r (e = None) # l))"

lemmas call_defs = resolve_call_def ipvs_call_def addr_call_def http_call_def
  kv_exists_call_def kv_call_def

text \<open>
  Every call of the outside world only adds to the log.  The operations of the program are
  built from such calls; \<open>logged\<close> is the interface their models share, and it is closed
  under sequencing.
\<close>

locale logged =
  fixes run :: "log \<Rightarrow> 'r \<times> log"
  assumes extends: "\<exists>es. snd (run l) = es @ l"
begin

lemma log_length: "length l \<le> length (snd (run l))"
  using extends [of l] by auto

lemma log_subset: "set l \<subseteq> set (snd (run l))"
  using extends [of l] by auto

lemma extends_trans:
  assumes "l = es @ l0"
  shows "\<exists>es. snd (run l) = es @ l0"
  using extends [of l] assms by auto

end

interpretation resolve_log: logged "resolve_call E h" for E h
  by unfold_locales (simp add: resolve_call_def)

interpretation ipvs_log: logged "ipvs_call E r" for E r
  by unfold_locales (simp add: ipvs_call_def Let_def)

interpretation addr_log: logged "addr_call E r" for E r
  by unfold_locales (simp add: addr_call_def Let_def)

interpretation http_log: logged "http_call E r" for E r
  by unfold_locales (simp add: http_call_def Let_def)

interpretation kv_log: logged "kv_call E r" for E r
  by unfold_locales (simp add: kv_call_def Let_def)

section \<open>A concrete world for examples\<close>

text \<open>
  Used by the witnesses only: names resolve to the loopback address, every call succeeds,
  loops visit keys in insertion order, and the constants are those of the Linux headers.
\<close>

definition linux_consts :: lib_consts where
  "linux_consts = \<lparr>c_SCHED_SH_FALLBACK = 8, c_SCHED_SH_PORT = 16, c_SCHED1 = 8, c_SCHED2 = 16,
     c_SCHED3 = 32, c_DROUTE = 3, c_MASQ = 0, c_TUNNEL = 2\<rparr>"

definition ok_env :: env where
  "ok_env = \<lparr>libconsts = linux_consts, resolveIP = (\<lambda>_ _. Inr [127, 0, 0, 1]),
     ipvsDo = (\<lambda>_ _. None), addrDo = (\<lambda>_ _. None), httpDo = (\<lambda>_ _. Inr 200),
     kvExists = (\<lambda>_ _. Inr False), kvDo = (\<lambda>_ _. None), kvList = (\<lambda>_ _. KvKeyNotFound),
     newKV = (\<lambda>_ _. None), newRequest = (\<lambda>_ _ _. None),
     parseURL = (\<lambda>s. Inr \<lparr>u_scheme = ''http'', u_host = s, u_path = [], u_query = []\<rparr>),
     linkByName = Inr, clock = (\<lambda>_. 0), iterKeys = (\<lambda>_ ks. ks)\<rparr>"

lemma fair_ok_env [simp]: "fair_iter ok_env"
  by (simp add: fair_iter_def ok_env_def)

lemmas ok_env_simps [simp] = ok_env_def [THEN arg_cong [where f = resolveIP], simplified]
  ok_env_def [THEN arg_cong [where f = ipvsDo], simplified]
  ok_env_def [THEN arg_cong [where f = addrDo], simplified]
  ok_env_def [THEN arg_cong [where f = httpDo], simplified]
  ok_env_def [THEN arg_cong [where f = kvExists], simplified]
  ok_env_def [THEN arg_cong [where f = kvDo], simplified]
  ok_env_def [THEN arg_cong [where f = kvList], simplified]
  ok_env_def [THEN arg_cong [where f = newKV], simplified]
  ok_env_def [THEN arg_cong [where f = newRequest], simplified]
  ok_env_def [THEN arg_cong [where f = iterKeys], simplified]
  ok_env_def [THEN arg_cong [where f = linkByName], simplified]
  ok_env_def [THEN arg_cong [where f = libconsts], simplified]
  ok_env_def [THEN arg_cong [where f = clock], simplified]

end
