(* ===== verification/Gorb_Util.thy ===== *)
theory Gorb_Util
  imports Gorb_World
begin

text \<open>
  Package \<open>util\<close> (\<open>src/util\<close>): addresses (\<open>net.go\<close>), the dynamic options passed to
  drivers (\<open>map.go\<close>), intervals (\<open>time.go\<close>) and JSON output (\<open>json.go\<close>); with the
  functions of Go's \<open>net\<close> package on addresses that the program composes with them.
\<close>

section \<open>Addresses\<close>

text \<open>\<open>syscall.AF_INET\<close> and \<open>syscall.AF_INET6\<close> on Linux.\<close>

definition AF_INET :: nat where "AF_INET = 2"
definition AF_INET6 :: nat where "AF_INET6 = 10"

definition v4Prefix :: "u8 list" where
  "v4Prefix = [0, 0, 0, 0, 0, 0, 0, 0, 0, 0, 0xff, 0xff]"

definition AddrFamily :: "ip \<Rightarrow> nat" where
  "AddrFamily a =
     (if length a = 4 then AF_INET
      else if length a = 16 \<and> take 12 a = v4Prefix then AF_INET
      else AF_INET6)"

subsection \<open>\<open>net.IP\<close>: \<open>To4\<close>, \<open>String\<close>, \<open>ParseIP\<close>\<close>

definition ip_To4 :: "ip \<Rightarrow> ip" where
  "ip_To4 a = (if length a = 4 then a
     else if length a = 16 \<and> take 12 a = v4Prefix then drop 12 a else [])"

definition hex_char :: "nat \<Rightarrow> char" where
  "hex_char d = (if d < 10 then char_of (48 + d) else char_of (87 + d))"

fun show_hex :: "nat \<Rightarrow> string" where
  "show_hex n = (if n < 16 then [hex_char n] else show_hex (n div 16) @ [hex_char (n mod 16)])"

declare show_hex.simps [simp del]

fun groups16 :: "u8 list \<Rightarrow> nat list" where
  "groups16 (a # b # r) = (unat a * 256 + unat b) # groups16 r"
| "groups16 _ = []"

definition zero_run :: "nat list \<Rightarrow> nat \<Rightarrow> nat" where
  "zero_run gs i = length (takeWhile (\<lambda>g. g = 0) (drop i gs))"

definition longest_run :: "nat list \<Rightarrow> nat \<times> nat" where
  "longest_run gs = foldl (\<lambda>(s, n) i. if zero_run gs i > n then (i, zero_run gs i) else (s, n))
     (0, 0) [0..<length gs]"

definition ip_String :: "ip \<Rightarrow> string" where
  "ip_String a =
     (if a = [] then ''<nil>''
      else if length (ip_To4 a) = 4 then join_with ''.'' (map (show_nat \<circ> unat) (ip_To4 a))
      else if length a \<noteq> 16
      then CHR ''?'' # concat (map (\<lambda>b. [hex_char (unat b div 16), hex_char (unat b mod 16)]) a)
      else let gs = groups16 a; (s, n) = longest_run gs in
        if n \<ge> 2
        then join_with '':'' (map show_hex (take s gs)) @ ''::'' @ join_with '':'' (map show_hex (drop (s + n) gs))
        else join_with '':'' (map show_hex gs))"

definition dtoi :: "string \<Rightarrow> (nat \<times> string) option" where
  "dtoi s = (let ds = takeWhile is_digit s; n = digits_val ds in
     if ds = [] \<or> n \<ge> 0xFFFFFF then None else Some (nat n, drop (length ds) s))"

definition hex_val :: "char \<Rightarrow> nat option" where
  "hex_val c = (let n = (of_char c :: nat) in
     if 48 \<le> n \<and> n \<le> 57 then Some (n - 48)
     else if 97 \<le> n \<and> n \<le> 102 then Some (n - 87)
     else if 65 \<le> n \<and> n \<le> 70 then Some (n - 55) else None)"

definition xtoi :: "string \<Rightarrow> (nat \<times> string) option" where
  "xtoi s = (let ds = takeWhile (\<lambda>c. hex_val c \<noteq> None) s;
       n = foldl (\<lambda>acc c. 16 * acc + the (hex_val c)) 0 ds in
     if ds = [] \<or> n \<ge> 0xFFFFFF then None else Some (n, drop (length ds) s))"

text \<open>
  \<open>parseIPv4\<close>: four numbers up to 255, a dot before each but the first, nothing after.
\<close>

fun parse_octets :: "nat \<Rightarrow> string \<Rightarrow> u8 list option" where
  "parse_octets 0 s = (if s = [] then Some [] else None)"
| "parse_octets (Suc k) s =
     (case s of [] \<Rightarrow> None
      | c # s' \<Rightarrow> if c \<noteq> CHR ''.'' then None
          else (case dtoi s' of None \<Rightarrow> None
            | Some (n, r) \<Rightarrow> if n > 255 then None
                else map_option (\<lambda>bs. of_nat n # bs) (parse_octets k r)))"

definition parse_ipv4 :: "string \<Rightarrow> ip" where
  "parse_ipv4 s = (if s = [] then []
     else case parse_octets 4 (CHR ''.'' # s) of None \<Rightarrow> [] | Some bs \<Rightarrow> v4Prefix @ bs)"

text \<open>
  \<open>parseIPv6\<close>: up to eight groups; \<open>ell\<close> is the place of the ellipsis.  The counter bounds
  the groups still to read, as the loop's \<open>i < IPv6len\<close> does.
\<close>

fun parse_groups :: "nat \<Rightarrow> string \<Rightarrow> u8 list \<Rightarrow> nat option \<Rightarrow> (u8 list \<times> nat option) option" where
  "parse_groups 0 s bs ell = (if s = [] then Some (bs, ell) else None)"
| "parse_groups (Suc k) s bs ell =
     (case xtoi s of None \<Rightarrow> None
      | Some (n, r) \<Rightarrow>
        if n > 0xFFFF then None
        else if r \<noteq> [] \<and> hd r = CHR ''.'' then
          (if (ell = None \<and> length bs \<noteq> 12) \<or> length bs + 4 > 16 then None
           else case parse_ipv4 s of [] \<Rightarrow> None | b # b' \<Rightarrow> Some (bs @ drop 12 (b # b'), ell))
        else let bs' = bs @ [of_nat (n div 256), of_nat (n mod 256)] in
          (case r of [] \<Rightarrow> Some (bs', ell)
           | c # r' \<Rightarrow> if c \<noteq> CHR '':'' \<or> r' = [] then None
               else if hd r' = CHR '':'' then
                 (if ell \<noteq> None then None
                  else if tl r' = [] then Some (bs', Some (length bs'))
                  else parse_groups k (tl r') bs' (Some (length bs')))
               else parse_groups k r' bs' ell))"

definition parse_ipv6 :: "string \<Rightarrow> ip" where
  "parse_ipv6 s =
     (let lead = take 2 s = ''::''; s' = (if lead then drop 2 s else s) in
      if lead \<and> s' = [] then replicate 16 0
      else case parse_groups 8 s' [] (if lead then Some 0 else None) of
        None \<Rightarrow> []
      | Some (bs, None) \<Rightarrow> if length bs < 16 then [] else bs
      | Some (bs, Some e) \<Rightarrow> if length bs < 16
          then take e bs @ replicate (16 - length bs) 0 @ drop e bs else [])"

definition ParseIP :: "string \<Rightarrow> ip" where
  "ParseIP s = (case filter (\<lambda>c. c = CHR ''.'' \<or> c = CHR '':'') s of
     [] \<Rightarrow> [] | c # _ \<Rightarrow> if c = CHR ''.'' then parse_ipv4 s else parse_ipv6 s)"

subsection \<open>\<open>InterfaceIPs\<close>\<close>

text \<open>
  \<open>net.InterfaceByName\<close> and \<open>iface.Addrs\<close> are the two parameters.  An address that is not
  a \<open>*net.IPNet\<close> is skipped.
\<close>

datatype net_addr = IPNet ip | OtherAddr

definition InterfaceIPs ::
  "(string \<Rightarrow> string + 'i) \<Rightarrow> ('i \<Rightarrow> string + net_addr list) \<Rightarrow> string \<Rightarrow> error + ip list" where
  "InterfaceIPs byName addrs device =
     (case byName device of Inl e \<Rightarrow> Inl (ErrExternal e)
      | Inr iface \<Rightarrow> (case addrs iface of Inl e \<Rightarrow> Inl (ErrExternal e)
          | Inr networks \<Rightarrow> Inr (List.map_filter (\<lambda>n. case n of IPNet a \<Rightarrow> Some a | OtherAddr \<Rightarrow> None) networks)))"

section \<open>Dynamic options\<close>

type_synonym DynamicMap = "json gomap"

definition isInt :: "string \<Rightarrow> bool" where
  "isInt s = list_all is_digit s"

text \<open>
  \<open>strconv.Atoi\<close> on a string of digits, its error dropped as the code does: the empty
  string gives 0, a number beyond \<open>int64\<close> the largest \<open>int64\<close>.
\<close>

definition atoi_digits :: "string \<Rightarrow> int" where
  "atoi_digits s = min (digits_val s) (2 ^ 63 - 1)"

text \<open>
  \<open>reflect.TypeOf(v).ConvertibleTo(reflect.TypeOf(d))\<close> on the dynamic types; a nil value
  has no type, and calling a method of it panics.
\<close>

fun convertible :: "json \<Rightarrow> json \<Rightarrow> bool" where
  "convertible (JBool _) (JBool _) = True"
| "convertible (JNum _) (JNum _) = True"
| "convertible (JNum _) (JInt _) = True"
| "convertible (JInt _) (JInt _) = True"
| "convertible (JInt _) (JNum _) = True"
| "convertible (JInt _) (JStr _) = True"
| "convertible (JStr _) (JStr _) = True"
| "convertible (JArr _) (JArr _) = True"
| "convertible (JObj _) (JObj _) = True"
| "convertible _ _ = False"

definition dyn_Get :: "DynamicMap \<Rightarrow> string \<Rightarrow> json \<Rightarrow> json outcome" where
  "dyn_Get m key d =
     (case gget m key of None \<Rightarrow> Ok d
      | Some v \<Rightarrow>
        if v = JNull \<or> d = JNull then Panic
        else if convertible v d then Ok v
        else (case v of
            JStr s \<Rightarrow> if isInt s then Ok (JInt (atoi_digits s)) else Ok d
          | _ \<Rightarrow> Panic))"

text \<open>The type assertions \<open>.(string)\<close> and \<open>.(int)\<close> on what \<open>Get\<close> returns.\<close>

fun as_string :: "json outcome \<Rightarrow> string outcome" where
  "as_string (Ok (JStr s)) = Ok s"
| "as_string (Fail e) = Fail e"
| "as_string _ = Panic"

fun as_int :: "json outcome \<Rightarrow> int outcome" where
  "as_int (Ok (JInt n)) = Ok n"
| "as_int (Fail e) = Fail e"
| "as_int _ = Panic"

section \<open>Intervals\<close>

definition second :: int where "second = 10 ^ 9"
definition minute :: int where "minute = 60 * second"
definition hour :: int where "hour = 60 * minute"

definition intervals :: "(string \<times> int) list" where
  "intervals = [(''s'', second), (''sec'', second), (''seconds'', second),
     (''m'', minute), (''min'', minute), (''minutes'', minute),
     (''h'', hour), (''hours'', hour)]"

text \<open>
  The regular expression \<open>(?i)^([+-]?[0-9]+)(name|...|name)$\<close> built by \<open>init\<close>: the
  two groups of a match.
\<close>

definition re_interval :: "string \<Rightarrow> (string \<times> string) option" where
  "re_interval s =
     (let sign = (case s of c # _ \<Rightarrow> if c = CHR ''+'' \<or> c = CHR ''-'' then [c] else [] | [] \<Rightarrow> []);
          r = drop (length sign) s;
          ds = takeWhile is_digit r; u = drop (length ds) r in
      if ds \<noteq> [] \<and> to_lower u \<in> fst ` set intervals then Some (sign @ ds, u) else None)"

text \<open>
  \<open>strconv.ParseInt(_, 10, 32)\<close> with its error dropped: a value out of range is cut to the
  nearest 32-bit integer.
\<close>

definition signed_val :: "string \<Rightarrow> int" where
  "signed_val s = (case s of [] \<Rightarrow> 0
     | c # ds \<Rightarrow> if c = CHR ''-'' then - digits_val ds
         else if c = CHR ''+'' then digits_val ds else digits_val s)"

definition parse_int32 :: "string \<Rightarrow> int" where
  "parse_int32 s = max (- (2 ^ 31)) (min (2 ^ 31 - 1) (signed_val s))"

text \<open>
  \<open>time.Duration\<close> is an \<open>int64\<close> of nanoseconds; the product wraps around.
\<close>

definition ParseInterval :: "string \<Rightarrow> error + i64" where
  "ParseInterval s =
     (case re_interval (trim_space s) of
        None \<Rightarrow> Inl ErrInvalidIntervalFormat
      | Some (m1, m2) \<Rightarrow>
          (let value = parse_int32 m1;
               duration = (case map_of intervals (to_lower m2) of None \<Rightarrow> 0 | Some d \<Rightarrow> d)
           in Inr (word_of_int duration * word_of_int value)))"

section \<open>JSON output\<close>

text \<open>
  \<open>MustMarshal\<close>: \<open>json.Marshal\<close> gives the document or an error; the text is kept as the
  document with its layout.
\<close>

datatype json_text = Compact json | Indented json

definition MustMarshal :: "string + json \<Rightarrow> bool \<Rightarrow> json_text outcome" where
  "MustMarshal marshalled indent =
     (case marshalled of Inl _ \<Rightarrow> Panic | Inr j \<Rightarrow> Ok (if indent then Indented j else Compact j))"

section \<open>Addresses: text and family\<close>

lemma takeWhile_digits_app:
  "list_all is_digit ds \<Longrightarrow> r = [] \<or> \<not> is_digit (hd r) \<Longrightarrow> takeWhile is_digit (ds @ r) = ds"
  by (cases r) (auto simp: takeWhile_append2 list_all_iff)

lemma dtoi_show_nat:
  assumes "n \<le> 255" and "r = [] \<or> \<not> is_digit (hd r)"
  shows "dtoi (show_nat n @ r) = Some (n, r)"
proof -
  have "takeWhile is_digit (show_nat n @ r) = show_nat n"
    using show_nat_digits [of n] assms(2) by (intro takeWhile_digits_app) auto
  then show ?thesis
    using assms(1) show_nat_digits [of n] by (simp add: dtoi_def Let_def)
qed

lemma not_digit_dot: "\<not> is_digit CHR ''.''" "\<not> is_digit CHR '':''"
  by (simp_all add: is_digit_def Let_def)

lemma parse_octets_show:
  "parse_octets (length bs) (concat (map (\<lambda>b. CHR ''.'' # show_nat (unat b)) bs)) = Some bs"
proof (induction bs)
  case Nil
  then show ?case by simp
next
  case (Cons b bs)
  let ?r = "concat (map (\<lambda>b. CHR ''.'' # show_nat (unat b)) bs)"
  have u: "unat b \<le> 255" using unsigned_less [where 'a = nat and w = b] by simp
  have "?r = [] \<or> \<not> is_digit (hd ?r)"
    by (cases bs) (auto simp: not_digit_dot)
  then have "dtoi (show_nat (unat b) @ ?r) = Some (unat b, ?r)"
    using u by (intro dtoi_show_nat) auto
  then show ?case using Cons.IH u by simp
qed

lemma join_dot: "ws \<noteq> [] \<Longrightarrow> CHR ''.'' # join_with ''.'' ws = concat (map (\<lambda>w. CHR ''.'' # w) ws)"
  by (induction "''.''" ws rule: join_with.induct) auto

lemma parse_ipv4_join:
  assumes "length bs = 4"
  shows "parse_ipv4 (join_with ''.'' (map (show_nat \<circ> unat) bs)) = v4Prefix @ bs"
proof -
  let ?s = "join_with ''.'' (map (show_nat \<circ> unat) bs)"
  obtain a b c d where bs: "bs = [a, b, c, d]"
    using assms by (auto simp: length_Suc_conv numeral_eq_Suc)
  have "CHR ''.'' # ?s = concat (map (\<lambda>b. CHR ''.'' # show_nat (unat b)) bs)"
    by (subst join_dot) (simp_all add: bs)
  then have "parse_octets 4 (CHR ''.'' # ?s) = Some bs"
    using parse_octets_show [of bs] assms by simp
  moreover have "?s \<noteq> []" by (simp add: bs)
  ultimately show ?thesis by (simp add: parse_ipv4_def)
qed

lemma filter_seps_digits: "list_all is_digit ds \<Longrightarrow> filter (\<lambda>c. c = CHR ''.'' \<or> c = CHR '':'') ds = []"
  using not_digit_dot by (induction ds) auto

lemma ParseIP_dotted:
  assumes "length bs = 4"
  shows "ParseIP (join_with ''.'' (map (show_nat \<circ> unat) bs)) = v4Prefix @ bs"
proof -
  obtain a b c d where bs: "bs = [a, b, c, d]"
    using assms by (auto simp: length_Suc_conv numeral_eq_Suc)
  have "filter (\<lambda>c. c = CHR ''.'' \<or> c = CHR '':'') (show_nat n) = []" for n
    using show_nat_digits [of n] by (intro filter_seps_digits) simp
  then show ?thesis
    using parse_ipv4_join [OF assms] by (simp add: ParseIP_def bs)
qed

lemma To4_length: "ip_To4 a \<noteq> [] \<longleftrightarrow> length (ip_To4 a) = 4"
  by (auto simp: ip_To4_def)

lemma AddrFamily_To4: "AddrFamily a = AF_INET \<longleftrightarrow> ip_To4 a \<noteq> []"
  by (auto simp: AddrFamily_def ip_To4_def AF_INET_def AF_INET6_def)

text \<open>
  An IPv4 address survives the trip through text: the shim parses what the context
  printed (\<open>host.String()\<close>, then \<open>net.ParseIP\<close>) and gets the 16-byte form of the same
  address, whether the context held it in 4 or in 16 bytes; and the parsed address has the same
  family.
\<close>

lemma ipv4_text_roundtrip:
  assumes "AddrFamily a = AF_INET"
  shows "ParseIP (ip_String a) = v4Prefix @ ip_To4 a \<and> AddrFamily (ParseIP (ip_String a)) = AF_INET"
proof -
  have len: "length (ip_To4 a) = 4" and "a \<noteq> []"
    using assms To4_length [of a] by (auto simp: AddrFamily_To4 ip_To4_def)
  then have "ParseIP (ip_String a) = v4Prefix @ ip_To4 a"
    by (simp add: ip_String_def ParseIP_dotted)
  with len show ?thesis by (simp add: AddrFamily_def v4Prefix_def)
qed

lemma ip_String_v4_inj:
  assumes "AddrFamily a = AF_INET" "AddrFamily b = AF_INET" "ip_String a = ip_String b"
  shows "ip_To4 a = ip_To4 b"
proof -
  have "ParseIP (ip_String x) = v4Prefix @ ip_To4 x" if "AddrFamily x = AF_INET" for x
  proof -
    have "length (ip_To4 x) = 4" "x \<noteq> []"
      using that To4_length [of x] by (auto simp: AddrFamily_To4 ip_To4_def)
    then show ?thesis by (simp add: ip_String_def ParseIP_dotted)
  qed
  with assms show ?thesis by (metis same_append_eq)
qed

section \<open>Typed options\<close>

text \<open>
  What the HTTP health check gets for its expected status code
  (\<open>opts.Get("expect", 200).(int)\<close>), for every dynamic value: a Go int as it is, a string
  of digits as its number, the default for an absent key or any other string, and a panic for
  everything else, among it every JSON number.
\<close>

lemma expect_option_cases:
  "as_int (dyn_Get m k (JInt d)) =
     (case gget m k of None \<Rightarrow> Ok d
      | Some (JInt n) \<Rightarrow> Ok n
      | Some (JStr s) \<Rightarrow> if list_all is_digit s then Ok (min (digits_val s) (2 ^ 63 - 1)) else Ok d
      | Some _ \<Rightarrow> Panic)"
  by (auto simp: dyn_Get_def isInt_def atoi_digits_def split: option.splits json.splits)

lemma string_option_cases:
  "as_string (dyn_Get m k (JStr d)) =
     (case gget m k of None \<Rightarrow> Ok d | Some (JStr s) \<Rightarrow> Ok s | Some _ \<Rightarrow> Panic)"
  by (auto simp: dyn_Get_def split: option.splits json.splits)

section \<open>Parsing intervals\<close>

lemma unit_not_digit: "u \<in> fst ` set intervals \<Longrightarrow> u \<noteq> [] \<and> \<not> is_digit (hd u)"
  by (auto simp: intervals_def is_digit_def Let_def)

lemma re_interval_digits:
  assumes "list_all is_digit ds" "ds \<noteq> []" "to_lower u \<in> fst ` set intervals"
  shows "re_interval (ds @ u) = Some (ds, u)"
proof -
  obtain c ds' where ds: "ds = c # ds'" using assms(2) by (cases ds) auto
  have c: "is_digit c" using assms(1) ds by simp
  then have nosign: "c \<noteq> CHR ''+''" "c \<noteq> CHR ''-''"
    by (auto simp: is_digit_def Let_def)
  have "u \<noteq> []" "\<not> is_digit (hd u)"
  proof -
    show "u \<noteq> []" using unit_not_digit [OF assms(3)] by auto
    show "\<not> is_digit (hd u)"
    proof
      assume d: "is_digit (hd u)"
      have "hd (to_lower u) = lower_char (hd u)"
        using \<open>u \<noteq> []\<close> by (simp add: to_lower_def hd_map)
      then have "is_digit (hd (to_lower u))" using d is_digit_lower by simp
      with unit_not_digit [OF assms(3)] show False by simp
    qed
  qed
  then have "takeWhile is_digit (ds @ u) = ds"
    using assms(1) by (intro takeWhile_digits_app) auto
  then show ?thesis using nosign assms(2,3) by (simp add: re_interval_def ds Let_def)
qed

lemma intervals_map_of: "(u, d) \<in> set intervals \<Longrightarrow> map_of intervals u = Some d"
  by (auto simp: intervals_def)

lemma interval_bound: "(u, d) \<in> set intervals \<Longrightarrow> second \<le> d \<and> d \<le> hour"
  by (auto simp: intervals_def second_def minute_def hour_def)

lemma signed_val_digits: "list_all is_digit ds \<Longrightarrow> ds \<noteq> [] \<Longrightarrow> signed_val ds = digits_val ds"
  by (cases ds) (auto simp: signed_val_def is_digit_def Let_def)

lemma trim_digits_unit:
  assumes "list_all is_digit ds" "ds \<noteq> []" "(u, d) \<in> set intervals"
  shows "trim_space (ds @ u) = ds @ u"
proof -
  obtain c ds' where ds: "ds = c # ds'" using assms(2) by (cases ds) auto
  have "\<not> is_space c" using assms(1) ds by (auto simp: is_digit_def is_space_def Let_def)
  then have "dropWhile is_space (ds @ u) = ds @ u" by (simp add: ds)
  moreover have "u \<noteq> []" "\<not> is_space (last u)"
    using assms(3) by (auto simp: intervals_def is_space_def Let_def)
  then have "dropWhile is_space (rev (ds @ u)) = rev (ds @ u)"
    by (cases u rule: rev_cases) auto
  ultimately show ?thesis by (simp add: trim_space_def)
qed

lemma ParseInterval_digits:
  assumes "list_all is_digit ds" "ds \<noteq> []" "(u, d) \<in> set intervals"
  shows "ParseInterval (ds @ u) = Inr (word_of_int (d * min (2 ^ 31 - 1) (digits_val ds)))"
proof -
  have u: "to_lower u = u"
    using assms(3) by (auto simp: intervals_def to_lower_def lower_char_def)
  then have "re_interval (ds @ u) = Some (ds, u)"
    using assms by (intro re_interval_digits) (auto simp: image_iff intro!: bexI)
  moreover have "parse_int32 ds = min (2 ^ 31 - 1) (digits_val ds)"
    using digits_val_nonneg [OF assms(1)] by (simp add: parse_int32_def signed_val_digits [OF assms(1,2)])
  ultimately show ?thesis
    using assms intervals_map_of [OF assms(3)] u
    by (simp add: ParseInterval_def trim_digits_unit Let_def)
qed

text \<open>
  Printing a count of any unit and parsing it gives that many nanoseconds exactly, as
  long as the count is at most 2562047 (292 years in hours): the 64-bit product of count and unit
  does not overflow.
\<close>

lemma interval_roundtrip:
  assumes "(u, d) \<in> set intervals" and "n \<le> 2562047"
  shows "\<exists>w. ParseInterval (show_nat n @ u) = Inr w \<and> sint w = d * int n"
proof -
  have "ParseInterval (show_nat n @ u) = Inr (word_of_int (d * min (2 ^ 31 - 1) (int n)))"
    using ParseInterval_digits [of "show_nat n", OF _ _ assms(1)] show_nat_digits [of n] by simp
  also have "min (2 ^ 31 - 1) (int n) = int n" using assms(2) by simp
  finally have eq: "ParseInterval (show_nat n @ u) = Inr (word_of_int (d * int n))" .
  have "0 \<le> d * int n"
    using interval_bound [OF assms(1)] by (simp add: second_def)
  moreover have "d * int n \<le> hour * 2562047"
    using interval_bound [OF assms(1)] assms(2) by (intro mult_mono) (auto simp: second_def)
  ultimately have "sint (word_of_int (d * int n) :: i64) = d * int n"
    by (intro sint_i64) (auto simp: hour_def minute_def second_def)
  with eq show ?thesis by blast
qed

lemma interval_roundtrip_witness:
  "(''m'', minute) \<in> set intervals \<and> (2::nat) \<le> 2562047 \<and>
   (\<exists>w. ParseInterval (show_nat 2 @ ''m'') = Inr w \<and> sint w = 120 * 10 ^ 9)"
proof -
  have "(''m'', minute) \<in> set intervals" by (simp add: intervals_def)
  then show ?thesis
    using interval_roundtrip [of "''m''" minute 2] by (simp add: minute_def second_def)
qed

text \<open>
  One hour more than the bound of the round trip overflows: the parser accepts the
  text and returns a negative duration.
\<close>

lemma interval_overflow:
  "\<exists>w. ParseInterval ''2562048h'' = Inr w \<and> sint w < 0"
proof -
  have "ParseInterval ''2562048h'' = Inr (word_of_int (hour * 2562048))"
    using ParseInterval_digits [of "''2562048''" "''h''" hour]
    by (simp add: intervals_def is_digit_def digits_val_def digit_val_def)
  moreover have "sint (word_of_int (hour * 2562048) :: i64) < 0"
    by (simp add: hour_def minute_def second_def)
  ultimately show ?thesis by blast
qed

end
