(* ===== verification/Gorb_Metrics.thy ===== *)
theory Gorb_Metrics
  imports Gorb_Util
begin

text \<open>
  The statistics of a health check: \<open>src/pulse/status.go\<close> and \<open>src/pulse/metrics.go\<close>.
  The health is computed as the code does, in \<open>float64\<close> arithmetic; the lemmas about it are
  proved for every rounding (context \<open>rounding\<close>) and used for \<open>fl64\<close>.
\<close>

section \<open>Status\<close>

datatype StatusType = StatusUp | StatusDown | StatusRemoved

primrec status_num :: "StatusType \<Rightarrow> nat" where
  "status_num StatusUp = 0"
| "status_num StatusDown = 1"
| "status_num StatusRemoved = 2"

text \<open>The status codes as an order: a greater status is a worse one.\<close>

instantiation StatusType :: linorder
begin

definition less_eq_StatusType :: "StatusType \<Rightarrow> StatusType \<Rightarrow> bool" where
  "less_eq_StatusType s t \<longleftrightarrow> status_num s \<le> status_num t"

definition less_StatusType :: "StatusType \<Rightarrow> StatusType \<Rightarrow> bool" where
  "less_StatusType s t \<longleftrightarrow> status_num s < status_num t"

instance
proof
  fix s t :: StatusType
  show "s \<le> t \<Longrightarrow> t \<le> s \<Longrightarrow> s = t" by (cases s; cases t) (simp_all add: less_eq_StatusType_def)
qed (auto simp: less_eq_StatusType_def less_StatusType_def)

end

primrec status_String :: "StatusType \<Rightarrow> string" where
  "status_String StatusUp = ''Up''"
| "status_String StatusDown = ''Down''"
| "status_String StatusRemoved = ''Removed''"

record ID =
  VsID :: string
  RsID :: string

definition id_String :: "ID \<Rightarrow> string" where
  "id_String i = ''['' @ VsID i @ ''/'' @ RsID i @ '']''"

section \<open>Metrics\<close>

text \<open>Instants are nanoseconds on the clock that \<open>time.Now\<close> reads.\<close>

record Metrics =
  m_Status :: StatusType
  m_Health :: rat
  m_Uptime :: i64
  m_lastTs :: int
  m_record :: "StatusType list"

text \<open>The zero value of the struct, which a new backend holds until its first update.\<close>

definition zero_Metrics :: Metrics where
  "zero_Metrics = \<lparr>m_Status = StatusUp, m_Health = 0, m_Uptime = 0, m_lastTs = 0, m_record = []\<rparr>"

definition NewMetrics :: "int \<Rightarrow> Metrics" where
  "NewMetrics now = \<lparr>m_Status = StatusUp, m_Health = 1, m_Uptime = 0, m_lastTs = now, m_record = []\<rparr>"

text \<open>\<open>time.Time.Sub\<close> saturates at the ends of \<open>int64\<close>.\<close>

definition time_Sub :: "int \<Rightarrow> int \<Rightarrow> int" where
  "time_Sub t u = max (- (2 ^ 63)) (min (2 ^ 63 - 1) (t - u))"

definition push_record :: "StatusType list \<Rightarrow> StatusType \<Rightarrow> StatusType list" where
  "push_record rs s = (let r = rs @ [s] in if length r > 100 then drop 1 r else r)"

text \<open>The loop that sums the record, and the division, with every operation rounded.\<close>

definition health_of :: "(rat \<Rightarrow> rat) \<Rightarrow> StatusType list \<Rightarrow> rat" where
  "health_of fl rs =
     (let total = foldl (\<lambda>h r. fl (h + of_nat (status_num r))) 0 rs
      in fl (1 - fl (total / of_nat (length rs))))"

definition metrics_Update :: "Metrics \<Rightarrow> StatusType \<Rightarrow> int \<Rightarrow> Metrics" where
  "metrics_Update m status ts =
     (let rs = push_record (m_record m) status in
      \<lparr>m_Status = status, m_Health = health_of fl64 rs,
       m_Uptime = (if status \<noteq> StatusUp then 0
         else m_Uptime m + word_of_int (go_quot (time_Sub ts (m_lastTs m)) second)),
       m_lastTs = ts, m_record = rs\<rparr>)"

definition metrics_run :: "Metrics \<Rightarrow> (StatusType \<times> int) list \<Rightarrow> Metrics" where
  "metrics_run m us = foldl (\<lambda>m (s, t). metrics_Update m s t) m us"

section \<open>Health under any rounding\<close>

definition score :: "StatusType list \<Rightarrow> nat" where
  "score rs = sum_list (map status_num rs)"

lemma score_simps [simp]:
  "score [] = 0" "score (r # rs) = status_num r + score rs" "score (rs @ qs) = score rs + score qs"
  by (simp_all add: score_def)

lemma score_mono: "list_all2 (\<le>) rs qs \<Longrightarrow> score rs \<le> score qs"
  by (induction rule: list_all2_induct) (simp_all add: less_eq_StatusType_def add_mono)

lemma score_le: "score rs \<le> 2 * length rs"
proof (induction rs)
  case (Cons r rs)
  then show ?case by (cases r) auto
qed simp

lemma score_le_length: "StatusRemoved \<notin> set rs \<Longrightarrow> score rs \<le> length rs"
proof (induction rs)
  case (Cons r rs)
  then show ?case by (cases r) auto
qed simp

lemma score_0_iff: "score rs = 0 \<longleftrightarrow> (\<forall>r \<in> set rs. r = StatusUp)"
proof (induction rs)
  case (Cons r rs)
  then show ?case by (cases r) auto
qed simp

lemma score_length_iff:
  "StatusRemoved \<notin> set rs \<Longrightarrow> score rs = length rs \<longleftrightarrow> (\<forall>r \<in> set rs. r = StatusDown)"
proof (induction rs)
  case (Cons r rs)
  then show ?case using score_le_length [of rs] by (cases r) auto
qed simp

context rounding
begin

lemma foldl_score:
  assumes "a + score rs \<le> 2 ^ 53"
  shows "foldl (\<lambda>h r. fl (h + of_nat (status_num r))) (of_nat a) rs = of_nat (a + score rs)"
  using assms
proof (induction rs arbitrary: a)
  case (Cons r rs)
  have "fl (of_nat a + of_nat (status_num r)) = of_nat (a + status_num r)"
    using Cons.prems fl_of_nat [of "a + status_num r"] by simp
  with Cons.IH [of "a + status_num r"] Cons.prems show ?case by (simp add: add.assoc)
qed simp

lemma health_of_eq:
  assumes "length rs \<le> 2 ^ 52"
  shows "health_of fl rs = fl (1 - fl (of_nat (score rs) / of_nat (length rs)))"
  using foldl_score [of 0 rs] score_le [of rs] assms by (simp add: health_of_def)

lemma health_range:
  assumes "length rs \<le> 2 ^ 52" "StatusRemoved \<notin> set rs"
  shows "0 \<le> health_of fl rs" "health_of fl rs \<le> 1"
proof -
  let ?q = "of_nat (score rs) / of_nat (length rs) :: rat"
  have "?q \<le> 1"
    using score_le_length [OF assms(2)] by (cases "rs = []") (simp_all add: divide_le_eq)
  then have "fl ?q \<le> 1" by (rule fl_le_1)
  moreover have "0 \<le> fl ?q" by (rule fl_nonneg) simp
  ultimately show "0 \<le> health_of fl rs" "health_of fl rs \<le> 1"
    by (simp_all add: health_of_eq [OF assms(1)] fl_nonneg fl_le_1)
qed

lemma health_all_up: "\<forall>r \<in> set rs. r = StatusUp \<Longrightarrow> length rs \<le> 2 ^ 52 \<Longrightarrow> health_of fl rs = 1"
  using score_0_iff [of rs] by (simp add: health_of_eq)

lemma health_all_down:
  "\<forall>r \<in> set rs. r = StatusDown \<Longrightarrow> rs \<noteq> [] \<Longrightarrow> length rs \<le> 2 ^ 52 \<Longrightarrow> health_of fl rs = 0"
  using score_length_iff [of rs] by (auto simp: health_of_eq)

text \<open>One failure among at most 128 checks keeps the health at 127/128 or below.\<close>

lemma health_some_down:
  assumes "length rs \<le> 128" "0 < score rs"
  shows "health_of fl rs \<le> 127 / 128"
proof -
  let ?q = "of_nat (score rs) / of_nat (length rs) :: rat"
  have "rs \<noteq> []" using assms(2) by auto
  moreover have "(of_nat (length rs) :: rat) \<le> 128" "(1 :: rat) \<le> of_nat (score rs)"
    using assms of_nat_le_iff [of "length rs" 128, where ?'a = rat] by simp_all
  ultimately have "of_int 1 / 2 ^ 7 \<le> ?q"
    by (simp add: field_simps)
  then have "of_int 1 / 2 ^ 7 \<le> fl ?q" by (rule fl_ge_dyadic) simp_all
  then have "1 - fl ?q \<le> of_int 127 / 2 ^ 7" by simp
  then have "fl (1 - fl ?q) \<le> of_int 127 / 2 ^ 7" by (rule fl_le_dyadic) simp_all
  then show ?thesis using assms(1) by (simp add: health_of_eq)
qed

lemma health_1_iff:
  assumes "length rs \<le> 128"
  shows "health_of fl rs = 1 \<longleftrightarrow> (\<forall>r \<in> set rs. r = StatusUp)"
proof
  assume h: "health_of fl rs = 1"
  then have "\<not> 0 < score rs" using health_some_down [OF assms] by force
  then show "\<forall>r \<in> set rs. r = StatusUp" by (simp add: score_0_iff)
qed (use assms in \<open>simp add: health_all_up\<close>)

text \<open>Fewer failures in proportion never mean a worse health.\<close>

lemma health_antimono:
  assumes "score rs * length qs \<le> score qs * length rs"
    and "rs \<noteq> []" "qs \<noteq> []" "length rs \<le> 2 ^ 52" "length qs \<le> 2 ^ 52"
  shows "health_of fl qs \<le> health_of fl rs"
proof -
  have "(of_nat (score rs * length qs) :: rat) \<le> of_nat (score qs * length rs)"
    using assms(1) by (simp only: of_nat_le_iff)
  then have "(of_nat (score rs) / of_nat (length rs) :: rat) \<le> of_nat (score qs) / of_nat (length qs)"
    using assms(2,3) by (simp add: divide_simps mult.commute)
  then have "fl (of_nat (score rs) / of_nat (length rs)) \<le> fl (of_nat (score qs) / of_nat (length qs))"
    by (rule fl_mono)
  then show ?thesis
    using assms(4,5) by (simp add: health_of_eq fl_mono)
qed

end

section \<open>The record as a window\<close>

lemma length_push: "length rs \<le> 100 \<Longrightarrow> length (push_record rs s) = min 100 (length rs + 1)"
  by (auto simp: push_record_def Let_def)

lemma push_not_Nil [simp]: "push_record rs s \<noteq> []"
  by (auto simp: push_record_def Let_def)

lemma last_push [simp]: "last (push_record rs s) = s"
  by (simp add: push_record_def Let_def last_drop)

lemma set_push: "set (push_record rs s) \<subseteq> insert s (set rs)"
  using set_drop_subset [of 1 "rs @ [s]"] by (auto simp: push_record_def Let_def)

text \<open>The last hundred elements of a list.\<close>

definition last100 :: "'a list \<Rightarrow> 'a list" where
  "last100 xs = drop (length xs - 100) xs"

lemma push_last100: "push_record (last100 ss) s = last100 (ss @ [s])"
proof (cases "100 \<le> length ss")
  case True
  then have "Suc (length ss - 100) = length ss - 99" by arith
  with True show ?thesis by (simp add: push_record_def last100_def)
next
  case False
  then show ?thesis by (simp add: push_record_def last100_def)
qed

lemma metrics_run_snoc: "metrics_run m (us @ [(s, t)]) = metrics_Update (metrics_run m us) s t"
  by (simp add: metrics_run_def)

lemma metrics_Update_sel [simp]:
  "m_Status (metrics_Update m s t) = s"
  "m_record (metrics_Update m s t) = push_record (m_record m) s"
  "m_Health (metrics_Update m s t) = health_of fl64 (push_record (m_record m) s)"
  "m_lastTs (metrics_Update m s t) = t"
  by (simp_all add: metrics_Update_def Let_def)

lemma metrics_run_record: "m_record (metrics_run (NewMetrics t0) us) = last100 (map fst us)"
proof (induction us rule: rev_induct)
  case Nil
  then show ?case by (simp add: metrics_run_def NewMetrics_def last100_def)
next
  case (snoc u us)
  then show ?case by (cases u) (simp add: metrics_run_snoc push_last100)
qed

text \<open>What every metrics value of a running check satisfies.\<close>

definition metrics_ok :: "Metrics \<Rightarrow> bool" where
  "metrics_ok m \<longleftrightarrow> length (m_record m) \<le> 100 \<and> StatusRemoved \<notin> set (m_record m) \<and>
     0 \<le> m_Health m \<and> m_Health m \<le> 1"

lemma metrics_ok_New [simp]: "metrics_ok (NewMetrics t)"
  by (simp add: metrics_ok_def NewMetrics_def)

lemma metrics_ok_Update: "metrics_ok m \<Longrightarrow> s \<noteq> StatusRemoved \<Longrightarrow> metrics_ok (metrics_Update m s t)"
proof -
  assume m: "metrics_ok m" and s: "s \<noteq> StatusRemoved"
  let ?r = "push_record (m_record m) s"
  have "length ?r \<le> 100" "StatusRemoved \<notin> set ?r"
    using m s length_push [of "m_record m" s] set_push [of "m_record m" s]
    by (auto simp: metrics_ok_def)
  then show ?thesis
    using f64.health_range [of ?r] by (simp add: metrics_ok_def)
qed

section \<open>Properties\<close>

text \<open>
  Claim C32. After any non-empty run of checks that found the backend up or down, the metrics hold
  the last hundred results; the status is the latest one; the health lies between 0 and 1 in
  \<open>float64\<close> arithmetic, is exactly 1 when every result in the window is up, and only then, and
  is exactly 0 when all are down.
\<close>

theorem metrics_window:
  assumes "us \<noteq> []" and "StatusRemoved \<notin> set (map fst us)"
  shows "let m = metrics_run (NewMetrics t0) us in
    m_record m = last100 (map fst us) \<and> m_Status m = fst (last us) \<and>
    0 \<le> m_Health m \<and> m_Health m \<le> 1 \<and>
    (m_Health m = 1 \<longleftrightarrow> (\<forall>s \<in> set (last100 (map fst us)). s = StatusUp)) \<and>
    ((\<forall>s \<in> set (last100 (map fst us)). s = StatusDown) \<longrightarrow> m_Health m = 0)"
proof -
  define m where "m = metrics_run (NewMetrics t0) us"
  obtain vs s t where us: "us = vs @ [(s, t)]"
    using assms(1) by (cases us rule: rev_cases) auto
  let ?r = "last100 (map fst us)"
  have r: "m_record m = ?r" unfolding m_def by (rule metrics_run_record)
  have "m = metrics_Update (metrics_run (NewMetrics t0) vs) s t"
    by (simp add: m_def us metrics_run_snoc)
  then have st: "m_Status m = s" and h: "m_Health m = health_of fl64 ?r"
    using r by simp_all
  have len: "length ?r \<le> 100" by (simp add: last100_def)
  have ne: "?r \<noteq> []" using assms(1) by (cases us) (auto simp: last100_def Suc_diff_le)
  have "StatusRemoved \<notin> set ?r"
    using assms(2) by (auto simp: last100_def dest: in_set_dropD)
  then have "0 \<le> health_of fl64 ?r" "health_of fl64 ?r \<le> 1"
    using f64.health_range [of ?r] len by simp_all
  moreover have "health_of fl64 ?r = 1 \<longleftrightarrow> (\<forall>s \<in> set ?r. s = StatusUp)"
    using f64.health_1_iff [of ?r] len by simp
  moreover have "(\<forall>s \<in> set ?r. s = StatusDown) \<longrightarrow> health_of fl64 ?r = 0"
    using f64.health_all_down [of ?r] len ne by simp
  moreover have "fst (last us) = s" by (simp add: us)
  ultimately show ?thesis
    unfolding Let_def m_def [symmetric] using r st h by simp
qed

theorem metrics_window_witness:
  "m_Health (metrics_run (NewMetrics 0) [(StatusDown, 5), (StatusUp, 9)]) \<noteq> 1 \<and>
   m_Status (metrics_run (NewMetrics 0) [(StatusDown, 5), (StatusUp, 9)]) = StatusUp"
proof -
  let ?us = "[(StatusDown, 5), (StatusUp, 9)]"
  have l: "last100 (map fst ?us) = [StatusDown, StatusUp]" by (simp add: last100_def)
  have "?us \<noteq> []" "StatusRemoved \<notin> set (map fst ?us)" by simp_all
  from metrics_window [OF this, of 0, unfolded Let_def l] show ?thesis by auto
qed

lemma push_up_score:
  "score (push_record rs StatusUp) * length rs \<le> score rs * length (push_record rs StatusUp)"
  if "rs \<noteq> []" "length rs \<le> 100"
proof (cases "length rs = 100")
  case True
  then obtain r rs' where rs: "rs = r # rs'" by (cases rs) auto
  with True show ?thesis by (simp add: push_record_def)
next
  case False
  with that have "push_record rs StatusUp = rs @ [StatusUp]" by (simp add: push_record_def)
  then show ?thesis by simp
qed

lemma push_down_score:
  "score rs * length (push_record rs StatusDown) \<le> score (push_record rs StatusDown) * length rs"
  if "rs \<noteq> []" "length rs \<le> 100" "StatusRemoved \<notin> set rs"
proof (cases "length rs = 100")
  case True
  then obtain r rs' where rs: "rs = r # rs'" by (cases rs) auto
  then have "status_num r \<le> 1" using that(3) by (cases r) auto
  with True rs show ?thesis by (simp add: push_record_def)
next
  case False
  with that have "push_record rs StatusDown = rs @ [StatusDown]" by (simp add: push_record_def)
  then show ?thesis using score_le_length [OF that(3)] by simp
qed

lemma health_push_mono:
  assumes "length rs \<le> 100" "rs \<noteq> []" "StatusRemoved \<notin> set rs"
  shows "health_of fl64 rs \<le> health_of fl64 (push_record rs StatusUp)"
    and "health_of fl64 (push_record rs StatusDown) \<le> health_of fl64 rs"
proof -
  have pl: "length (push_record rs s) \<le> 100" for s
    using length_push [OF assms(1), of s] by simp
  show "health_of fl64 rs \<le> health_of fl64 (push_record rs StatusUp)"
    using push_up_score [OF assms(2,1)] assms(1,2) pl [of StatusUp] by (intro f64.health_antimono) auto
  show "health_of fl64 (push_record rs StatusDown) \<le> health_of fl64 rs"
    using push_down_score [OF assms(2,1,3)] assms(1,2) pl [of StatusDown] by (intro f64.health_antimono) auto
qed

text \<open>
  A successful check never lowers the health, and a failed one never raises it, in
  \<open>float64\<close> arithmetic and also when the window is full and an old result drops out.
\<close>

lemma health_monotone:
  assumes "metrics_ok m" "m_record m \<noteq> []" "m_Health m = health_of fl64 (m_record m)"
  shows "m_Health m \<le> m_Health (metrics_Update m StatusUp t) \<and>
    m_Health (metrics_Update m StatusDown t) \<le> m_Health m"
  using health_push_mono [of "m_record m"] assms by (simp add: metrics_ok_def)

lemma health_monotone_witness:
  "let m = metrics_Update (NewMetrics 0) StatusDown 5
   in m_Health m \<le> m_Health (metrics_Update m StatusUp 9) \<and> m_Health (metrics_Update m StatusDown 9) \<le> m_Health m"
proof -
  let ?m = "metrics_Update (NewMetrics 0) StatusDown 5"
  have "metrics_ok ?m" by (intro metrics_ok_Update) simp_all
  then show ?thesis using health_monotone [of ?m 9] by simp
qed

lemma hundred_ups_window:
  assumes "100 \<le> length ups" and "\<forall>u \<in> set ups. fst u = StatusUp"
  shows "m_Health (metrics_run (NewMetrics t0) (us @ ups)) = 1 \<and>
    m_record (metrics_run (NewMetrics t0) (us @ ups)) = replicate 100 StatusUp"
proof -
  have "last100 (map fst (us @ ups)) = drop (length ups - 100) (map fst ups)"
    using assms(1) by (simp add: last100_def)
  also have "\<dots> = replicate 100 StatusUp"
    using assms by (intro replicate_eqI) (auto dest!: in_set_dropD)
  finally have r: "m_record (metrics_run (NewMetrics t0) (us @ ups)) = replicate 100 StatusUp"
    by (simp only: metrics_run_record)
  obtain vs s t where "ups = vs @ [(s, t)]"
    using assms(1) by (cases ups rule: rev_cases) auto
  then have "metrics_run (NewMetrics t0) (us @ ups) = metrics_Update (metrics_run (NewMetrics t0) (us @ vs)) s t"
    using metrics_run_snoc [of _ "us @ vs" s t] by simp
  then have "m_Health (metrics_run (NewMetrics t0) (us @ ups)) =
      health_of fl64 (m_record (metrics_run (NewMetrics t0) (us @ ups)))"
    by simp
  with r show ?thesis using f64.health_all_up [of "replicate 100 StatusUp"] by simp
qed

text \<open>
  After a hundred successful checks in a row the health is exactly 1, whatever came
  before.
\<close>

lemma hundred_ups_recover:
  assumes "100 \<le> length ups" and "\<forall>u \<in> set ups. fst u = StatusUp"
  shows "m_Health (metrics_run (NewMetrics t0) (us @ ups)) = 1 \<and>
    m_record (metrics_run (NewMetrics t0) (us @ ups)) = replicate 100 StatusUp"
  using hundred_ups_window [OF assms] by blast

end
