(* ===== verification/Gorb_Pulse.thy ===== *)
theory Gorb_Pulse
  imports Gorb_Metrics
begin

text \<open>
  Package \<open>pulse\<close> (\<open>src/pulse\<close>): the options of a health check, its three drivers, and
  the loop that runs a check and reports to the context.  The Go interface \<open>Driver\<close> is the
  locale \<open>check_iface\<close>.
\<close>

section \<open>Drivers\<close>

text \<open>
  A driver and what its constructor stored in it.  The HTTP request is kept as its method, host
  with port, and path.
\<close>

datatype pulse_driver =
    ConstantDriver StatusType
  | TcpPulse string
  | HttpPulse string string string int

definition endpoint_of :: "string \<Rightarrow> u16 \<Rightarrow> string" where
  "endpoint_of host port = host @ '':'' @ show_nat (unat port)"

definition newNoopDriver :: "env \<Rightarrow> string \<Rightarrow> u16 \<Rightarrow> DynamicMap \<Rightarrow> pulse_driver outcome" where
  "newNoopDriver E host port opts = Ok (ConstantDriver StatusUp)"

definition newTCPDriver :: "env \<Rightarrow> string \<Rightarrow> u16 \<Rightarrow> DynamicMap \<Rightarrow> pulse_driver outcome" where
  "newTCPDriver E host port opts = Ok (TcpPulse (endpoint_of host port))"

definition newGETDriver :: "env \<Rightarrow> string \<Rightarrow> u16 \<Rightarrow> DynamicMap \<Rightarrow> pulse_driver outcome" where
  "newGETDriver E host port opts =
     (case as_string (dyn_Get opts ''path'' (JStr ''/'')) of
        Fail e \<Rightarrow> Fail e | Panic \<Rightarrow> Panic
      | Ok path \<Rightarrow> (case as_string (dyn_Get opts ''method'' (JStr ''GET'')) of
          Fail e \<Rightarrow> Fail e | Panic \<Rightarrow> Panic
        | Ok meth \<Rightarrow> (case newRequest E meth (endpoint_of host port) path of
            Some e \<Rightarrow> Fail (ErrExternal e)
          | None \<Rightarrow> (case as_int (dyn_Get opts ''expect'' (JInt 200)) of
              Fail e \<Rightarrow> Fail e | Panic \<Rightarrow> Panic
            | Ok expect \<Rightarrow> Ok (HttpPulse meth (endpoint_of host port) path expect)))))"

text \<open>The table \<open>get\<close> of constructors.\<close>

definition driver_get ::
  "string \<Rightarrow> (env \<Rightarrow> string \<Rightarrow> u16 \<Rightarrow> DynamicMap \<Rightarrow> pulse_driver outcome) option" where
  "driver_get t = (if t = ''tcp'' then Some newTCPDriver
     else if t = ''http'' then Some newGETDriver
     else if t = ''none'' then Some newNoopDriver else None)"

text \<open>
  One check.  \<open>dial\<close> tells whether a TCP connection to an endpoint is made within the timeout;
  \<open>http_do\<close> is the client's answer to a request, an error (a redirect is one) or a status
  code.
\<close>

record probe =
  dial :: "string \<Rightarrow> bool"
  http_do :: "string \<Rightarrow> string \<Rightarrow> string \<Rightarrow> string + int"

fun driver_Check :: "probe \<Rightarrow> pulse_driver \<Rightarrow> StatusType" where
  "driver_Check p (ConstantDriver s) = s"
| "driver_Check p (TcpPulse ep) = (if dial p ep then StatusUp else StatusDown)"
| "driver_Check p (HttpPulse meth ep path expect) =
     (case http_do p meth ep path of
        Inl _ \<Rightarrow> StatusDown
      | Inr code \<Rightarrow> if code \<noteq> expect then StatusDown else StatusUp)"

section \<open>Options and construction\<close>

record PulseOptions =
  po_Type :: string
  po_Interval :: string
  po_Args :: DynamicMap
  po_interval :: i64

definition zero_PulseOptions :: PulseOptions where
  "zero_PulseOptions = \<lparr>po_Type = [], po_Interval = [], po_Args = gempty, po_interval = 0\<rparr>"

definition pulse_Validate :: "PulseOptions \<Rightarrow> error + PulseOptions" where
  "pulse_Validate o0 =
     (let o1 = (if po_Type o0 = [] then o0\<lparr>po_Type := ''tcp''\<rparr> else o0);
          o2 = (if po_Interval o1 = [] then o1\<lparr>po_Interval := ''1m''\<rparr> else o1);
          o3 = o2\<lparr>po_Type := to_lower (po_Type o2)\<rparr>
      in case driver_get (po_Type o3) of None \<Rightarrow> Inl ErrUnknownPulseType
         | Some _ \<Rightarrow> (case ParseInterval (po_Interval o3) of Inl e \<Rightarrow> Inl e
             | Inr d \<Rightarrow> if sint d \<le> 0 then Inl ErrInvalidPulseInterval
                 else Inr (o3\<lparr>po_interval := d\<rparr>)))"

text \<open>
  The object a check runs on.  \<open>p_stopCh\<close> identifies its stop channel; channels are never
  shared between two objects.
\<close>

record Pulse =
  p_driver :: pulse_driver
  p_interval :: i64
  p_stopCh :: nat
  p_metrics :: Metrics

text \<open>
  \<open>New\<close> validates the options in place, so the result carries them as well.
\<close>

definition pulse_New ::
  "env \<Rightarrow> log \<Rightarrow> nat \<Rightarrow> string \<Rightarrow> u16 \<Rightarrow> PulseOptions \<Rightarrow> (Pulse \<times> PulseOptions) outcome" where
  "pulse_New E l ch host port opts =
     (case pulse_Validate opts of Inl e \<Rightarrow> Fail e
      | Inr o' \<Rightarrow> (case driver_get (po_Type o') of None \<Rightarrow> Panic
          | Some mk \<Rightarrow> (case mk E host port (po_Args o') of
              Fail e \<Rightarrow> Fail e | Panic \<Rightarrow> Panic
            | Ok d \<Rightarrow> Ok (\<lparr>p_driver = d, p_interval = po_interval o', p_stopCh = ch,
                p_metrics = NewMetrics (clock E l)\<rparr>, o'))))"

text \<open>\<open>rng.Int63n\<close> panics unless its argument is positive; \<open>r\<close> is the random source.\<close>

definition first_interval :: "(int \<Rightarrow> int) \<Rightarrow> Pulse \<Rightarrow> i64 outcome" where
  "first_interval r p = (if sint (p_interval p) \<le> 0 then Panic
     else Ok (word_of_int (r (sint (p_interval p)))))"

section \<open>The loop\<close>

record pulse_update =
  up_Source :: ID
  up_Metrics :: Metrics

text \<open>
  The state of a loop: the delay before the next check, the metrics, and whether it has
  returned.  A step is one turn of the outer \<open>select\<close>: the timer fires and the result is sent,
  or the timer fires and the consumer has stopped (the check and the statistics have run by
  then), or the stop channel is closed.  The label is the message sent.
\<close>

record loop_state =
  lp_interval :: i64
  lp_metrics :: Metrics
  lp_done :: bool

definition loop_start :: "Pulse \<Rightarrow> i64 \<Rightarrow> loop_state" where
  "loop_start p d = \<lparr>lp_interval = d, lp_metrics = p_metrics p, lp_done = False\<rparr>"

inductive loop_step :: "Pulse \<Rightarrow> ID \<Rightarrow> loop_state \<Rightarrow> pulse_update option \<Rightarrow> loop_state \<Rightarrow> bool" for p i where
  fire_send: "\<not> lp_done s \<Longrightarrow> m = metrics_Update (lp_metrics s) (driver_Check pr (p_driver p)) t \<Longrightarrow>
    loop_step p i s (Some \<lparr>up_Source = i, up_Metrics = m\<rparr>)
      (s\<lparr>lp_interval := p_interval p, lp_metrics := m\<rparr>)"
| fire_drop: "\<not> lp_done s \<Longrightarrow> m = metrics_Update (lp_metrics s) (driver_Check pr (p_driver p)) t \<Longrightarrow>
    loop_step p i s None (s\<lparr>lp_interval := p_interval p, lp_metrics := m\<rparr>)"
| stop: "\<not> lp_done s \<Longrightarrow> m = metrics_Update (lp_metrics s) StatusRemoved t \<Longrightarrow>
    loop_step p i s (Some \<lparr>up_Source = i, up_Metrics = m\<rparr>) (s\<lparr>lp_metrics := m, lp_done := True\<rparr>)"

inductive_cases loop_stepE [elim!]: "loop_step p i s u s'"
inductive_simps loop_step_done: "loop_step p i (s\<lparr>lp_done := True\<rparr>) u s'"

text \<open>A run of the loop, with the messages sent, oldest first.\<close>

inductive loop_run :: "Pulse \<Rightarrow> ID \<Rightarrow> loop_state \<Rightarrow> pulse_update list \<Rightarrow> loop_state \<Rightarrow> bool" for p i s where
  start: "loop_run p i s [] s"
| silent: "loop_run p i s us s' \<Longrightarrow> loop_step p i s' None s'' \<Longrightarrow> loop_run p i s us s''"
| send: "loop_run p i s us s' \<Longrightarrow> loop_step p i s' (Some u) s'' \<Longrightarrow> loop_run p i s (us @ [u]) s''"

section \<open>The interface \<open>Driver\<close>\<close>

text \<open>
  A check reports a backend up or down; \<open>StatusRemoved\<close> is the loop's own message.
\<close>

locale check_iface =
  fixes Check :: "'p \<Rightarrow> 'd \<Rightarrow> StatusType" and made :: "'d \<Rightarrow> bool"
  assumes check_not_removed: "made d \<Longrightarrow> Check pr d \<noteq> StatusRemoved"
begin

lemma check_cases: "made d \<Longrightarrow> Check pr d = StatusUp \<or> Check pr d = StatusDown"
  using check_not_removed [of d pr] by (cases "Check pr d") auto

lemma check_keeps_ok: "made d \<Longrightarrow> metrics_ok m \<Longrightarrow> metrics_ok (metrics_Update m (Check pr d) t)"
  by (simp add: metrics_ok_Update check_not_removed)

end

definition driver_made :: "pulse_driver \<Rightarrow> bool" where
  "driver_made d \<longleftrightarrow> d \<noteq> ConstantDriver StatusDown \<and> d \<noteq> ConstantDriver StatusRemoved"

interpretation chk: check_iface driver_Check driver_made
proof
  fix d pr
  assume "driver_made d"
  then show "driver_Check pr d \<noteq> StatusRemoved"
    by (cases "(pr, d)" rule: driver_Check.cases) (auto simp: driver_made_def split: sum.splits)
qed

section \<open>What a constructed check satisfies\<close>

lemma driver_get_cases:
  "driver_get t = Some mk \<longleftrightarrow> (t = ''tcp'' \<and> mk = newTCPDriver) \<or> (t = ''http'' \<and> mk = newGETDriver) \<or>
     (t = ''none'' \<and> mk = newNoopDriver)"
  by (auto simp: driver_get_def)

lemma newDriver_made: "driver_get t = Some mk \<Longrightarrow> mk E h p args = Ok d \<Longrightarrow> driver_made d"
  by (auto simp: driver_get_cases newTCPDriver_def newGETDriver_def newNoopDriver_def driver_made_def
      split: outcome.splits option.splits)

lemma Validate_Ok:
  "pulse_Validate o0 = Inr o' \<Longrightarrow>
     driver_get (po_Type o') \<noteq> None \<and> 0 < sint (po_interval o') \<and> po_Args o' = po_Args o0 \<and>
     ParseInterval (po_Interval o') = Inr (po_interval o')"
  by (auto simp: pulse_Validate_def Let_def split: if_splits option.splits sum.splits)

text \<open>
  A check that \<open>New\<close> hands out has one of the three known types, a positive
  interval, a driver that reports up or down only, fresh metrics and the stop channel it was
  given; so the loop's \<open>rng.Int63n\<close> cannot panic.
\<close>

lemma pulse_New_sound:
  assumes "pulse_New E l ch host port opts = Ok (p, o')"
  shows "po_Type o' \<in> {''tcp'', ''http'', ''none''} \<and> 0 < sint (p_interval p) \<and>
    driver_made (p_driver p) \<and> p_stopCh p = ch \<and> p_metrics p = NewMetrics (clock E l) \<and>
    (\<forall>r. first_interval r p \<noteq> Panic)"
proof -
  obtain mk d where v: "pulse_Validate opts = Inr o'" and g: "driver_get (po_Type o') = Some mk"
    and d: "mk E host port (po_Args o') = Ok d"
    and p: "p = \<lparr>p_driver = d, p_interval = po_interval o', p_stopCh = ch, p_metrics = NewMetrics (clock E l)\<rparr>"
    using assms by (auto simp: pulse_New_def split: sum.splits option.splits outcome.splits)
  have "po_Type o' \<in> {''tcp'', ''http'', ''none''}" using g by (auto simp: driver_get_cases)
  moreover have "0 < sint (po_interval o')" using Validate_Ok [OF v] by simp
  ultimately show ?thesis using newDriver_made [OF g d] by (simp add: p first_interval_def)
qed

lemma Validate_empty:
  "pulse_Validate zero_PulseOptions = Inr \<lparr>po_Type = ''tcp'', po_Interval = ''1m'', po_Args = gempty,
     po_interval = 60000000000\<rparr>"
proof -
  have "ParseInterval ''1m'' = Inr (word_of_int (minute * 1))"
    using ParseInterval_digits [of "''1''" "''m''" minute]
    by (simp add: intervals_def is_digit_def digits_val_def digit_val_def)
  then show ?thesis
    by (simp add: pulse_Validate_def zero_PulseOptions_def Let_def to_lower_def lower_char_def
        driver_get_def minute_def second_def)
qed

lemma pulse_New_sound_witness:
  "\<exists>p o'. pulse_New ok_env [] 3 ''10.0.0.1'' 80 zero_PulseOptions = Ok (p, o') \<and>
     0 < sint (p_interval p) \<and> p_stopCh p = 3"
proof -
  obtain p o' where "pulse_New ok_env [] 3 ''10.0.0.1'' 80 zero_PulseOptions = Ok (p, o')"
    by (simp add: pulse_New_def Validate_empty driver_get_def newTCPDriver_def)
  then show ?thesis using pulse_New_sound by blast
qed

text \<open>
  An HTTP check whose expected status code is given as a JSON number, as the README
  shows it, makes the constructor panic: the decoder delivers a \<open>float64\<close>, which \<open>Get\<close>
  returns unchanged because it is convertible to \<open>int\<close>, and the type assertion fails.
\<close>

lemma http_expect_number_panics:
  assumes "pulse_Validate opts = Inr o'" and "po_Type o' = ''http''"
    and "gget (po_Args opts) ''expect'' = Some (JNum c)"
    and "gget (po_Args opts) ''path'' = Some (JStr path)" and "gget (po_Args opts) ''method'' = Some (JStr meth)"
    and "newRequest E meth (endpoint_of host port) path = None"
  shows "pulse_New E l ch host port opts = Panic"
proof -
  have "po_Args o' = po_Args opts" using Validate_Ok [OF assms(1)] by simp
  then show ?thesis
    using assms by (simp add: pulse_New_def driver_get_def newGETDriver_def dyn_Get_def)
qed

lemma http_expect_number_panics_witness:
  "pulse_New ok_env [] 0 ''10.1.0.1'' 80 \<lparr>po_Type = ''http'', po_Interval = ''5s'',
     po_Args = gput ''expect'' (JNum 200) (gput ''path'' (JStr ''/health'') (gput ''method'' (JStr ''GET'') gempty)),
     po_interval = 0\<rparr> = Panic"
proof -
  let ?o = "\<lparr>po_Type = ''http'', po_Interval = ''5s'',
     po_Args = gput ''expect'' (JNum 200) (gput ''path'' (JStr ''/health'') (gput ''method'' (JStr ''GET'') gempty)),
     po_interval = 0\<rparr>"
  have "ParseInterval ''5s'' = Inr (word_of_int (second * 5))"
    using ParseInterval_digits [of "''5''" "''s''" second]
    by (simp add: intervals_def is_digit_def digits_val_def digit_val_def)
  then have "pulse_Validate ?o = Inr (?o\<lparr>po_interval := 5000000000\<rparr>)"
    by (simp add: pulse_Validate_def Let_def to_lower_def lower_char_def driver_get_def second_def)
  then show ?thesis
    by (rule http_expect_number_panics [where path = "''/health''" and meth = "''GET''" and c = 200]) simp_all
qed

section \<open>What a loop sends\<close>

lemma loop_run_inv:
  assumes "loop_run p i s us s'" and "driver_made (p_driver p)" and "metrics_ok (lp_metrics s)" and "\<not> lp_done s"
  shows "(\<forall>u \<in> set us. up_Source u = i) \<and>
    (if lp_done s'
     then us \<noteq> [] \<and> m_Status (up_Metrics (last us)) = StatusRemoved \<and>
       (\<forall>u \<in> set (butlast us). metrics_ok (up_Metrics u) \<and> m_Status (up_Metrics u) \<noteq> StatusRemoved)
     else metrics_ok (lp_metrics s') \<and>
       (\<forall>u \<in> set us. metrics_ok (up_Metrics u) \<and> m_Status (up_Metrics u) \<noteq> StatusRemoved))"
  using assms
proof (induction rule: loop_run.induct)
  case start
  then show ?case by simp
next
  case (silent us s' s'')
  then show ?case by (auto simp: chk.check_keeps_ok)
next
  case (send us s' u s'')
  then show ?case by (auto simp: chk.check_keeps_ok chk.check_not_removed)
qed

text \<open>
  Claim C33. Every message of a check carries the identity it was started with.  The messages
  before a stop report up or down, with a health between 0 and 1 over at most a hundred results;
  a stopped loop has sent exactly one \<open>StatusRemoved\<close>, as its last message, and a loop that
  still runs has sent none.
\<close>

theorem loop_messages:
  assumes "pulse_New E l ch host port opts = Ok (p, o')" and "loop_run p i (loop_start p d) us s'"
  shows "(\<forall>u \<in> set us. up_Source u = i) \<and>
    (\<forall>u \<in> set (if lp_done s' then butlast us else us). m_Status (up_Metrics u) \<noteq> StatusRemoved \<and>
       0 \<le> m_Health (up_Metrics u) \<and> m_Health (up_Metrics u) \<le> 1 \<and> length (m_record (up_Metrics u)) \<le> 100) \<and>
    (lp_done s' \<longrightarrow> us \<noteq> [] \<and> m_Status (up_Metrics (last us)) = StatusRemoved)"
proof -
  have d: "driver_made (p_driver p)" and m: "p_metrics p = NewMetrics (clock E l)"
    using assms(1) by (auto simp: pulse_New_def Let_def dest: newDriver_made
        split: sum.splits option.splits outcome.splits)
  have "metrics_ok (lp_metrics (loop_start p d))" "\<not> lp_done (loop_start p d)"
    using m by (simp_all add: loop_start_def)
  from loop_run_inv [OF assms(2) d this] show ?thesis
    by (auto simp: metrics_ok_def split: if_splits)
qed

theorem loop_messages_witness:
  "\<exists>p o' us s'. pulse_New ok_env [] 0 ''10.0.0.1'' 80 zero_PulseOptions = Ok (p, o') \<and>
     loop_run p \<lparr>VsID = ''v'', RsID = ''r''\<rparr> (loop_start p 1) us s' \<and> lp_done s' \<and>
     m_Status (up_Metrics (last us)) = StatusRemoved"
proof -
  let ?i = "\<lparr>VsID = ''v'', RsID = ''r''\<rparr>"
  obtain p o' where p: "pulse_New ok_env [] 0 ''10.0.0.1'' 80 zero_PulseOptions = Ok (p, o')"
    by (simp add: pulse_New_def Validate_empty driver_get_def newTCPDriver_def)
  let ?s = "loop_start p 1"
  let ?m = "metrics_Update (lp_metrics ?s) StatusRemoved 5"
  have "\<not> lp_done ?s" by (simp add: loop_start_def)
  then have r: "loop_run p ?i ?s ([] @ [\<lparr>up_Source = ?i, up_Metrics = ?m\<rparr>]) (?s\<lparr>lp_metrics := ?m, lp_done := True\<rparr>)"
    by (intro loop_run.send [OF loop_run.start] loop_step.stop) simp_all
  from loop_messages [OF p r] p r show ?thesis by fastforce
qed

end
