(* ===== verification/Gorb_Ipvs.thy ===== *)
theory Gorb_Ipvs
  imports Gorb_Util
begin

unbundle bit_operations_syntax

text \<open>
  Package \<open>ipvs_shim\<close> (\<open>src/ipvs-shim/ipvs_shim.go\<close>): the translation of the context's
  calls into libipvs requests.  The requests' effect on the kernel is stated by the table
  \<open>ipvs_table\<close>, which replays the successful requests of a log; the interface \<open>IPVS\<close> of
  the source is the locale \<open>ipvs_iface\<close>, whose laws say what each method does to the table.
\<close>

section \<open>Names and numbers\<close>

definition schedulerFlags :: "lib_consts \<Rightarrow> string \<Rightarrow> u32 option" where
  "schedulerFlags c = map_of
     [(''sh-fallback'', c_SCHED_SH_FALLBACK c), (''sh-port'', c_SCHED_SH_PORT c),
      (''flag-1'', c_SCHED1 c), (''flag-2'', c_SCHED2 c), (''flag-3'', c_SCHED3 c)]"

definition backendForwarding :: "lib_consts \<Rightarrow> string \<Rightarrow> u32 option" where
  "backendForwarding c = map_of
     [(''dr'', c_DROUTE c), (''nat'', c_MASQ c), (''tunnel'', c_TUNNEL c), (''ipip'', c_TUNNEL c)]"

definition protocolNumber :: "string \<Rightarrow> error + u16" where
  "protocolNumber p = (if p = ''tcp'' then Inr 6 else if p = ''udp'' then Inr 17 else Inl (ErrShimProtocol p))"

definition ValidProtocol :: "string \<Rightarrow> bool" where
  "ValidProtocol p = (case protocolNumber p of Inl _ \<Rightarrow> False | Inr _ \<Rightarrow> True)"

definition ValidFlag :: "lib_consts \<Rightarrow> string \<Rightarrow> bool" where
  "ValidFlag c f \<longleftrightarrow> schedulerFlags c f \<noteq> None"

definition ValidForwarding :: "lib_consts \<Rightarrow> string \<Rightarrow> bool" where
  "ValidForwarding c f \<longleftrightarrow> backendForwarding c f \<noteq> None"

text \<open>An unknown flag is logged and skipped.\<close>

definition createFlagbits :: "lib_consts \<Rightarrow> string list \<Rightarrow> u32" where
  "createFlagbits c flags = foldl (\<lambda>bits f. case schedulerFlags c f of Some b \<Rightarrow> bits OR b | None \<Rightarrow> bits) 0 flags"

section \<open>Requests\<close>

definition createSvcKey :: "string \<Rightarrow> string \<Rightarrow> u16 \<Rightarrow> error + lib_service" where
  "createSvcKey vip protocol port =
     (case protocolNumber protocol of Inl e \<Rightarrow> Inl e
      | Inr protNum \<Rightarrow> Inr \<lparr>sv_Address = ParseIP vip, sv_Protocol = protNum, sv_Port = port,
          sv_AddressFamily = AF_INET, sv_SchedName = [], sv_Flags = 0, sv_Mask = 0\<rparr>)"

definition createDest :: "string \<Rightarrow> u16 \<Rightarrow> u32 \<Rightarrow> u32 \<Rightarrow> lib_dest" where
  "createDest rip rport fwd weight = \<lparr>ds_Address = ParseIP rip, ds_Port = rport,
     ds_AddressFamily = AF_INET, ds_FwdMethod = fwd, ds_Weight = weight\<rparr>"

section \<open>The methods of the shim\<close>

definition ipvs_Init :: "env \<Rightarrow> log \<Rightarrow> error option \<times> log" where
  "ipvs_Init E l = ipvs_call E IpvsInit l"

definition ipvs_Flush :: "env \<Rightarrow> log \<Rightarrow> error option \<times> log" where
  "ipvs_Flush E l = ipvs_call E IpvsFlush l"

definition ipvs_AddService ::
  "env \<Rightarrow> string \<Rightarrow> u16 \<Rightarrow> string \<Rightarrow> string \<Rightarrow> string list \<Rightarrow> log \<Rightarrow> error option \<times> log" where
  "ipvs_AddService E vip port protocol sched flags l =
     (case createSvcKey vip protocol port of Inl e \<Rightarrow> (Some e, l)
      | Inr svc \<Rightarrow> ipvs_call E (NewService (svc\<lparr>sv_SchedName := sched,
          sv_Flags := createFlagbits (libconsts E) flags, sv_Mask := NOT 0\<rparr>)) l)"

definition ipvs_UpdateService ::
  "env \<Rightarrow> string \<Rightarrow> u16 \<Rightarrow> string \<Rightarrow> string \<Rightarrow> string list \<Rightarrow> log \<Rightarrow> error option \<times> log" where
  "ipvs_UpdateService E vip port protocol sched flags l =
     (case createSvcKey vip protocol port of Inl e \<Rightarrow> (Some e, l)
      | Inr svc \<Rightarrow> ipvs_call E (UpdService (svc\<lparr>sv_SchedName := sched,
          sv_Flags := createFlagbits (libconsts E) flags, sv_Mask := NOT 0\<rparr>)) l)"

definition ipvs_DelService :: "env \<Rightarrow> string \<Rightarrow> u16 \<Rightarrow> string \<Rightarrow> log \<Rightarrow> error option \<times> log" where
  "ipvs_DelService E vip port protocol l =
     (case createSvcKey vip protocol port of Inl e \<Rightarrow> (Some e, l)
      | Inr svc \<Rightarrow> ipvs_call E (DelService svc) l)"

definition ipvs_AddDestPort ::
  "env \<Rightarrow> string \<Rightarrow> u16 \<Rightarrow> string \<Rightarrow> u16 \<Rightarrow> string \<Rightarrow> u32 \<Rightarrow> string \<Rightarrow> log \<Rightarrow> error option \<times> log" where
  "ipvs_AddDestPort E vip vport rip rport protocol weight fwd l =
     (case createSvcKey vip protocol vport of Inl e \<Rightarrow> (Some e, l)
      | Inr svc \<Rightarrow> (case backendForwarding (libconsts E) fwd of None \<Rightarrow> (Some (ErrShimForwarding fwd), l)
          | Some fwdbits \<Rightarrow> ipvs_call E (NewDestination svc (createDest rip rport fwdbits weight)) l))"

definition ipvs_UpdateDestPort ::
  "env \<Rightarrow> string \<Rightarrow> u16 \<Rightarrow> string \<Rightarrow> u16 \<Rightarrow> string \<Rightarrow> u32 \<Rightarrow> string \<Rightarrow> log \<Rightarrow> error option \<times> log" where
  "ipvs_UpdateDestPort E vip vport rip rport protocol weight fwd l =
     (case createSvcKey vip protocol vport of Inl e \<Rightarrow> (Some e, l)
      | Inr svc \<Rightarrow> (case backendForwarding (libconsts E) fwd of None \<Rightarrow> (Some (ErrShimForwarding fwd), l)
          | Some fwdbits \<Rightarrow> ipvs_call E (UpdDestination svc (createDest rip rport fwdbits weight)) l))"

definition ipvs_DelDestPort ::
  "env \<Rightarrow> string \<Rightarrow> u16 \<Rightarrow> string \<Rightarrow> u16 \<Rightarrow> string \<Rightarrow> log \<Rightarrow> error option \<times> log" where
  "ipvs_DelDestPort E vip vport rip rport protocol l =
     (case createSvcKey vip protocol vport of Inl e \<Rightarrow> (Some e, l)
      | Inr svc \<Rightarrow> ipvs_call E (DelDestination svc (createDest rip rport 0 0)) l)"

lemmas shim_defs = ipvs_AddService_def ipvs_UpdateService_def ipvs_DelService_def
  ipvs_AddDestPort_def ipvs_UpdateDestPort_def ipvs_DelDestPort_def

section \<open>The kernel table\<close>

text \<open>
  What the accepted requests amount to, by the documented effect of each IPVS command: a
  virtual service is known by address, protocol and port; a new service starts with no
  destination, an update keeps the destinations, a deletion drops them.
\<close>

type_synonym vkey = "ip \<times> u16 \<times> u16"
type_synonym rkey = "ip \<times> u16"

record vservice =
  vs_sched :: string
  vs_flags :: u32
  vs_dests :: "rkey \<Rightarrow> (u32 \<times> u32) option"

type_synonym vtable = "vkey \<Rightarrow> vservice option"

definition svc_key :: "lib_service \<Rightarrow> vkey" where
  "svc_key s = (sv_Address s, sv_Protocol s, sv_Port s)"

definition dest_key :: "lib_dest \<Rightarrow> rkey" where
  "dest_key d = (ds_Address d, ds_Port d)"

definition on_vservice :: "vkey \<Rightarrow> (vservice \<Rightarrow> vservice) \<Rightarrow> vtable \<Rightarrow> vtable" where
  "on_vservice k f t = t(k := map_option f (t k))"

fun apply_req :: "ipvs_req \<Rightarrow> vtable \<Rightarrow> vtable" where
  "apply_req IpvsInit t = t"
| "apply_req IpvsFlush t = Map.empty"
| "apply_req (NewService s) t =
     t(svc_key s \<mapsto> \<lparr>vs_sched = sv_SchedName s, vs_flags = sv_Flags s, vs_dests = Map.empty\<rparr>)"
| "apply_req (UpdService s) t =
     on_vservice (svc_key s) (\<lambda>v. v\<lparr>vs_sched := sv_SchedName s, vs_flags := sv_Flags s\<rparr>) t"
| "apply_req (DelService s) t = t(svc_key s := None)"
| "apply_req (NewDestination s d) t = on_vservice (svc_key s)
     (\<lambda>v. v\<lparr>vs_dests := (vs_dests v)(dest_key d \<mapsto> (ds_FwdMethod d, ds_Weight d))\<rparr>) t"
| "apply_req (UpdDestination s d) t = on_vservice (svc_key s)
     (\<lambda>v. v\<lparr>vs_dests := (vs_dests v)(dest_key d \<mapsto> (ds_FwdMethod d, ds_Weight d))\<rparr>) t"
| "apply_req (DelDestination s d) t = on_vservice (svc_key s)
     (\<lambda>v. v\<lparr>vs_dests := (vs_dests v)(dest_key d := None)\<rparr>) t"

fun ipvs_table :: "log \<Rightarrow> vtable" where
  "ipvs_table [] = Map.empty"
| "ipvs_table (EvIpvs r True # l) = apply_req r (ipvs_table l)"
| "ipvs_table (_ # l) = ipvs_table l"

definition vkey_of :: "string \<Rightarrow> u16 \<Rightarrow> string \<Rightarrow> vkey" where
  "vkey_of vip port protocol =
     (ParseIP vip, (case protocolNumber protocol of Inl _ \<Rightarrow> 0 | Inr n \<Rightarrow> n), port)"

definition rkey_of :: "string \<Rightarrow> u16 \<Rightarrow> rkey" where
  "rkey_of rip rport = (ParseIP rip, rport)"

section \<open>The interface \<open>IPVS\<close>\<close>

text \<open>
  The contract the context relies on: a method that returns no error has changed the kernel's
  table in exactly one place; a method that returns an error has left it alone; and the log only
  grows.  \<open>fwdbits\<close> and \<open>flagbits\<close> are the provider's reading of names.
\<close>

locale ipvs_iface =
  fixes AddService :: "string \<Rightarrow> u16 \<Rightarrow> string \<Rightarrow> string \<Rightarrow> string list \<Rightarrow> log \<Rightarrow> error option \<times> log"
    and UpdateService :: "string \<Rightarrow> u16 \<Rightarrow> string \<Rightarrow> string \<Rightarrow> string list \<Rightarrow> log \<Rightarrow> error option \<times> log"
    and DelServ :: "string \<Rightarrow> u16 \<Rightarrow> string \<Rightarrow> log \<Rightarrow> error option \<times> log"
    and AddDestPort :: "string \<Rightarrow> u16 \<Rightarrow> string \<Rightarrow> u16 \<Rightarrow> string \<Rightarrow> u32 \<Rightarrow> string \<Rightarrow> log \<Rightarrow> error option \<times> log"
    and UpdateDestPort :: "string \<Rightarrow> u16 \<Rightarrow> string \<Rightarrow> u16 \<Rightarrow> string \<Rightarrow> u32 \<Rightarrow> string \<Rightarrow> log \<Rightarrow> error option \<times> log"
    and DelDestPort :: "string \<Rightarrow> u16 \<Rightarrow> string \<Rightarrow> u16 \<Rightarrow> string \<Rightarrow> log \<Rightarrow> error option \<times> log"
    and flagbits :: "string list \<Rightarrow> u32"
    and fwdbits :: "string \<Rightarrow> u32 option"
  assumes add_service_ok: "AddService v p pr s fs l = (None, l') \<Longrightarrow> ipvs_table l' =
      (ipvs_table l)(vkey_of v p pr \<mapsto> \<lparr>vs_sched = s, vs_flags = flagbits fs, vs_dests = Map.empty\<rparr>)"
    and add_service_fail: "AddService v p pr s fs l = (Some e, l') \<Longrightarrow> ipvs_table l' = ipvs_table l"
    and update_service_ok: "UpdateService v p pr s fs l = (None, l') \<Longrightarrow> ipvs_table l' =
      on_vservice (vkey_of v p pr) (\<lambda>x. x\<lparr>vs_sched := s, vs_flags := flagbits fs\<rparr>) (ipvs_table l)"
    and update_service_fail: "UpdateService v p pr s fs l = (Some e, l') \<Longrightarrow> ipvs_table l' = ipvs_table l"
    and del_service_ok: "DelServ v p pr l = (None, l') \<Longrightarrow> ipvs_table l' = (ipvs_table l)(vkey_of v p pr := None)"
    and del_service_fail: "DelServ v p pr l = (Some e, l') \<Longrightarrow> ipvs_table l' = ipvs_table l"
    and add_dest_ok: "AddDestPort v p r rp pr w f l = (None, l') \<Longrightarrow> \<exists>b. fwdbits f = Some b \<and> ipvs_table l' =
      on_vservice (vkey_of v p pr) (\<lambda>x. x\<lparr>vs_dests := (vs_dests x)(rkey_of r rp \<mapsto> (b, w))\<rparr>) (ipvs_table l)"
    and add_dest_fail: "AddDestPort v p r rp pr w f l = (Some e, l') \<Longrightarrow> ipvs_table l' = ipvs_table l"
    and update_dest_ok: "UpdateDestPort v p r rp pr w f l = (None, l') \<Longrightarrow> \<exists>b. fwdbits f = Some b \<and> ipvs_table l' =
      on_vservice (vkey_of v p pr) (\<lambda>x. x\<lparr>vs_dests := (vs_dests x)(rkey_of r rp \<mapsto> (b, w))\<rparr>) (ipvs_table l)"
    and update_dest_fail: "UpdateDestPort v p r rp pr w f l = (Some e, l') \<Longrightarrow> ipvs_table l' = ipvs_table l"
    and del_dest_ok: "DelDestPort v p r rp pr l = (None, l') \<Longrightarrow> ipvs_table l' =
      on_vservice (vkey_of v p pr) (\<lambda>x. x\<lparr>vs_dests := (vs_dests x)(rkey_of r rp := None)\<rparr>) (ipvs_table l)"
    and del_dest_fail: "DelDestPort v p r rp pr l = (Some e, l') \<Longrightarrow> ipvs_table l' = ipvs_table l"
begin

text \<open>Weights: the last accepted weight of a destination is the one the kernel has.\<close>

lemma weight_after_update:
  assumes "UpdateDestPort v p r rp pr w f l = (None, l')" and "ipvs_table l (vkey_of v p pr) = Some x"
  shows "\<exists>y b. ipvs_table l' (vkey_of v p pr) = Some y \<and> vs_dests y (rkey_of r rp) = Some (b, w)"
  using update_dest_ok [OF assms(1)] assms(2) by (auto simp: on_vservice_def)

lemma other_services_kept:
  assumes "UpdateDestPort v p r rp pr w f l = (e, l')" and "k \<noteq> vkey_of v p pr"
  shows "ipvs_table l' k = ipvs_table l k"
  using assms update_dest_ok [of v p r rp pr w f l l'] update_dest_fail [of v p r rp pr w f l]
  by (cases e) (auto simp: on_vservice_def)

lemma del_drops_destinations:
  assumes "DelServ v p pr l = (None, l')" and "AddService v p pr s fs l' = (None, l'')"
  shows "ipvs_table l'' (vkey_of v p pr) = Some \<lparr>vs_sched = s, vs_flags = flagbits fs, vs_dests = Map.empty\<rparr>"
  using add_service_ok [OF assms(2)] by simp

end

lemma ipvs_table_call:
  "ipvs_call E r l = (e, l') \<Longrightarrow> ipvs_table l' = (if e = None then apply_req r (ipvs_table l) else ipvs_table l)"
  by (auto simp: ipvs_call_def Let_def)

lemma createSvcKey_key:
  "createSvcKey v pr p = Inr svc \<Longrightarrow> svc_key svc = vkey_of v p pr"
  by (auto simp: createSvcKey_def svc_key_def vkey_of_def split: sum.splits)

lemma svc_key_upd [simp]:
  "svc_key (s\<lparr>sv_SchedName := a, sv_Flags := b, sv_Mask := c\<rparr>) = svc_key s"
  by (simp add: svc_key_def)

lemma dest_key_create [simp]: "dest_key (createDest r rp b w) = rkey_of r rp"
  by (simp add: dest_key_def createDest_def rkey_of_def)

lemma createDest_sel [simp]:
  "ds_FwdMethod (createDest r rp b w) = b" "ds_Weight (createDest r rp b w) = w"
  by (simp_all add: createDest_def)

interpretation shim: ipvs_iface "ipvs_AddService E" "ipvs_UpdateService E" "ipvs_DelService E"
  "ipvs_AddDestPort E" "ipvs_UpdateDestPort E" "ipvs_DelDestPort E"
  "createFlagbits (libconsts E)" "backendForwarding (libconsts E)" for E
  by unfold_locales
    (auto simp: shim_defs dest!: ipvs_table_call createSvcKey_key split: sum.splits option.splits)

text \<open>A method never fails on its own when the names are valid: then the kernel decides.\<close>

lemma protocolNumber_valid: "ValidProtocol p \<Longrightarrow> \<exists>n. protocolNumber p = Inr n"
  by (auto simp: ValidProtocol_def split: sum.splits)

lemma createSvcKey_valid:
  assumes "ValidProtocol pr"
  shows "\<exists>svc. createSvcKey v pr p = Inr svc \<and> svc_key svc = vkey_of v p pr"
  using protocolNumber_valid [OF assms] by (auto simp: createSvcKey_def svc_key_def vkey_of_def)

lemma ValidProtocol_iff: "ValidProtocol p \<longleftrightarrow> p = ''tcp'' \<or> p = ''udp''"
  by (simp add: ValidProtocol_def protocolNumber_def)

lemma ValidForwarding_iff: "ValidForwarding c f \<longleftrightarrow> f \<in> {''dr'', ''nat'', ''tunnel'', ''ipip''}"
  by (auto simp: ValidForwarding_def backendForwarding_def)

lemma ValidFlag_iff:
  "ValidFlag c f \<longleftrightarrow> f \<in> {''sh-fallback'', ''sh-port'', ''flag-1'', ''flag-2'', ''flag-3''}"
  by (auto simp: ValidFlag_def schedulerFlags_def)

section \<open>Flag bits\<close>

lemma bit_createFlagbits_aux:
  "bit (foldl (\<lambda>bits f. case schedulerFlags c f of Some b \<Rightarrow> bits OR b | None \<Rightarrow> bits) acc fs) n \<longleftrightarrow>
     bit acc n \<or> (\<exists>f \<in> set fs. \<exists>b. schedulerFlags c f = Some b \<and> bit b n)"
  by (induction fs arbitrary: acc) (auto simp: bit_or_iff split: option.splits)

text \<open>
  The scheduler flag word sent to the kernel has exactly the bits of the flags named in
  the list; so it depends neither on their order nor on repetitions, and unknown names add
  nothing.
\<close>

lemma flagbits_spec:
  "bit (createFlagbits c fs) n \<longleftrightarrow> (\<exists>f \<in> set fs. \<exists>b. schedulerFlags c f = Some b \<and> bit b n)"
  by (simp add: createFlagbits_def bit_createFlagbits_aux)

lemma createFlagbits_cong: "set fs = set gs \<Longrightarrow> createFlagbits c fs = createFlagbits c gs"
  by (intro bit_eqI) (simp add: createFlagbits_def bit_createFlagbits_aux)

text \<open>
  Through the shim, an accepted change of a destination's weight is what the kernel's
  table holds afterwards, whatever happened before, and no other virtual service is touched.
\<close>

lemma shim_weight_update:
  assumes "ipvs_UpdateDestPort E v p r rp pr w f l = (None, l')"
    and "ipvs_table l (vkey_of v p pr) = Some x"
  shows "(\<exists>y b. ipvs_table l' (vkey_of v p pr) = Some y \<and> vs_dests y (rkey_of r rp) = Some (b, w)) \<and>
    (\<forall>k. k \<noteq> vkey_of v p pr \<longrightarrow> ipvs_table l' k = ipvs_table l k)"
  using shim.weight_after_update [OF assms] shim.other_services_kept [OF assms(1)] by blast

end
