(* ===== verification/Gorb_Disco.thy ===== *)
theory Gorb_Disco
  imports Gorb_Ipvs
begin

text \<open>
  Package \<open>disco\<close> (\<open>src/disco\<close>): the registration of services in Consul, and the driver
  that does nothing.  The Go interface \<open>Driver\<close> is the locale \<open>disco_iface\<close>.
\<close>

section \<open>Drivers\<close>

datatype disco_driver = NoopDriver | ConsulDriver url

record disco_options =
  dt_Type :: string
  dt_Args :: DynamicMap

definition newConsulDriver :: "env \<Rightarrow> DynamicMap \<Rightarrow> disco_driver outcome" where
  "newConsulDriver E opts =
     (case as_string (dyn_Get opts ''URL'' (JStr ''http://localhost:8500'')) of
        Ok s \<Rightarrow> (case parseURL E s of Inl e \<Rightarrow> Fail (ErrExternal e) | Inr u \<Rightarrow> Ok (ConsulDriver u))
      | Fail e \<Rightarrow> Fail e
      | Panic \<Rightarrow> Panic)"

definition disco_New :: "env \<Rightarrow> disco_options \<Rightarrow> disco_driver outcome" where
  "disco_New E opts =
     (if dt_Type opts = ''consul'' then newConsulDriver E (dt_Args opts) else Ok NoopDriver)"

definition exposeRequest :: "string \<Rightarrow> string \<Rightarrow> u16 \<Rightarrow> json" where
  "exposeRequest name host port =
     JObj [(''Name'', JStr name), (''Address'', JStr host), (''Port'', JNum (of_nat (unat port)))]"

definition check_status :: "error + nat \<Rightarrow> error option" where
  "check_status r = (case r of Inl e \<Rightarrow> Some e | Inr code \<Rightarrow> if code \<noteq> 200 then Some ErrConsul else None)"

definition consul_Expose :: "env \<Rightarrow> url \<Rightarrow> string \<Rightarrow> string \<Rightarrow> u16 \<Rightarrow> log \<Rightarrow> error option \<times> log" where
  "consul_Expose E consul name host port l =
     (let u = consul\<lparr>u_path := ''v1/agent/service/register''\<rparr>;
          (r, l') = http_call E \<lparr>rq_method = ''POST'', rq_url = u, rq_body = exposeRequest name host port\<rparr> l
      in (check_status r, l'))"

definition consul_Remove :: "env \<Rightarrow> url \<Rightarrow> string \<Rightarrow> log \<Rightarrow> error option \<times> log" where
  "consul_Remove E consul name l =
     (let u = consul\<lparr>u_path := path_Join [''v1/agent/service/deregister'', name]\<rparr>;
          (r, l') = http_call E \<lparr>rq_method = ''GET'', rq_url = u, rq_body = JNull\<rparr> l
      in (check_status r, l'))"

fun disco_Expose :: "env \<Rightarrow> disco_driver \<Rightarrow> string \<Rightarrow> string \<Rightarrow> u16 \<Rightarrow> log \<Rightarrow> error option \<times> log" where
  "disco_Expose E NoopDriver name host port l = (None, l)"
| "disco_Expose E (ConsulDriver u) name host port l = consul_Expose E u name host port l"

fun disco_Remove :: "env \<Rightarrow> disco_driver \<Rightarrow> string \<Rightarrow> log \<Rightarrow> error option \<times> log" where
  "disco_Remove E NoopDriver name l = (None, l)"
| "disco_Remove E (ConsulDriver u) name l = consul_Remove E u name l"

section \<open>The interface \<open>Driver\<close>\<close>

text \<open>
  What the context relies on: a driver talks to its own service only, so the kernel's table and
  the other requests of the log stay as they were.
\<close>

definition is_http :: "event \<Rightarrow> bool" where
  "is_http e \<longleftrightarrow> (case e of EvHttp _ _ \<Rightarrow> True | _ \<Rightarrow> False)"

locale disco_iface =
  fixes Expose :: "string \<Rightarrow> string \<Rightarrow> u16 \<Rightarrow> log \<Rightarrow> error option \<times> log"
    and Remove :: "string \<Rightarrow> log \<Rightarrow> error option \<times> log"
  assumes expose_http: "\<exists>es. snd (Expose n h p l) = es @ l \<and> list_all is_http es"
    and remove_http: "\<exists>es. snd (Remove n l) = es @ l \<and> list_all is_http es"
begin

lemma table_http: "list_all is_http es \<Longrightarrow> ipvs_table (es @ l) = ipvs_table l"
  by (induction es) (auto simp: is_http_def split: event.splits)

lemma expose_table: "ipvs_table (snd (Expose n h p l)) = ipvs_table l"
  using expose_http [of n h p l] table_http by auto

lemma remove_table: "ipvs_table (snd (Remove n l)) = ipvs_table l"
  using remove_http [of n l] table_http by auto

end

interpretation dd: disco_iface "disco_Expose E d" "disco_Remove E d" for E d
  by unfold_locales
    (cases d; simp add: consul_Expose_def consul_Remove_def http_call_def Let_def is_http_def)+

lemmas disco_table [simp] = dd.expose_table dd.remove_table

section \<open>Requests to Consul\<close>

text \<open>
  Deregistering a service asks for the path of exactly that service: joining and
  cleaning the path changes nothing for a name that is one path segment; and the driver reports
  success just for the answer 200.
\<close>

lemma consul_remove_request:
  assumes "plain_seg name"
  shows "\<exists>a. snd (consul_Remove E u name l) = EvHttp \<lparr>rq_method = ''GET'',
           rq_url = u\<lparr>u_path := ''v1/agent/service/deregister/'' @ name\<rparr>, rq_body = JNull\<rparr> a # l \<and>
         (fst (consul_Remove E u name l) = None \<longleftrightarrow> a = Inr 200)"
proof -
  let ?ws = "[''v1'', ''agent'', ''service'', ''deregister'', name]"
  have "path_Clean (join_with ''/'' ?ws) = join_with ''/'' ?ws"
    using assms by (intro path_Clean_plain) (auto simp: plain_seg_def)
  then have "path_Join [''v1/agent/service/deregister'', name] = ''v1/agent/service/deregister/'' @ name"
    by (simp add: path_Join_def)
  then show ?thesis
    by (cases "httpDo E l \<lparr>rq_method = ''GET'',
           rq_url = u\<lparr>u_path := ''v1/agent/service/deregister/'' @ name\<rparr>, rq_body = JNull\<rparr>")
      (simp_all add: consul_Remove_def http_call_def check_status_def Let_def)
qed

end
