(* ===== verification/Gorb_Options.thy ===== *)
theory Gorb_Options
  imports Gorb_Pulse Gorb_Disco
begin

text \<open>
  \<open>src/core/options.go\<close>: the options of a service and of a backend, how \<open>Fill\<close> completes
  and validates them, and how they are compared with the options in the external store.  The two
  kinds share one contract, the locale \<open>fillable\<close>.  \<open>Fill\<close> works in place; its callers
  drop the options when it fails, so the model returns the filled options on success only.
\<close>

section \<open>Service options\<close>

record ServiceOptions =
  so_Host :: string
  so_Port :: u16
  so_Protocol :: string
  so_Method :: string
  so_Flags :: string
  so_Persistent :: bool
  so_host :: ip
  so_delIfAddr :: bool

definition zero_ServiceOptions :: ServiceOptions where
  "zero_ServiceOptions = \<lparr>so_Host = [], so_Port = 0, so_Protocol = [], so_Method = [], so_Flags = [],
     so_Persistent = False, so_host = [], so_delIfAddr = False\<rparr>"

text \<open>The part of \<open>Fill\<close> after the host is known.\<close>

definition service_Fill_rest :: "env \<Rightarrow> ServiceOptions \<Rightarrow> error + ServiceOptions" where
  "service_Fill_rest E o0 =
     (let o1 = (if so_Protocol o0 = [] then o0\<lparr>so_Protocol := ''tcp''\<rparr> else o0);
          o2 = o1\<lparr>so_Protocol := to_lower (so_Protocol o1)\<rparr>
      in if \<not> ValidProtocol (so_Protocol o2) then Inl ErrUnknownProtocol
         else if so_Flags o2 \<noteq> [] \<and> \<not> list_all (ValidFlag (libconsts E)) (split_on CHR ''|'' (so_Flags o2))
         then Inl ErrUnknownFlag
         else if so_Method o2 = [] then Inr (o2\<lparr>so_Method := ''wrr''\<rparr>) else Inr o2)"

definition service_Fill :: "env \<Rightarrow> ip \<Rightarrow> ServiceOptions \<Rightarrow> log \<Rightarrow> (error + ServiceOptions) \<times> log" where
  "service_Fill E defaultHost opts l =
     (if so_Port opts = 0 then (Inl ErrMissingEndpoint, l)
      else if so_Host opts \<noteq> [] then
        (case resolve_call E (so_Host opts) l of
           (Inl e, l') \<Rightarrow> (Inl e, l')
         | (Inr a, l') \<Rightarrow> (service_Fill_rest E (opts\<lparr>so_host := a\<rparr>), l'))
      else if defaultHost \<noteq> [] then (service_Fill_rest E (opts\<lparr>so_host := defaultHost\<rparr>), l)
      else (Inl ErrMissingEndpoint, l))"

definition service_Compare :: "ServiceOptions \<Rightarrow> ServiceOptions \<Rightarrow> bool" where
  "service_Compare a b =
     (if so_Host a \<noteq> so_Host b then False
      else if so_Port a \<noteq> so_Port b then False
      else if so_Protocol a \<noteq> so_Protocol b then False
      else if so_Flags a \<noteq> so_Flags b then False
      else if so_Method a \<noteq> so_Method b then False
      else if so_Persistent a \<noteq> so_Persistent b then False
      else True)"

text \<open>The flag list the context hands to IPVS.\<close>

definition service_flags :: "ServiceOptions \<Rightarrow> string list" where
  "service_flags opts = (if 0 < length (so_Flags opts) then split_on CHR ''|'' (so_Flags opts) else [])"

section \<open>Backend options\<close>

record BackendOptions =
  bo_Host :: string
  bo_Port :: u16
  bo_Weight :: u32
  bo_Method :: string
  bo_Pulse :: "PulseOptions option"
  bo_VsID :: string
  bo_host :: ip

definition zero_BackendOptions :: BackendOptions where
  "zero_BackendOptions = \<lparr>bo_Host = [], bo_Port = 0, bo_Weight = 0, bo_Method = [], bo_Pulse = None,
     bo_VsID = [], bo_host = []\<rparr>"

definition backend_Fill_rest :: "env \<Rightarrow> BackendOptions \<Rightarrow> error + BackendOptions" where
  "backend_Fill_rest E o0 =
     (let o1 = (if bo_Weight o0 \<le> 0 then o0\<lparr>bo_Weight := 100\<rparr> else o0);
          o2 = (if bo_Method o1 = [] then o1\<lparr>bo_Method := ''nat''\<rparr> else o1);
          o3 = o2\<lparr>bo_Method := to_lower (bo_Method o2)\<rparr>
      in if \<not> ValidForwarding (libconsts E) (bo_Method o3) then Inl ErrUnknownMethod
         else Inr (case bo_Pulse o3 of None \<Rightarrow> o3\<lparr>bo_Pulse := Some zero_PulseOptions\<rparr> | Some _ \<Rightarrow> o3))"

definition backend_Fill :: "env \<Rightarrow> BackendOptions \<Rightarrow> log \<Rightarrow> (error + BackendOptions) \<times> log" where
  "backend_Fill E opts l =
     (if bo_Host opts = [] \<or> bo_Port opts = 0 then (Inl ErrMissingEndpoint, l)
      else (case resolve_call E (bo_Host opts) l of
              (Inl e, l') \<Rightarrow> (Inl e, l')
            | (Inr a, l') \<Rightarrow> (backend_Fill_rest E (opts\<lparr>bo_host := a\<rparr>), l')))"

definition backend_Compare :: "BackendOptions \<Rightarrow> BackendOptions \<Rightarrow> bool" where
  "backend_Compare a b =
     (if bo_Host a \<noteq> bo_Host b then False
      else if bo_Port a \<noteq> bo_Port b then False
      else if bo_Method a \<noteq> bo_Method b then False
      else True)"

section \<open>What \<open>Fill\<close> guarantees\<close>

definition service_filled :: "env \<Rightarrow> ServiceOptions \<Rightarrow> bool" where
  "service_filled E opts \<longleftrightarrow> so_Port opts \<noteq> 0 \<and> ValidProtocol (so_Protocol opts) \<and>
     list_all (ValidFlag (libconsts E)) (service_flags opts) \<and> so_Method opts \<noteq> []"

definition backend_filled :: "env \<Rightarrow> BackendOptions \<Rightarrow> bool" where
  "backend_filled E opts \<longleftrightarrow> bo_Host opts \<noteq> [] \<and> bo_Port opts \<noteq> 0 \<and> bo_Weight opts \<noteq> 0 \<and>
     ValidForwarding (libconsts E) (bo_Method opts) \<and> bo_Pulse opts \<noteq> None"

text \<open>
  Options that went through \<open>Fill\<close> and options that were written down: the contract that
  \<open>createService\<close>, \<open>createBackend\<close> and \<open>Synchronize\<close> use.  \<open>normal\<close> singles out the
  options \<open>Fill\<close> leaves as they are, up to the resolved address.
\<close>

locale fillable =
  fixes fill :: "'o \<Rightarrow> log \<Rightarrow> (error + 'o) \<times> log"
    and filled :: "'o \<Rightarrow> bool" and normal :: "'o \<Rightarrow> bool"
    and compare :: "'o \<Rightarrow> 'o \<Rightarrow> bool"
  assumes fill_filled: "fill a l = (Inr b, l') \<Longrightarrow> filled b"
    and fill_normal: "fill a l = (Inr b, l') \<Longrightarrow> normal b"
    and fill_compare: "fill a l = (Inr b, l') \<Longrightarrow> normal a \<longleftrightarrow> compare b a"
    and fill_log: "\<exists>es. snd (fill a l) = es @ l \<and> set es \<subseteq> range EvResolve"
    and compare_refl: "compare a a"
    and compare_sym: "compare a b \<Longrightarrow> compare b a"
    and compare_trans: "compare a b \<Longrightarrow> compare b c \<Longrightarrow> compare a c"
begin

text \<open>Filling twice is filling once, for the comparison with the store.\<close>

lemma fill_again: "fill a l = (Inr b, l') \<Longrightarrow> fill b l2 = (Inr c, l3) \<Longrightarrow> compare c b"
  using fill_normal fill_compare by blast

lemma fill_stable:
  "fill a l = (Inr b, l') \<Longrightarrow> fill a l2 = (Inr c, l3) \<Longrightarrow> normal a \<Longrightarrow> compare b c"
  using fill_compare compare_sym compare_trans by blast

lemma fill_table: "ipvs_table (snd (fill a l)) = ipvs_table l"
proof -
  have "set es \<subseteq> range EvResolve \<Longrightarrow> ipvs_table (es @ l) = ipvs_table l" for es
    by (induction es) auto
  then show ?thesis using fill_log [of a l] by auto
qed

end

definition service_normal :: "ServiceOptions \<Rightarrow> bool" where
  "service_normal opts \<longleftrightarrow> so_Protocol opts \<noteq> [] \<and> to_lower (so_Protocol opts) = so_Protocol opts \<and> so_Method opts \<noteq> []"

definition backend_normal :: "BackendOptions \<Rightarrow> bool" where
  "backend_normal opts \<longleftrightarrow> bo_Method opts \<noteq> [] \<and> to_lower (bo_Method opts) = bo_Method opts"

lemma service_Fill_rest_Inr:
  "service_Fill_rest E o0 = Inr o' \<longleftrightarrow>
     ValidProtocol (so_Protocol o') \<and> list_all (ValidFlag (libconsts E)) (service_flags o') \<and>
     o' = o0\<lparr>so_Protocol := to_lower (if so_Protocol o0 = [] then ''tcp'' else so_Protocol o0),
             so_Method := (if so_Method o0 = [] then ''wrr'' else so_Method o0)\<rparr>"
  by (cases o0) (auto simp: service_Fill_rest_def service_flags_def Let_def)

lemma service_Fill_Inr:
  assumes "service_Fill E d o0 l = (Inr o', l')"
  shows "so_Port o0 \<noteq> 0 \<and> (\<exists>a. service_Fill_rest E (o0\<lparr>so_host := a\<rparr>) = Inr o' \<and>
    (if so_Host o0 = [] then d \<noteq> [] \<and> a = d \<and> l' = l else resolve_call E (so_Host o0) l = (Inr a, l')))"
  using assms by (auto simp: service_Fill_def split: if_splits prod.splits sum.splits)

lemma to_lower_tcp [simp]: "to_lower ''tcp'' = ''tcp''"
  by (simp add: to_lower_def lower_char_def)

lemma backend_Fill_Inr:
  assumes "backend_Fill E o0 l = (Inr o', l')"
  shows "bo_Host o0 \<noteq> [] \<and> bo_Port o0 \<noteq> 0 \<and> ValidForwarding (libconsts E) (bo_Method o') \<and>
    (\<exists>a. resolve_call E (bo_Host o0) l = (Inr a, l') \<and>
     o' = o0\<lparr>bo_Weight := (if bo_Weight o0 = 0 then 100 else bo_Weight o0),
             bo_Method := to_lower (if bo_Method o0 = [] then ''nat'' else bo_Method o0),
             bo_Pulse := Some (case bo_Pulse o0 of None \<Rightarrow> zero_PulseOptions | Some p \<Rightarrow> p), bo_host := a\<rparr>)"
  using assms
  by (cases o0) (auto simp: backend_Fill_def backend_Fill_rest_def Let_def
      split: if_splits prod.splits sum.splits option.splits)

lemma resolve_call_log: "snd (resolve_call E h l) = EvResolve h # l"
  by (simp add: resolve_call_def)

lemma service_Fill_log: "\<exists>es. snd (service_Fill E d o0 l) = es @ l \<and> set es \<subseteq> range EvResolve"
  by (auto simp: service_Fill_def resolve_call_def split: sum.splits)

lemma backend_Fill_log: "\<exists>es. snd (backend_Fill E o0 l) = es @ l \<and> set es \<subseteq> range EvResolve"
  by (auto simp: backend_Fill_def resolve_call_def split: sum.splits)

lemma service_Fill_eqs:
  assumes "service_Fill E d o0 l = (Inr o', l')"
  shows "service_filled E o'"
    and "so_Host o' = so_Host o0" "so_Port o' = so_Port o0" "so_Flags o' = so_Flags o0"
      "so_Persistent o' = so_Persistent o0" "so_delIfAddr o' = so_delIfAddr o0"
    and "so_Protocol o' = to_lower (if so_Protocol o0 = [] then ''tcp'' else so_Protocol o0)"
    and "so_Method o' = (if so_Method o0 = [] then ''wrr'' else so_Method o0)"
proof -
  obtain a where r: "service_Fill_rest E (o0\<lparr>so_host := a\<rparr>) = Inr o'" and p: "so_Port o0 \<noteq> 0"
    using service_Fill_Inr [OF assms] by blast
  note r = r [unfolded service_Fill_rest_Inr]
  show "so_Host o' = so_Host o0" "so_Flags o' = so_Flags o0"
    "so_Persistent o' = so_Persistent o0" "so_delIfAddr o' = so_delIfAddr o0"
    "so_Protocol o' = to_lower (if so_Protocol o0 = [] then ''tcp'' else so_Protocol o0)"
    and *: "so_Port o' = so_Port o0" "so_Method o' = (if so_Method o0 = [] then ''wrr'' else so_Method o0)"
    by (subst r [THEN conjunct2, THEN conjunct2], simp)+
  show "service_filled E o'"
    using r [THEN conjunct1] r [THEN conjunct2, THEN conjunct1] p * by (simp add: service_filled_def)
qed

interpretation svc: fillable "service_Fill E d" "service_filled E" service_normal service_Compare for E d
proof
  fix a b c :: ServiceOptions and l l' :: log
  show "\<exists>es. snd (service_Fill E d a l) = es @ l \<and> set es \<subseteq> range EvResolve"
    by (rule service_Fill_log)
  show "service_Compare a b \<Longrightarrow> service_Compare b a"
    by (auto simp: service_Compare_def split: if_splits)
  show "service_Compare a b \<Longrightarrow> service_Compare b c \<Longrightarrow> service_Compare a c"
    by (auto simp: service_Compare_def split: if_splits)
  assume f: "service_Fill E d a l = (Inr b, l')"
  note eqs = service_Fill_eqs [OF f]
  show "service_filled E b" by (rule eqs(1))
  show "service_normal b" by (simp add: service_normal_def eqs)
  show "service_normal a \<longleftrightarrow> service_Compare b a"
    by (simp add: service_normal_def service_Compare_def eqs)
qed (simp add: service_Compare_def)

lemma to_lower_nat [simp]: "to_lower ''nat'' = ''nat''"
  by (simp add: to_lower_def lower_char_def)

interpretation bck: fillable "backend_Fill E" "backend_filled E" backend_normal backend_Compare for E
proof
  fix a b c :: BackendOptions and l l' :: log
  show "\<exists>es. snd (backend_Fill E a l) = es @ l \<and> set es \<subseteq> range EvResolve"
    by (rule backend_Fill_log)
  show "backend_Compare a b \<Longrightarrow> backend_Compare b a"
    by (auto simp: backend_Compare_def split: if_splits)
  show "backend_Compare a b \<Longrightarrow> backend_Compare b c \<Longrightarrow> backend_Compare a c"
    by (auto simp: backend_Compare_def split: if_splits)
  assume f: "backend_Fill E a l = (Inr b, l')"
  show "backend_filled E b" "backend_normal b" "backend_normal a \<longleftrightarrow> backend_Compare b a"
    using backend_Fill_Inr [OF f]
    by (auto simp: backend_filled_def backend_normal_def backend_Compare_def split: if_split_asm)
qed (simp add: backend_Compare_def)

lemmas fill_tables [simp] = svc.fill_table bck.fill_table


section \<open>Properties\<close>

text \<open>
  \<open>Fill\<close> of a service fails with the error of the first check that fails: a missing
  port or host, the resolver's error, an unknown protocol, an unknown flag; otherwise it succeeds,
  with the defaults \<open>tcp\<close> and \<open>wrr\<close> for what was left out and the protocol in lower case.
\<close>

lemma service_Fill_cases:
  "fst (service_Fill E d o0 l) =
     (let proto = to_lower (if so_Protocol o0 = [] then ''tcp'' else so_Protocol o0);
          host = (if so_Host o0 = [] then (if d = [] then Inl ErrMissingEndpoint else Inr d)
                  else fst (resolve_call E (so_Host o0) l))
      in if so_Port o0 = 0 then Inl ErrMissingEndpoint
         else case host of Inl e \<Rightarrow> Inl e
         | Inr a \<Rightarrow> if proto \<notin> {''tcp'', ''udp''} then Inl ErrUnknownProtocol
             else if \<exists>f \<in> set (service_flags o0). \<not> ValidFlag (libconsts E) f then Inl ErrUnknownFlag
             else Inr (o0\<lparr>so_Protocol := proto, so_Method := (if so_Method o0 = [] then ''wrr'' else so_Method o0),
                          so_host := a\<rparr>))"
proof -
  have rest: "service_Fill_rest E (o0\<lparr>so_host := a\<rparr>) =
     (let proto = to_lower (if so_Protocol o0 = [] then ''tcp'' else so_Protocol o0)
      in if proto \<notin> {''tcp'', ''udp''} then Inl ErrUnknownProtocol
         else if \<exists>f \<in> set (service_flags o0). \<not> ValidFlag (libconsts E) f then Inl ErrUnknownFlag
         else Inr (o0\<lparr>so_Protocol := proto, so_Method := (if so_Method o0 = [] then ''wrr'' else so_Method o0),
                      so_host := a\<rparr>))" for a
    by (cases o0) (auto simp: service_Fill_rest_def service_flags_def ValidProtocol_iff list_all_iff Let_def)
  show ?thesis
    by (cases "resolve_call E (so_Host o0) l"; cases "fst (resolve_call E (so_Host o0) l)")
      (simp_all add: service_Fill_def rest Let_def)
qed

text \<open>
  Options that \<open>Fill\<close> accepted are never turned down by the shim on its own: adding
  the service and adding the destination each become exactly one request to the kernel, for the
  filled address, port, scheduler, weight and forwarding method.
\<close>

lemma filled_options_reach_kernel:
  assumes "service_Fill E d s0 l0 = (Inr sv, l1)" and "backend_Fill E b0 l2 = (Inr bo, l3)"
  shows "\<exists>svc fwd. svc_key svc = vkey_of (ip_String (so_host sv)) (so_Port sv) (so_Protocol sv) \<and>
    backendForwarding (libconsts E) (bo_Method bo) = Some fwd \<and>
    ipvs_AddService E (ip_String (so_host sv)) (so_Port sv) (so_Protocol sv) (so_Method sv) (service_flags sv) l =
      ipvs_call E (NewService (svc\<lparr>sv_SchedName := so_Method sv,
        sv_Flags := createFlagbits (libconsts E) (service_flags sv), sv_Mask := NOT 0\<rparr>)) l \<and>
    ipvs_AddDestPort E (ip_String (so_host sv)) (so_Port sv) (ip_String (bo_host bo)) (bo_Port bo)
        (so_Protocol sv) (bo_Weight bo) (bo_Method bo) l =
      ipvs_call E (NewDestination svc (createDest (ip_String (bo_host bo)) (bo_Port bo) fwd (bo_Weight bo))) l"
proof -
  have p: "ValidProtocol (so_Protocol sv)" and f: "ValidForwarding (libconsts E) (bo_Method bo)"
    using svc.fill_filled [OF assms(1)] bck.fill_filled [OF assms(2)]
    by (simp_all add: service_filled_def backend_filled_def)
  obtain svc where "createSvcKey (ip_String (so_host sv)) (so_Protocol sv) (so_Port sv) = Inr svc"
    "svc_key svc = vkey_of (ip_String (so_host sv)) (so_Port sv) (so_Protocol sv)"
    using createSvcKey_valid [OF p] by blast
  moreover obtain fwd where "backendForwarding (libconsts E) (bo_Method bo) = Some fwd"
    using f by (auto simp: ValidForwarding_def)
  ultimately show ?thesis by (auto simp: ipvs_AddService_def ipvs_AddDestPort_def)
qed

lemma filled_options_reach_kernel_witness:
  "\<exists>svc. ipvs_AddDestPort ok_env ''127.0.0.1'' 80 ''127.0.0.1'' 8080 ''tcp'' 100 ''nat'' [] =
     ipvs_call ok_env (NewDestination svc (createDest ''127.0.0.1'' 8080 0 100)) []"
proof -
  let ?s = "zero_ServiceOptions\<lparr>so_Host := ''web'', so_Port := 80\<rparr>"
  let ?b = "zero_BackendOptions\<lparr>bo_Host := ''node'', bo_Port := 8080\<rparr>"
  have s: "service_Fill ok_env [] ?s [] = (Inr (?s\<lparr>so_Protocol := ''tcp'', so_Method := ''wrr'',
      so_host := [127, 0, 0, 1]\<rparr>), [EvResolve ''web''])"
    by (simp add: service_Fill_def service_Fill_rest_def zero_ServiceOptions_def resolve_call_def ValidProtocol_iff)
  have b: "backend_Fill ok_env ?b [] = (Inr (?b\<lparr>bo_Weight := 100, bo_Method := ''nat'',
      bo_Pulse := Some zero_PulseOptions, bo_host := [127, 0, 0, 1]\<rparr>), [EvResolve ''node''])"
    by (simp add: backend_Fill_def backend_Fill_rest_def zero_BackendOptions_def resolve_call_def ValidForwarding_iff)
  have ip: "ip_String [127, 0, 0, 1] = ''127.0.0.1''" by code_simp
  have "backendForwarding (libconsts ok_env) ''nat'' = Some 0"
    by (simp add: backendForwarding_def linux_consts_def)
  then show ?thesis
    using filled_options_reach_kernel [OF s b, of "[]"]
    by (auto simp: zero_ServiceOptions_def zero_BackendOptions_def ip)
qed

text \<open>
  Whether filled options compare equal to the entry of the store they came from depends
  on how the entry is written: with a protocol in lower case and a method they do; an entry that
  leaves the protocol or the method to \<open>Fill\<close>, or writes the protocol in capitals, is taken
  for a changed one at every synchronization.
\<close>

lemma store_entry_stable:
  assumes "service_Fill E d o0 l = (Inr o', l')"
  shows "service_Compare o' o0 \<longleftrightarrow>
    so_Protocol o0 \<noteq> [] \<and> to_lower (so_Protocol o0) = so_Protocol o0 \<and> so_Method o0 \<noteq> []"
  using svc.fill_compare [OF assms] by (simp add: service_normal_def)

lemma store_entry_stable_witness:
  "\<exists>o'. fst (service_Fill ok_env [10, 0, 0, 1] (zero_ServiceOptions\<lparr>so_Port := 80\<rparr>) []) = Inr o' \<and>
     \<not> service_Compare o' (zero_ServiceOptions\<lparr>so_Port := 80\<rparr>)"
proof -
  let ?s = "zero_ServiceOptions\<lparr>so_Port := 80\<rparr>"
  have s: "service_Fill ok_env [10, 0, 0, 1] ?s [] = (Inr (?s\<lparr>so_Protocol := ''tcp'', so_Method := ''wrr'',
      so_host := [10, 0, 0, 1]\<rparr>), [])"
    by (simp add: service_Fill_def service_Fill_rest_def zero_ServiceOptions_def ValidProtocol_iff)
  then show ?thesis using store_entry_stable [OF s] by (simp add: zero_ServiceOptions_def)
qed

end
