(* ===== verification/Gorb_Store.thy ===== *)
theory Gorb_Store
  imports Gorb_Options
begin

text \<open>
  The half of \<open>src/core/store.go\<close> that the context calls: how options are written to the
  external key-value store and read back.  \<open>Sync\<close> and \<open>NewStore\<close>, which call the context,
  are in \<open>Gorb_Sync\<close>.
\<close>

section \<open>Options as JSON documents\<close>

text \<open>
  What \<open>encoding/json\<close> makes of the option structs, by their field tags: unexported fields are
  left out, \<open>vsid\<close> is left out when empty, a nil pointer or map is \<open>null\<close>.  The members of an
  object come in the order of the map here; Go sorts them, which no reader of a document sees.
  (An empty map that is not nil is written as an empty object; both are read back as an empty map.)
\<close>

definition map_json :: "DynamicMap \<Rightarrow> json" where
  "map_json m = (if gkeys m = [] then JNull
     else JObj (map (\<lambda>k. (k, case gget m k of None \<Rightarrow> JNull | Some v \<Rightarrow> v)) (gkeys m)))"

definition service_json :: "ServiceOptions \<Rightarrow> json" where
  "service_json opts = JObj
     [(''host'', JStr (so_Host opts)), (''port'', JNum (of_nat (unat (so_Port opts)))),
      (''protocol'', JStr (so_Protocol opts)), (''method'', JStr (so_Method opts)),
      (''flags'', JStr (so_Flags opts)), (''persistent'', JBool (so_Persistent opts))]"

definition pulse_json :: "PulseOptions \<Rightarrow> json" where
  "pulse_json p = JObj [(''type'', JStr (po_Type p)), (''interval'', JStr (po_Interval p)),
     (''args'', map_json (po_Args p))]"

definition backend_json :: "BackendOptions \<Rightarrow> json" where
  "backend_json opts = JObj
     ([(''host'', JStr (bo_Host opts)), (''port'', JNum (of_nat (unat (bo_Port opts)))),
       (''weight'', JNum (of_nat (unat (bo_Weight opts)))), (''method'', JStr (bo_Method opts)),
       (''pulse'', case bo_Pulse opts of None \<Rightarrow> JNull | Some p \<Rightarrow> pulse_json p)]
      @ (if bo_VsID opts = [] then [] else [(''vsid'', JStr (bo_VsID opts))]))"

text \<open>
  Decoding into a struct: a member sets the field whose name it matches in any case, \<open>null\<close>
  leaves a field of a basic type alone, unknown members are ignored, and a value of the wrong kind
  is an error.  (The decoder reports such an error only after it has gone through the rest of the
  document; no caller looks at the struct then.)
\<close>

fun fold_sum :: "('a \<Rightarrow> 's \<Rightarrow> error + 's) \<Rightarrow> 'a list \<Rightarrow> 's \<Rightarrow> error + 's" where
  "fold_sum f [] s = Inr s"
| "fold_sum f (x # xs) s = (case f x s of Inl e \<Rightarrow> Inl e | Inr s' \<Rightarrow> fold_sum f xs s')"

definition json_error :: error where
  "json_error = ErrExternal ''json''"

fun dec_string :: "json \<Rightarrow> string \<Rightarrow> error + string" where
  "dec_string JNull old = Inr old"
| "dec_string (JStr s) old = Inr s"
| "dec_string _ old = Inl json_error"

fun dec_bool :: "json \<Rightarrow> bool \<Rightarrow> error + bool" where
  "dec_bool JNull old = Inr old"
| "dec_bool (JBool b) old = Inr b"
| "dec_bool _ old = Inl json_error"

fun dec_uint :: "json \<Rightarrow> 'w::len word \<Rightarrow> error + 'w word" where
  "dec_uint JNull old = Inr old"
| "dec_uint (JNum r) old =
     (if 0 \<le> r \<and> r < 2 ^ LENGTH('w) \<and> of_int \<lfloor>r\<rfloor> = r then Inr (word_of_int \<lfloor>r\<rfloor>) else Inl json_error)"
| "dec_uint _ old = Inl json_error"

text \<open>A value of type \<open>interface{}\<close>: numbers become \<open>float64\<close>.\<close>

fun iface_value :: "json \<Rightarrow> json" where
  "iface_value (JNum r) = JNum (fl64 r)"
| "iface_value (JArr vs) = JArr (map iface_value vs)"
| "iface_value (JObj kvs) = JObj (map (\<lambda>(k, v). (k, iface_value v)) kvs)"
| "iface_value v = v"

fun dec_map :: "json \<Rightarrow> DynamicMap \<Rightarrow> error + DynamicMap" where
  "dec_map JNull old = Inr gempty"
| "dec_map (JObj kvs) old = Inr (foldl (\<lambda>m (k, v). gput k (iface_value v) m) old kvs)"
| "dec_map _ old = Inl json_error"

definition service_field :: "string \<times> json \<Rightarrow> ServiceOptions \<Rightarrow> error + ServiceOptions" where
  "service_field kv opts = (let k = to_lower (fst kv); v = snd kv in
     if k = ''host'' then map_sum id (\<lambda>x. opts\<lparr>so_Host := x\<rparr>) (dec_string v (so_Host opts))
     else if k = ''port'' then map_sum id (\<lambda>x. opts\<lparr>so_Port := x\<rparr>) (dec_uint v (so_Port opts))
     else if k = ''protocol'' then map_sum id (\<lambda>x. opts\<lparr>so_Protocol := x\<rparr>) (dec_string v (so_Protocol opts))
     else if k = ''method'' then map_sum id (\<lambda>x. opts\<lparr>so_Method := x\<rparr>) (dec_string v (so_Method opts))
     else if k = ''flags'' then map_sum id (\<lambda>x. opts\<lparr>so_Flags := x\<rparr>) (dec_string v (so_Flags opts))
     else if k = ''persistent'' then map_sum id (\<lambda>x. opts\<lparr>so_Persistent := x\<rparr>) (dec_bool v (so_Persistent opts))
     else Inr opts)"

definition pulse_field :: "string \<times> json \<Rightarrow> PulseOptions \<Rightarrow> error + PulseOptions" where
  "pulse_field kv p = (let k = to_lower (fst kv); v = snd kv in
     if k = ''type'' then map_sum id (\<lambda>x. p\<lparr>po_Type := x\<rparr>) (dec_string v (po_Type p))
     else if k = ''interval'' then map_sum id (\<lambda>x. p\<lparr>po_Interval := x\<rparr>) (dec_string v (po_Interval p))
     else if k = ''args'' then map_sum id (\<lambda>x. p\<lparr>po_Args := x\<rparr>) (dec_map v (po_Args p))
     else Inr p)"

definition dec_pulse :: "json \<Rightarrow> PulseOptions option \<Rightarrow> error + PulseOptions option" where
  "dec_pulse v old = (case v of JNull \<Rightarrow> Inr None
     | JObj kvs \<Rightarrow> map_sum id Some (fold_sum pulse_field kvs (case old of None \<Rightarrow> zero_PulseOptions | Some p \<Rightarrow> p))
     | _ \<Rightarrow> Inl json_error)"

definition backend_field :: "string \<times> json \<Rightarrow> BackendOptions \<Rightarrow> error + BackendOptions" where
  "backend_field kv opts = (let k = to_lower (fst kv); v = snd kv in
     if k = ''host'' then map_sum id (\<lambda>x. opts\<lparr>bo_Host := x\<rparr>) (dec_string v (bo_Host opts))
     else if k = ''port'' then map_sum id (\<lambda>x. opts\<lparr>bo_Port := x\<rparr>) (dec_uint v (bo_Port opts))
     else if k = ''weight'' then map_sum id (\<lambda>x. opts\<lparr>bo_Weight := x\<rparr>) (dec_uint v (bo_Weight opts))
     else if k = ''method'' then map_sum id (\<lambda>x. opts\<lparr>bo_Method := x\<rparr>) (dec_string v (bo_Method opts))
     else if k = ''pulse'' then map_sum id (\<lambda>x. opts\<lparr>bo_Pulse := x\<rparr>) (dec_pulse v (bo_Pulse opts))
     else if k = ''vsid'' then map_sum id (\<lambda>x. opts\<lparr>bo_VsID := x\<rparr>) (dec_string v (bo_VsID opts))
     else Inr opts)"

definition dec_struct :: "(string \<times> json \<Rightarrow> 'o \<Rightarrow> error + 'o) \<Rightarrow> 'o \<Rightarrow> json option \<Rightarrow> error + 'o" where
  "dec_struct field zero doc = (case doc of
       Some (JObj kvs) \<Rightarrow> fold_sum field kvs zero
     | Some JNull \<Rightarrow> Inr zero
     | _ \<Rightarrow> Inl json_error)"

definition service_unmarshal :: "json option \<Rightarrow> error + ServiceOptions" where
  "service_unmarshal = dec_struct service_field zero_ServiceOptions"

definition backend_unmarshal :: "json option \<Rightarrow> error + BackendOptions" where
  "backend_unmarshal = dec_struct backend_field zero_BackendOptions"

section \<open>The store\<close>

record Store =
  storeServicePath :: string
  storeBackendPath :: string

text \<open>
  Marshalling the option structs cannot fail.  A nil value is put as a directory.
\<close>

definition store_put :: "env \<Rightarrow> string \<Rightarrow> json option \<Rightarrow> bool \<Rightarrow> log \<Rightarrow> error option \<times> log" where
  "store_put E key val overwrite l =
     (case kv_exists_call E key l of
        (Inl e, l') \<Rightarrow> (Some e, l')
      | (Inr exist, l') \<Rightarrow> if \<not> exist \<or> overwrite then kv_call E (KvPut key val) l' else (None, l'))"

definition store_CreateService :: "env \<Rightarrow> Store \<Rightarrow> string \<Rightarrow> ServiceOptions \<Rightarrow> log \<Rightarrow> error option \<times> log" where
  "store_CreateService E s vsID opts l =
     store_put E (storeServicePath s @ ''/'' @ vsID) (Some (service_json opts)) False l"

definition store_UpdateService :: "env \<Rightarrow> Store \<Rightarrow> string \<Rightarrow> ServiceOptions \<Rightarrow> log \<Rightarrow> error option \<times> log" where
  "store_UpdateService E s vsID opts l =
     store_put E (storeServicePath s @ ''/'' @ vsID) (Some (service_json opts)) True l"

text \<open>The two methods for backends also record the service in the options they are given.\<close>

definition store_CreateBackend ::
  "env \<Rightarrow> Store \<Rightarrow> string \<Rightarrow> string \<Rightarrow> BackendOptions \<Rightarrow> log \<Rightarrow> (error option \<times> BackendOptions) \<times> log" where
  "store_CreateBackend E s vsID rsID opts l =
     (let opts' = opts\<lparr>bo_VsID := vsID\<rparr>;
          (e, l') = store_put E (storeBackendPath s @ ''/'' @ rsID) (Some (backend_json opts')) False l
      in ((e, opts'), l'))"

definition store_UpdateBackend ::
  "env \<Rightarrow> Store \<Rightarrow> string \<Rightarrow> string \<Rightarrow> BackendOptions \<Rightarrow> log \<Rightarrow> (error option \<times> BackendOptions) \<times> log" where
  "store_UpdateBackend E s vsID rsID opts l =
     (let opts' = opts\<lparr>bo_VsID := vsID\<rparr>;
          (e, l') = store_put E (storeBackendPath s @ ''/'' @ rsID) (Some (backend_json opts')) True l
      in ((e, opts'), l'))"

definition store_RemoveService :: "env \<Rightarrow> Store \<Rightarrow> string \<Rightarrow> log \<Rightarrow> error option \<times> log" where
  "store_RemoveService E s vsID l = kv_call E (KvDeleteTree (storeServicePath s @ ''/'' @ vsID)) l"

definition store_RemoveBackend :: "env \<Rightarrow> Store \<Rightarrow> string \<Rightarrow> log \<Rightarrow> error option \<times> log" where
  "store_RemoveBackend E s rsID l = kv_call E (KvDeleteTree (storeBackendPath s @ ''/'' @ rsID)) l"

text \<open>\<open>strings.LastIndex\<close> of a one-character string.\<close>

definition last_index :: "string \<Rightarrow> char \<Rightarrow> int" where
  "last_index s c = (if c \<in> set s then int (length s) - 1 - int (length (takeWhile (\<lambda>x. x \<noteq> c) (rev s))) else -1)"

definition store_getID :: "string \<Rightarrow> string" where
  "store_getID key = (let index = last_index key CHR ''/''
     in if index \<le> 0 then key else drop (nat (index + 1)) key)"

text \<open>
  Reading a directory of the store: the first value that is no document of the right shape ends
  the reading with an error.  The two functions of the source differ in the type only.
\<close>

definition read_pairs ::
  "(json option \<Rightarrow> error + 'o) \<Rightarrow> (string \<times> json option) list \<Rightarrow> error + 'o gomap" where
  "read_pairs dec kvs =
     fold_sum (\<lambda>(key, val) m. map_sum id (\<lambda>opts. gput (store_getID key) opts m) (dec val)) kvs gempty"

definition getExternalServices :: "env \<Rightarrow> Store \<Rightarrow> log \<Rightarrow> error + ServiceOptions gomap" where
  "getExternalServices E s l = (case kvList E l (storeServicePath s) of
       KvKeyNotFound \<Rightarrow> Inr gempty
     | KvError e \<Rightarrow> Inl (ErrExternal e)
     | KvPairs kvs \<Rightarrow> read_pairs service_unmarshal kvs)"

definition getExternalBackends :: "env \<Rightarrow> Store \<Rightarrow> log \<Rightarrow> error + BackendOptions gomap" where
  "getExternalBackends E s l = (case kvList E l (storeBackendPath s) of
       KvKeyNotFound \<Rightarrow> Inr gempty
     | KvError e \<Rightarrow> Inl (ErrExternal e)
     | KvPairs kvs \<Rightarrow> read_pairs backend_unmarshal kvs)"

section \<open>Lemmas\<close>

text \<open>Operations of the store leave the kernel's table alone.\<close>

lemma kv_tables [simp]:
  "ipvs_table (snd (kv_call E r l)) = ipvs_table l"
  "ipvs_table (snd (kv_exists_call E k l)) = ipvs_table l"
  by (simp_all add: kv_call_def kv_exists_call_def Let_def)

lemma store_put_table [simp]: "ipvs_table (snd (store_put E k v ow l)) = ipvs_table l"
  by (auto simp: store_put_def kv_call_def kv_exists_call_def Let_def split: sum.splits)

lemma store_tables [simp]:
  "ipvs_table (snd (store_CreateService E s vsID so l)) = ipvs_table l"
  "ipvs_table (snd (store_UpdateService E s vsID so l)) = ipvs_table l"
  "ipvs_table (snd (store_CreateBackend E s vsID rsID bo l)) = ipvs_table l"
  "ipvs_table (snd (store_UpdateBackend E s vsID rsID bo l)) = ipvs_table l"
  "ipvs_table (snd (store_RemoveService E s vsID l)) = ipvs_table l"
  "ipvs_table (snd (store_RemoveBackend E s rsID l)) = ipvs_table l"
  by (simp_all add: store_CreateService_def store_UpdateService_def store_CreateBackend_def
      store_UpdateBackend_def store_RemoveService_def store_RemoveBackend_def split_beta Let_def)

lemma last_index_snoc: "c \<notin> set w \<Longrightarrow> last_index (p @ c # w) c = int (length p)"
proof -
  assume "c \<notin> set w"
  then have "takeWhile (\<lambda>x. x \<noteq> c) (rev w @ c # rev p) = rev w"
    by (subst takeWhile_append2) auto
  then show ?thesis by (simp add: last_index_def)
qed

lemma getID_path: "CHR ''/'' \<notin> set w \<Longrightarrow> p \<noteq> [] \<Longrightarrow> store_getID (p @ ''/'' @ w) = w"
  by (simp add: store_getID_def last_index_snoc Let_def nat_add_distrib)

text \<open>Putting the entries of a map one after the other gives the map back.\<close>

lemma impl_of_gput: "DAList.impl_of (gput k v m) = AList.update k v (DAList.impl_of m)"
  by (simp add: gput_def DAList.update.rep_eq)

lemma foldl_gput_impl:
  assumes "distinct (map fst (DAList.impl_of m @ kvs))"
  shows "DAList.impl_of (foldl (\<lambda>m (k, v). gput k v m) m kvs) = DAList.impl_of m @ kvs"
  using assms
proof (induction kvs arbitrary: m)
  case (Cons kv kvs)
  obtain k v where kv: "kv = (k, v)" by force
  have upd: "AList.update k v xs = xs @ [(k, v)]" if "k \<notin> fst ` set xs" for xs :: "(string \<times> 'a) list"
    using that by (induction xs) auto
  have "k \<notin> fst ` set (DAList.impl_of m)" using Cons.prems by (auto simp: kv)
  then have "DAList.impl_of (gput k v m) = DAList.impl_of m @ [(k, v)]"
    by (simp add: impl_of_gput upd)
  with Cons.IH [of "gput k v m"] Cons.prems show ?case by (auto simp: kv)
qed simp

lemma gmap_rebuild:
  "foldl (\<lambda>m (k, v). gput k v m) gempty (map (\<lambda>k. (k, case gget m k of None \<Rightarrow> d | Some v \<Rightarrow> v)) (gkeys m)) = m"
proof -
  let ?xs = "DAList.impl_of m"
  have dist: "distinct (map fst ?xs)" by simp
  have "map (\<lambda>k. (k, case gget m k of None \<Rightarrow> d | Some v \<Rightarrow> v)) (gkeys m) = ?xs"
    unfolding gkeys_def gget_def DAList.lookup.rep_eq map_map o_def
    by (rule map_idI) (auto simp: map_of_is_SomeI [OF dist])
  moreover have "DAList.impl_of (foldl (\<lambda>m (k, v). gput k v m) gempty ?xs) = ?xs"
    using foldl_gput_impl [of gempty ?xs] by (simp add: gempty_def DAList.empty.rep_eq)
  ultimately show ?thesis by (simp add: impl_of_inject)
qed

lemma dec_map_json:
  assumes "\<forall>k v. gget m k = Some v \<longrightarrow> iface_value v = v"
  shows "dec_map (map_json m) gempty = Inr m"
proof (cases "gkeys m = []")
  case True
  then show ?thesis using gmap_rebuild [of undefined m] by (simp add: map_json_def)
next
  case False
  let ?kvs = "map (\<lambda>k. (k, case gget m k of None \<Rightarrow> JNull | Some v \<Rightarrow> v)) (gkeys m)"
  have v: "iface_value (case gget m k of None \<Rightarrow> JNull | Some v \<Rightarrow> v) =
      (case gget m k of None \<Rightarrow> JNull | Some v \<Rightarrow> v)" for k
    using assms by (auto split: option.splits)
  have "foldl (\<lambda>m (k, v). gput k (iface_value v) m) gempty ?kvs = foldl (\<lambda>m (k, v). gput k v m) gempty ?kvs"
    by (rule foldl_cong) (auto simp: v)
  then show ?thesis using False gmap_rebuild [of JNull m] by (simp add: map_json_def)
qed

lemma dec_uint_of_nat:
  assumes "n < 2 ^ LENGTH('w)"
  shows "dec_uint (JNum (of_nat n)) (old :: 'w::len word) = Inr (of_nat n)"
proof -
  have "(of_nat n :: rat) < 2 ^ LENGTH('w)"
    using assms by (simp only: of_nat_less_iff [where ?'a = rat, symmetric] of_nat_power of_nat_numeral)
  then show ?thesis by simp
qed

lemma dec_uint_unsigned: "dec_uint (JNum (unsigned w)) old = Inr w"
  using dec_uint_of_nat [of "unat w" old] by (simp del: dec_uint.simps)

lemma service_document:
  "service_unmarshal (Some (service_json s)) = Inr (s\<lparr>so_host := [], so_delIfAddr := False\<rparr>)"
  by (cases s) (simp add: service_unmarshal_def dec_struct_def service_json_def service_field_def
      zero_ServiceOptions_def to_lower_def lower_char_def dec_uint_unsigned del: dec_uint.simps)

lemma backend_document:
  assumes "\<forall>p. bo_Pulse b = Some p \<longrightarrow> (\<forall>k v. gget (po_Args p) k = Some v \<longrightarrow> iface_value v = v)"
  shows "backend_unmarshal (Some (backend_json b)) =
      Inr (b\<lparr>bo_Pulse := map_option (\<lambda>p. p\<lparr>po_interval := 0\<rparr>) (bo_Pulse b), bo_host := []\<rparr>)"
proof -
  have p: "dec_pulse (pulse_json p) None = Inr (Some (p\<lparr>po_interval := 0\<rparr>))"
    if "bo_Pulse b = Some p" for p
    using dec_map_json [of "po_Args p"] assms that
    by (cases p) (simp add: dec_pulse_def pulse_json_def pulse_field_def zero_PulseOptions_def
        to_lower_def lower_char_def)
  have n: "dec_pulse JNull x = Inr None" for x
    by (simp add: dec_pulse_def)
  show ?thesis
    by (cases b; cases "bo_Pulse b"; cases "bo_VsID b = []")
      (simp_all add: backend_unmarshal_def dec_struct_def backend_json_def backend_field_def
        zero_BackendOptions_def to_lower_def lower_char_def dec_uint_unsigned p n del: dec_uint.simps)
qed

section \<open>Properties\<close>

text \<open>
  The key under which an object is put gives its name back, for a name that is one
  segment; except below the empty path, where the name comes back with the slash before it.
\<close>

lemma store_key_roundtrip:
  assumes "CHR ''/'' \<notin> set name"
  shows "store_getID (path @ ''/'' @ name) = (if path = [] then ''/'' @ name else name)"
proof (cases "path = []")
  case True
  then show ?thesis using last_index_snoc [OF assms, of "[]"] by (simp add: store_getID_def Let_def)
next
  case False
  then show ?thesis using getID_path [OF assms] by simp
qed

lemma store_key_roundtrip_witness:
  "store_getID (''gorb/services'' @ ''/'' @ ''web'') = ''web'' \<and> store_getID ([] @ ''/'' @ ''web'') = ''/web''"
  using store_key_roundtrip [of "''web''" "''gorb/services''"] store_key_roundtrip [of "''web''" "[]"] by simp

text \<open>
  What is put into the store is read back: decoding the document of a service's or a
  backend's options gives the exported fields again, the pulse options included, with the resolved
  address and the other private fields empty.
\<close>

lemma store_document_roundtrip:
  assumes "\<forall>p. bo_Pulse b = Some p \<longrightarrow> (\<forall>k v. gget (po_Args p) k = Some v \<longrightarrow> iface_value v = v)"
  shows "service_unmarshal (Some (service_json s)) = Inr (s\<lparr>so_host := [], so_delIfAddr := False\<rparr>) \<and>
    backend_unmarshal (Some (backend_json b)) =
      Inr (b\<lparr>bo_Pulse := map_option (\<lambda>p. p\<lparr>po_interval := 0\<rparr>) (bo_Pulse b), bo_host := []\<rparr>)"
  using service_document backend_document [OF assms] by blast

lemma store_document_roundtrip_witness:
  "backend_unmarshal (Some (backend_json (zero_BackendOptions\<lparr>bo_Host := ''node'', bo_Port := 80\<rparr>))) =
     Inr (zero_BackendOptions\<lparr>bo_Host := ''node'', bo_Port := 80\<rparr>)"
  using store_document_roundtrip [of "zero_BackendOptions\<lparr>bo_Host := ''node'', bo_Port := 80\<rparr>"]
  by (simp add: zero_BackendOptions_def)

end
