(* ===== verification/Gorb_Context.thy ===== *)
theory Gorb_Context
  imports Gorb_Store
begin

text \<open>
  \<open>src/core/context.go\<close>: the state of the load balancer and the operations on it.  An operation
  takes the state and gives its result with the state it leaves, also when it fails or panics
  (a panic leaves what was done before it).  The operations run under the context's mutex; their
  interleaving is the subject of \<open>Gorb_System\<close>.

  Pointers: a service object is never changed after it is made, only replaced, so a backend keeps
  the object it points to, and the address of an object (\<open>s_addr\<close>) serves to compare pointers.
  A backend's stop channel is a number; \<open>cx_closed\<close> lists the closed ones, and closing one of
  them again panics.  \<open>cx_loops\<close> lists the check loops that were started.
\<close>

section \<open>State\<close>

record service =
  s_addr :: nat
  s_options :: ServiceOptions

record backend =
  b_options :: BackendOptions
  b_service :: service
  b_monitor :: Pulse
  b_metrics :: Metrics

record ctx =
  cx_endpoint :: ip
  cx_services :: "service gomap"
  cx_backends :: "backend gomap"
  cx_disco :: disco_driver
  cx_vipInterface :: "string option"
  cx_store :: "Store option"
  cx_stopped :: bool
  cx_closed :: "nat list"
  cx_next :: nat
  cx_loops :: "(ID \<times> Pulse) list"
  cx_log :: log

record ContextOptions =
  co_Disco :: string
  co_Endpoints :: "ip list"
  co_Flush :: bool
  co_ListenPort :: u16
  co_VipInterface :: string

text \<open>A call of the outside world from the context.\<close>

definition on_log :: "(log \<Rightarrow> 'r \<times> log) \<Rightarrow> ctx \<Rightarrow> 'r \<times> ctx" where
  "on_log f c = (let (r, l') = f (cx_log c) in (r, c\<lparr>cx_log := l'\<rparr>))"

text \<open>A call of the store, where there is one.\<close>

definition with_store :: "(Store \<Rightarrow> log \<Rightarrow> error option \<times> log) \<Rightarrow> ctx \<Rightarrow> error option \<times> ctx" where
  "with_store f c = (case cx_store c of None \<Rightarrow> (None, c) | Some s \<Rightarrow> on_log (f s) c)"

section \<open>Services\<close>

text \<open>The address a service adds to the interface, a host route.\<close>

definition vip_of :: "ServiceOptions \<Rightarrow> ip" where
  "vip_of opts = ParseIP (ip_String (so_host opts))"

definition add_vip :: "env \<Rightarrow> ServiceOptions \<Rightarrow> ctx \<Rightarrow> ServiceOptions \<times> ctx" where
  "add_vip E opts c = (case cx_vipInterface c of None \<Rightarrow> (opts, c)
     | Some ifName \<Rightarrow> (case on_log (addr_call E (AddrAdd ifName (vip_of opts))) c of
         (Some _, c') \<Rightarrow> (opts, c')
       | (None, c') \<Rightarrow> (opts\<lparr>so_delIfAddr := True\<rparr>, c')))"

definition del_vip :: "env \<Rightarrow> ServiceOptions \<Rightarrow> ctx \<Rightarrow> ctx" where
  "del_vip E opts c = (case cx_vipInterface c of None \<Rightarrow> c
     | Some ifName \<Rightarrow> if so_delIfAddr opts then snd (on_log (addr_call E (AddrDel ifName (vip_of opts))) c) else c)"

definition put_service :: "string \<Rightarrow> ServiceOptions \<Rightarrow> ctx \<Rightarrow> ctx" where
  "put_service vsID opts c = c\<lparr>cx_services := gput vsID \<lparr>s_addr = cx_next c, s_options = opts\<rparr> (cx_services c),
     cx_next := Suc (cx_next c)\<rparr>"

definition createService :: "env \<Rightarrow> string \<Rightarrow> ServiceOptions \<Rightarrow> ctx \<Rightarrow> unit outcome \<times> ctx" where
  "createService E vsID opts0 c0 =
     (case on_log (service_Fill E (cx_endpoint c0) opts0) c0 of
        (Inl e, c1) \<Rightarrow> (Fail e, c1)
      | (Inr opts1, c1) \<Rightarrow>
          if gget (cx_services c1) vsID \<noteq> None then (Fail ErrObjectExists, c1)
          else let (opts, c2) = add_vip E opts1 c1 in
            (case with_store (\<lambda>s. store_CreateService E s vsID opts) c2 of
               (Some e, c3) \<Rightarrow> (Fail e, c3)
             | (None, c3) \<Rightarrow>
                 (case on_log (ipvs_AddService E (ip_String (so_host opts)) (so_Port opts)
                     (so_Protocol opts) (so_Method opts) (service_flags opts)) c3 of
                    (Some e, c4) \<Rightarrow> (Fail ErrIpvsSyscallFailed, c4)
                  | (None, c4) \<Rightarrow>
                      let c5 = put_service vsID opts c4;
                          (_, c6) = on_log (disco_Expose E (cx_disco c5) vsID (ip_String (so_host opts)) (so_Port opts)) c5
                      in (Ok (), c6))))"

definition updateService :: "env \<Rightarrow> string \<Rightarrow> ServiceOptions \<Rightarrow> ctx \<Rightarrow> unit outcome \<times> ctx" where
  "updateService E vsID opts0 c0 =
     (case on_log (service_Fill E (cx_endpoint c0) opts0) c0 of
        (Inl e, c1) \<Rightarrow> (Fail e, c1)
      | (Inr opts, c1) \<Rightarrow>
          (case gget (cx_services c1) vsID of
             None \<Rightarrow> createService E vsID opts c1
           | Some old \<Rightarrow>
               if ip_String (so_host (s_options old)) \<noteq> ip_String (so_host opts) \<or>
                  so_Port (s_options old) \<noteq> so_Port opts \<or> so_Protocol (s_options old) \<noteq> so_Protocol opts
               then (Fail (ErrServiceKeyChanged vsID), c1)
               else (case with_store (\<lambda>s. store_UpdateService E s vsID opts) c1 of
                  (Some e, c2) \<Rightarrow> (Fail e, c2)
                | (None, c2) \<Rightarrow>
                    (case on_log (ipvs_UpdateService E (ip_String (so_host opts)) (so_Port opts)
                        (so_Protocol opts) (so_Method opts) (service_flags opts)) c2 of
                       (Some e, c3) \<Rightarrow> (Fail ErrIpvsSyscallFailed, c3)
                     | (None, c3) \<Rightarrow>
                         let c4 = put_service vsID opts c3;
                             (_, c5) = on_log (disco_Expose E (cx_disco c4) vsID (ip_String (so_host opts)) (so_Port opts)) c4
                         in (Ok (), c5)))))"

section \<open>Backends\<close>

definition put_backend :: "string \<Rightarrow> backend \<Rightarrow> ctx \<Rightarrow> ctx" where
  "put_backend rsID b c = c\<lparr>cx_backends := gput rsID b (cx_backends c)\<rparr>"

definition start_loop :: "ID \<Rightarrow> Pulse \<Rightarrow> ctx \<Rightarrow> ctx" where
  "start_loop i p c = c\<lparr>cx_next := Suc (cx_next c), cx_loops := (i, p) # cx_loops c\<rparr>"

definition store_backend ::
  "env \<Rightarrow> string \<Rightarrow> string \<Rightarrow> BackendOptions \<Rightarrow> ctx \<Rightarrow> (error option \<times> BackendOptions) \<times> ctx" where
  "store_backend E vsID rsID opts c = (case cx_store c of None \<Rightarrow> ((None, opts), c)
     | Some s \<Rightarrow> on_log (store_CreateBackend E s vsID rsID opts) c)"

definition createBackend :: "env \<Rightarrow> string \<Rightarrow> string \<Rightarrow> BackendOptions \<Rightarrow> ctx \<Rightarrow> unit outcome \<times> ctx" where
  "createBackend E vsID rsID opts0 c0 =
     (case on_log (backend_Fill E opts0) c0 of
        (Inl e, c1) \<Rightarrow> (Fail e, c1)
      | (Inr opts1, c1) \<Rightarrow>
          (case pulse_New E (cx_log c1) (cx_next c1) (ip_String (bo_host opts1)) (bo_Port opts1)
              (case bo_Pulse opts1 of None \<Rightarrow> zero_PulseOptions | Some po \<Rightarrow> po) of
             Fail e \<Rightarrow> (Fail e, c1)
           | Panic \<Rightarrow> (Panic, c1)
           | Ok (p, po) \<Rightarrow>
               if gget (cx_backends c1) rsID \<noteq> None then (Fail ErrObjectExists, c1)
               else (case gget (cx_services c1) vsID of
                  None \<Rightarrow> (Fail ErrObjectNotFound, c1)
                | Some vs \<Rightarrow>
                    if AddrFamily (bo_host opts1) \<noteq> AddrFamily (so_host (s_options vs))
                    then (Fail ErrIncompatibleAFs, c1)
                    else (case store_backend E vsID rsID (opts1\<lparr>bo_Pulse := Some po\<rparr>) c1 of
                       ((Some e, _), c2) \<Rightarrow> (Fail e, c2)
                     | ((None, opts), c2) \<Rightarrow>
                         (case on_log (ipvs_AddDestPort E (ip_String (so_host (s_options vs))) (so_Port (s_options vs))
                             (ip_String (bo_host opts)) (bo_Port opts) (so_Protocol (s_options vs))
                             (bo_Weight opts) (bo_Method opts)) c2 of
                            (Some e, c3) \<Rightarrow> (Fail ErrIpvsSyscallFailed, c3)
                          | (None, c3) \<Rightarrow>
                              let c4 = put_backend rsID \<lparr>b_options = opts, b_service = vs, b_monitor = p,
                                         b_metrics = zero_Metrics\<rparr> c3
                              in (Ok (), start_loop \<lparr>VsID = vsID, RsID = rsID\<rparr> p c4))))))"

definition updateBackend :: "env \<Rightarrow> string \<Rightarrow> string \<Rightarrow> u32 \<Rightarrow> ctx \<Rightarrow> u32 outcome \<times> ctx" where
  "updateBackend E vsID rsID weight c0 =
     (case gget (cx_backends c0) rsID of None \<Rightarrow> (Fail ErrObjectNotFound, c0)
      | Some rs \<Rightarrow>
          (case on_log (ipvs_UpdateDestPort E (ip_String (so_host (s_options (b_service rs))))
              (so_Port (s_options (b_service rs))) (ip_String (bo_host (b_options rs))) (bo_Port (b_options rs))
              (so_Protocol (s_options (b_service rs))) weight (bo_Method (b_options rs))) c0 of
             (Some e, c1) \<Rightarrow> (Fail ErrIpvsSyscallFailed, c1)
           | (None, c1) \<Rightarrow> (Ok (bo_Weight (b_options rs)),
               put_backend rsID (rs\<lparr>b_options := b_options rs\<lparr>bo_Weight := weight\<rparr>\<rparr>) c1)))"

text \<open>\<open>Pulse.Stop\<close> closes the stop channel.\<close>

definition pulse_Stop :: "Pulse \<Rightarrow> ctx \<Rightarrow> unit outcome \<times> ctx" where
  "pulse_Stop p c = (if p_stopCh p \<in> set (cx_closed c) then (Panic, c)
     else (Ok (), c\<lparr>cx_closed := p_stopCh p # cx_closed c\<rparr>))"

definition del_backend :: "string \<Rightarrow> ctx \<Rightarrow> ctx" where
  "del_backend rsID c = c\<lparr>cx_backends := gdel rsID (cx_backends c)\<rparr>"

section \<open>Removal\<close>

text \<open>The loop of \<open>removeService\<close> over the backends of the service object \<open>vs\<close>.\<close>

fun clean_backends :: "env \<Rightarrow> service \<Rightarrow> string list \<Rightarrow> ctx \<Rightarrow> unit outcome \<times> ctx" where
  "clean_backends E vs [] c = (Ok (), c)"
| "clean_backends E vs (rsID # ks) c =
     (case gget (cx_backends c) rsID of None \<Rightarrow> clean_backends E vs ks c
      | Some b \<Rightarrow> if s_addr (b_service b) \<noteq> s_addr vs then clean_backends E vs ks c
          else (case pulse_Stop (b_monitor b) c of
             (Ok _, c1) \<Rightarrow> clean_backends E vs ks
                 (snd (with_store (\<lambda>s. store_RemoveBackend E s rsID) (del_backend rsID c1)))
           | (r, c1) \<Rightarrow> (r, c1)))"

definition removeService :: "env \<Rightarrow> string \<Rightarrow> ctx \<Rightarrow> ServiceOptions outcome \<times> ctx" where
  "removeService E vsID c0 =
     (case gget (cx_services c0) vsID of None \<Rightarrow> (Fail ErrObjectNotFound, c0)
      | Some vs \<Rightarrow>
          let c1 = c0\<lparr>cx_services := gdel vsID (cx_services c0)\<rparr>;
              c2 = del_vip E (s_options vs) c1
          in (case on_log (ipvs_DelService E (ip_String (so_host (s_options vs))) (so_Port (s_options vs))
                  (so_Protocol (s_options vs))) c2 of
                (Some e, c3) \<Rightarrow> (Fail ErrIpvsSyscallFailed, c3)
              | (None, c3) \<Rightarrow>
                  let (_, c4) = with_store (\<lambda>s. store_RemoveService E s vsID) c3
                  in (case clean_backends E vs (range_keys E (cx_log c4) (cx_backends c4)) c4 of
                        (Ok _, c5) \<Rightarrow> (Ok (s_options vs), snd (on_log (disco_Remove E (cx_disco c5) vsID) c5))
                      | (Fail e, c5) \<Rightarrow> (Fail e, c5)
                      | (Panic, c5) \<Rightarrow> (Panic, c5))))"

definition removeBackend :: "env \<Rightarrow> string \<Rightarrow> string \<Rightarrow> ctx \<Rightarrow> BackendOptions outcome \<times> ctx" where
  "removeBackend E vsID rsID c0 =
     (case gget (cx_backends c0) rsID of None \<Rightarrow> (Fail ErrObjectNotFound, c0)
      | Some rs \<Rightarrow>
          let (_, c1) = with_store (\<lambda>s. store_RemoveBackend E s rsID) c0
          in (case pulse_Stop (b_monitor rs) c1 of
                (Ok _, c2) \<Rightarrow>
                  (case on_log (ipvs_DelDestPort E (ip_String (so_host (s_options (b_service rs))))
                      (so_Port (s_options (b_service rs))) (ip_String (bo_host (b_options rs)))
                      (bo_Port (b_options rs)) (so_Protocol (s_options (b_service rs)))) c2 of
                     (Some e, c3) \<Rightarrow> (Fail ErrIpvsSyscallFailed, c3)
                   | (None, c3) \<Rightarrow> (Ok (b_options rs), del_backend rsID c3))
              | (Fail e, c2) \<Rightarrow> (Fail e, c2)
              | (Panic, c2) \<Rightarrow> (Panic, c2)))"

section \<open>Queries\<close>

record ServiceInfo =
  si_Options :: ServiceOptions
  si_Health :: rat
  si_Backends :: "string list"

record BackendInfo =
  bi_Options :: BackendOptions
  bi_Metrics :: Metrics

definition ListServices :: "env \<Rightarrow> ctx \<Rightarrow> string list" where
  "ListServices E c = range_keys E (cx_log c) (cx_services c)"

text \<open>One turn of the loop of \<open>GetService\<close>: the backends found, and the sum of their health.\<close>

definition visit_backend :: "ctx \<Rightarrow> service \<Rightarrow> string list \<times> rat \<Rightarrow> string \<Rightarrow> string list \<times> rat" where
  "visit_backend c vs acc rsID = (case gget (cx_backends c) rsID of None \<Rightarrow> acc
     | Some b \<Rightarrow> if s_addr (b_service b) \<noteq> s_addr vs then acc
         else (fst acc @ [rsID], fl64 (snd acc + m_Health (b_metrics b))))"

definition GetService :: "env \<Rightarrow> string \<Rightarrow> ctx \<Rightarrow> error + ServiceInfo" where
  "GetService E vsID c = (case gget (cx_services c) vsID of None \<Rightarrow> Inl ErrObjectNotFound
     | Some vs \<Rightarrow>
         let (bs, h) = foldl (visit_backend c vs) ([], 0) (range_keys E (cx_log c) (cx_backends c))
         in Inr \<lparr>si_Options = s_options vs,
                 si_Health = (if length bs = 0 then 1 else fl64 (h / of_nat (length bs))),
                 si_Backends = bs\<rparr>)"

definition GetBackend :: "string \<Rightarrow> string \<Rightarrow> ctx \<Rightarrow> error + BackendInfo" where
  "GetBackend vsID rsID c = (case gget (cx_backends c) rsID of None \<Rightarrow> Inl ErrObjectNotFound
     | Some rs \<Rightarrow> Inr \<lparr>bi_Options = b_options rs, bi_Metrics = b_metrics rs\<rparr>)"

definition SetStore :: "Store \<Rightarrow> ctx \<Rightarrow> ctx" where
  "SetStore s c = c\<lparr>cx_store := Some s\<rparr>"

section \<open>Start and end\<close>

fun remove_services :: "env \<Rightarrow> string list \<Rightarrow> ctx \<Rightarrow> unit outcome \<times> ctx" where
  "remove_services E [] c = (Ok (), c)"
| "remove_services E (vsID # ks) c =
     (case removeService E vsID c of
        (Panic, c') \<Rightarrow> (Panic, c')
      | (_, c') \<Rightarrow> remove_services E ks c')"

definition ctx_Close :: "env \<Rightarrow> ctx \<Rightarrow> unit outcome \<times> ctx" where
  "ctx_Close E c = (if cx_stopped c then (Panic, c)
     else let c1 = c\<lparr>cx_stopped := True\<rparr>
          in remove_services E (range_keys E (cx_log c1) (cx_services c1)) c1)"

definition new_ctx :: "log \<Rightarrow> ctx" where
  "new_ctx l = \<lparr>cx_endpoint = [], cx_services = gempty, cx_backends = gempty, cx_disco = NoopDriver,
     cx_vipInterface = None, cx_store = None, cx_stopped = False, cx_closed = [], cx_next = 0,
     cx_loops = [], cx_log = l\<rparr>"

text \<open>
  The steps of \<open>NewContext\<close>: the discovery driver, the announcement of the REST service, and the
  interface for the virtual addresses.  A failed step closes the context it leaves behind; the
  link is set before its error is looked at, which \<open>Close\<close> of a context without services does
  not notice.
\<close>

definition new_disco :: "env \<Rightarrow> ContextOptions \<Rightarrow> disco_driver outcome" where
  "new_disco E options = (if 0 < length (co_Disco options)
     then disco_New E \<lparr>dt_Type = ''consul'', dt_Args = gput ''URL'' (JStr (co_Disco options)) gempty\<rparr>
     else disco_New E \<lparr>dt_Type = ''none'', dt_Args = gempty\<rparr>)"

definition new_announce :: "env \<Rightarrow> ContextOptions \<Rightarrow> ctx \<Rightarrow> ctx" where
  "new_announce E options c = (case co_Endpoints options of [] \<Rightarrow> c
     | ep # _ \<Rightarrow> if co_ListenPort options \<noteq> 0
         then snd (on_log (disco_Expose E (cx_disco c) ''gorb'' (ip_String ep) (co_ListenPort options))
                (c\<lparr>cx_endpoint := ep\<rparr>))
         else c\<lparr>cx_endpoint := ep\<rparr>)"

definition close_with :: "env \<Rightarrow> error \<Rightarrow> ctx \<Rightarrow> unit outcome \<times> ctx" where
  "close_with E e c = (case ctx_Close E c of (Panic, c') \<Rightarrow> (Panic, c') | (_, c') \<Rightarrow> (Fail e, c'))"

definition new_link :: "env \<Rightarrow> ContextOptions \<Rightarrow> ctx \<Rightarrow> unit outcome \<times> ctx" where
  "new_link E options c = (if co_VipInterface options \<noteq> [] then
       (case linkByName E (co_VipInterface options) of
          Inl e \<Rightarrow> close_with E (ErrExternal (''unable to find the interface '' @ [CHR 0x27] @ co_VipInterface options @
              [CHR 0x27] @ '' for VIPs: '' @ e)) c
        | Inr ifName \<Rightarrow> (Ok (), c\<lparr>cx_vipInterface := Some ifName\<rparr>))
     else (Ok (), c))"

definition NewContext :: "env \<Rightarrow> ContextOptions \<Rightarrow> log \<Rightarrow> unit outcome \<times> ctx" where
  "NewContext E options l =
     (case new_disco E options of
        Fail e \<Rightarrow> (Fail e, new_ctx l)
      | Panic \<Rightarrow> (Panic, new_ctx l)
      | Ok d \<Rightarrow>
          (case on_log (ipvs_Init E) (new_announce E options ((new_ctx l)\<lparr>cx_disco := d\<rparr>)) of
             (Some e, c) \<Rightarrow> (Fail ErrIpvsSyscallFailed, c)
           | (None, c) \<Rightarrow>
               if co_Flush options then
                 (case on_log (ipvs_Flush E) c of
                    (Some e, c') \<Rightarrow> close_with E ErrIpvsSyscallFailed c'
                  | (None, c') \<Rightarrow> new_link E options c')
               else new_link E options c))"

section \<open>Synchronization with the store\<close>

text \<open>The four loops; each takes the keys in the order its \<open>range\<close> visits them.\<close>

fun sync_del_services :: "env \<Rightarrow> ServiceOptions gomap \<Rightarrow> string list \<Rightarrow> ctx \<Rightarrow> unit outcome \<times> ctx" where
  "sync_del_services E ext [] c = (Ok (), c)"
| "sync_del_services E ext (k # ks) c =
     (if gget ext k = None then
        (case removeService E k c of (Panic, c') \<Rightarrow> (Panic, c') | (_, c') \<Rightarrow> sync_del_services E ext ks c')
      else sync_del_services E ext ks c)"

definition sync_service :: "env \<Rightarrow> string \<Rightarrow> ServiceOptions \<Rightarrow> ctx \<Rightarrow> unit outcome \<times> ctx" where
  "sync_service E k opts c =
     (case gget (cx_services c) k of
        None \<Rightarrow> createService E k opts c
      | Some s \<Rightarrow> if service_Compare (s_options s) opts then (Ok (), c)
          else (case removeService E k c of (Panic, c') \<Rightarrow> (Panic, c') | (_, c') \<Rightarrow> createService E k opts c'))"

fun sync_add_services :: "env \<Rightarrow> ServiceOptions gomap \<Rightarrow> string list \<Rightarrow> ctx \<Rightarrow> unit outcome \<times> ctx" where
  "sync_add_services E ext [] c = (Ok (), c)"
| "sync_add_services E ext (k # ks) c =
     (case gget ext k of None \<Rightarrow> sync_add_services E ext ks c
      | Some opts \<Rightarrow> (case sync_service E k opts c of
          (Panic, c') \<Rightarrow> (Panic, c') | (_, c') \<Rightarrow> sync_add_services E ext ks c'))"

fun sync_del_backends :: "env \<Rightarrow> BackendOptions gomap \<Rightarrow> string list \<Rightarrow> ctx \<Rightarrow> unit outcome \<times> ctx" where
  "sync_del_backends E ext [] c = (Ok (), c)"
| "sync_del_backends E ext (k # ks) c =
     (case gget (cx_backends c) k of None \<Rightarrow> sync_del_backends E ext ks c
      | Some b \<Rightarrow>
          if gget ext k = None then
            (case removeBackend E (if 0 < length (bo_VsID (b_options b)) then bo_VsID (b_options b) else ''(unknown)'') k c of
               (Panic, c') \<Rightarrow> (Panic, c') | (_, c') \<Rightarrow> sync_del_backends E ext ks c')
          else sync_del_backends E ext ks c)"

definition sync_backend :: "env \<Rightarrow> string \<Rightarrow> BackendOptions \<Rightarrow> ctx \<Rightarrow> unit outcome \<times> ctx" where
  "sync_backend E k opts c =
     (case gget (cx_backends c) k of
        None \<Rightarrow> createBackend E (bo_VsID opts) k opts c
      | Some b \<Rightarrow> if backend_Compare (b_options b) opts then (Ok (), c)
          else (case removeBackend E (bo_VsID opts) k c of
             (Panic, c') \<Rightarrow> (Panic, c') | (_, c') \<Rightarrow> createBackend E (bo_VsID opts) k opts c'))"

fun sync_add_backends :: "env \<Rightarrow> BackendOptions gomap \<Rightarrow> string list \<Rightarrow> ctx \<Rightarrow> unit outcome \<times> ctx" where
  "sync_add_backends E ext [] c = (Ok (), c)"
| "sync_add_backends E ext (k # ks) c =
     (case gget ext k of None \<Rightarrow> sync_add_backends E ext ks c
      | Some opts \<Rightarrow> (case sync_backend E k opts c of
          (Panic, c') \<Rightarrow> (Panic, c') | (_, c') \<Rightarrow> sync_add_backends E ext ks c'))"

text \<open>A loop runs unless one before it panicked.\<close>

definition and_then :: "unit outcome \<times> ctx \<Rightarrow> (ctx \<Rightarrow> unit outcome \<times> ctx) \<Rightarrow> unit outcome \<times> ctx" where
  "and_then r f = (case r of (Panic, c) \<Rightarrow> (Panic, c) | (_, c) \<Rightarrow> f c)"

definition Synchronize ::
  "env \<Rightarrow> ServiceOptions gomap \<Rightarrow> BackendOptions gomap \<Rightarrow> ctx \<Rightarrow> unit outcome \<times> ctx" where
  "Synchronize E storeServices storeBackends c =
     and_then (and_then (and_then
       (sync_del_services E storeServices (range_keys E (cx_log c) (cx_services c)) c)
       (\<lambda>c. sync_add_services E storeServices (range_keys E (cx_log c) storeServices) c))
       (\<lambda>c. sync_del_backends E storeBackends (range_keys E (cx_log c) (cx_backends c)) c))
       (\<lambda>c. sync_add_backends E storeBackends (range_keys E (cx_log c) storeBackends) c)"

end
