(* ===== verification/Gorb_Invariant.thy ===== *)
theory Gorb_Invariant
  imports Gorb_Context
begin

text \<open>
  The well-formedness of a context, and what each operation of \<open>Gorb_Context\<close> does to the
  state, as case rules: a step that is \<open>quiet\<close> adds events to the log and changes neither the
  maps nor the kernel's table.
\<close>

section \<open>Fields after an elementary change\<close>

definition drop_service :: "string \<Rightarrow> ctx \<Rightarrow> ctx" where
  "drop_service vsID c = c\<lparr>cx_services := gdel vsID (cx_services c)\<rparr>"

definition stop_backend :: "backend \<Rightarrow> ctx \<Rightarrow> ctx" where
  "stop_backend b c = c\<lparr>cx_closed := p_stopCh (b_monitor b) # cx_closed c\<rparr>"

lemma put_service_sel [simp]:
  "cx_endpoint (put_service i opts c) = cx_endpoint c"
  "cx_services (put_service i opts c) = gput i \<lparr>s_addr = cx_next c, s_options = opts\<rparr> (cx_services c)"
  "cx_backends (put_service i opts c) = cx_backends c"
  "cx_disco (put_service i opts c) = cx_disco c"
  "cx_vipInterface (put_service i opts c) = cx_vipInterface c"
  "cx_store (put_service i opts c) = cx_store c"
  "cx_stopped (put_service i opts c) = cx_stopped c"
  "cx_closed (put_service i opts c) = cx_closed c"
  "cx_next (put_service i opts c) = Suc (cx_next c)"
  "cx_loops (put_service i opts c) = cx_loops c" "cx_log (put_service i opts c) = cx_log c"
  by (simp_all add: put_service_def)

lemma drop_service_sel [simp]:
  "cx_endpoint (drop_service i c) = cx_endpoint c"
  "cx_services (drop_service i c) = gdel i (cx_services c)"
  "cx_backends (drop_service i c) = cx_backends c" "cx_disco (drop_service i c) = cx_disco c"
  "cx_vipInterface (drop_service i c) = cx_vipInterface c"
  "cx_store (drop_service i c) = cx_store c" "cx_stopped (drop_service i c) = cx_stopped c"
  "cx_closed (drop_service i c) = cx_closed c" "cx_next (drop_service i c) = cx_next c"
  "cx_loops (drop_service i c) = cx_loops c" "cx_log (drop_service i c) = cx_log c"
  by (simp_all add: drop_service_def)

lemma put_backend_sel [simp]:
  "cx_endpoint (put_backend k b c) = cx_endpoint c"
  "cx_services (put_backend k b c) = cx_services c"
  "cx_backends (put_backend k b c) = gput k b (cx_backends c)"
  "cx_disco (put_backend k b c) = cx_disco c"
  "cx_vipInterface (put_backend k b c) = cx_vipInterface c"
  "cx_store (put_backend k b c) = cx_store c" "cx_stopped (put_backend k b c) = cx_stopped c"
  "cx_closed (put_backend k b c) = cx_closed c" "cx_next (put_backend k b c) = cx_next c"
  "cx_loops (put_backend k b c) = cx_loops c" "cx_log (put_backend k b c) = cx_log c"
  by (simp_all add: put_backend_def)

lemma del_backend_sel [simp]:
  "cx_endpoint (del_backend k c) = cx_endpoint c" "cx_services (del_backend k c) = cx_services c"
  "cx_backends (del_backend k c) = gdel k (cx_backends c)"
  "cx_disco (del_backend k c) = cx_disco c"
  "cx_vipInterface (del_backend k c) = cx_vipInterface c"
  "cx_store (del_backend k c) = cx_store c" "cx_stopped (del_backend k c) = cx_stopped c"
  "cx_closed (del_backend k c) = cx_closed c" "cx_next (del_backend k c) = cx_next c"
  "cx_loops (del_backend k c) = cx_loops c" "cx_log (del_backend k c) = cx_log c"
  by (simp_all add: del_backend_def)

lemma stop_backend_sel [simp]:
  "cx_endpoint (stop_backend b c) = cx_endpoint c"
  "cx_services (stop_backend b c) = cx_services c"
  "cx_backends (stop_backend b c) = cx_backends c" "cx_disco (stop_backend b c) = cx_disco c"
  "cx_vipInterface (stop_backend b c) = cx_vipInterface c"
  "cx_store (stop_backend b c) = cx_store c" "cx_stopped (stop_backend b c) = cx_stopped c"
  "cx_closed (stop_backend b c) = p_stopCh (b_monitor b) # cx_closed c"
  "cx_next (stop_backend b c) = cx_next c" "cx_loops (stop_backend b c) = cx_loops c"
  "cx_log (stop_backend b c) = cx_log c"
  by (simp_all add: stop_backend_def)

lemma start_loop_sel [simp]:
  "cx_endpoint (start_loop i p c) = cx_endpoint c"
  "cx_services (start_loop i p c) = cx_services c"
  "cx_backends (start_loop i p c) = cx_backends c" "cx_disco (start_loop i p c) = cx_disco c"
  "cx_vipInterface (start_loop i p c) = cx_vipInterface c"
  "cx_store (start_loop i p c) = cx_store c" "cx_stopped (start_loop i p c) = cx_stopped c"
  "cx_closed (start_loop i p c) = cx_closed c" "cx_next (start_loop i p c) = Suc (cx_next c)"
  "cx_loops (start_loop i p c) = (i, p) # cx_loops c" "cx_log (start_loop i p c) = cx_log c"
  by (simp_all add: start_loop_def)

section \<open>Quiet steps\<close>

definition quiet :: "ctx \<Rightarrow> ctx \<Rightarrow> bool" where
  "quiet c c' \<longleftrightarrow> (\<exists>l'. c' = c\<lparr>cx_log := l'\<rparr> \<and> ipvs_table l' = ipvs_table (cx_log c))"

lemma quiet_refl [intro]: "quiet c c"
  unfolding quiet_def by (rule exI [of _ "cx_log c"]) simp

lemma quiet_trans [trans]: "quiet c c' \<Longrightarrow> quiet c' c'' \<Longrightarrow> quiet c c''"
  by (auto simp: quiet_def)

lemma quiet_sel:
  assumes "quiet c c'"
  shows "cx_endpoint c' = cx_endpoint c" "cx_services c' = cx_services c" "cx_backends c' = cx_backends c"
    "cx_disco c' = cx_disco c" "cx_vipInterface c' = cx_vipInterface c" "cx_store c' = cx_store c"
    "cx_stopped c' = cx_stopped c" "cx_closed c' = cx_closed c" "cx_next c' = cx_next c"
    "cx_loops c' = cx_loops c" "ipvs_table (cx_log c') = ipvs_table (cx_log c)"
  using assms by (auto simp: quiet_def)

lemma on_log_eq: "on_log f c = (r, c') \<longleftrightarrow> (\<exists>l'. f (cx_log c) = (r, l') \<and> c' = c\<lparr>cx_log := l'\<rparr>)"
  by (auto simp: on_log_def split: prod.splits)

lemma on_log_quiet:
  "on_log f c = (r, c') \<Longrightarrow> (\<And>l. ipvs_table (snd (f l)) = ipvs_table l) \<Longrightarrow> quiet c c'"
  by (auto simp: on_log_eq quiet_def) (metis snd_conv)

lemma on_log_quiet_snd: "(\<And>l. ipvs_table (snd (f l)) = ipvs_table l) \<Longrightarrow> quiet c (snd (on_log f c))"
  using on_log_quiet [of f c "fst (on_log f c)" "snd (on_log f c)"] by simp

lemma with_store_quiet:
  "(\<And>s l. ipvs_table (snd (f s l)) = ipvs_table l) \<Longrightarrow> with_store f c = (r, c') \<Longrightarrow> quiet c c'"
  by (auto simp: with_store_def intro: on_log_quiet split: option.splits)

lemma with_store_quiet_snd:
  "(\<And>s l. ipvs_table (snd (f s l)) = ipvs_table l) \<Longrightarrow> quiet c (snd (with_store f c))"
  by (auto simp: with_store_def intro: on_log_quiet_snd split: option.splits)

lemma addr_table [simp]: "ipvs_table (snd (addr_call E r l)) = ipvs_table l"
  by (simp add: addr_call_def Let_def)

lemma add_vip_quiet:
  "add_vip E opts c = (opts', c') \<Longrightarrow>
     quiet c c' \<and> (opts' = opts \<or> cx_vipInterface c \<noteq> None \<and> opts' = opts\<lparr>so_delIfAddr := True\<rparr>)"
  by (auto simp: add_vip_def intro: on_log_quiet split: option.splits prod.splits)

lemma del_vip_quiet: "quiet c (del_vip E opts c)"
  by (auto simp: del_vip_def intro: on_log_quiet_snd split: option.splits)

lemma store_backend_quiet:
  "store_backend E vsID rsID opts c = ((e, opts'), c') \<Longrightarrow>
     quiet c c' \<and> (opts' = opts \<or> cx_store c \<noteq> None \<and> opts' = opts\<lparr>bo_VsID := vsID\<rparr>)"
  by (auto simp: store_backend_def on_log_eq store_CreateBackend_def Let_def
      intro: on_log_quiet split: option.splits prod.splits)
    (metis quiet_def snd_conv store_put_table)

text \<open>A call of the shim that fails changes nothing.\<close>

lemma shim_fail_quiet:
  "on_log (ipvs_AddService E v p pr s fs) c = (Some e, c') \<Longrightarrow> quiet c c'"
  "on_log (ipvs_UpdateService E v p pr s fs) c = (Some e, c') \<Longrightarrow> quiet c c'"
  "on_log (ipvs_DelService E v p pr) c = (Some e, c') \<Longrightarrow> quiet c c'"
  "on_log (ipvs_AddDestPort E v p r rp pr w f) c = (Some e, c') \<Longrightarrow> quiet c c'"
  "on_log (ipvs_UpdateDestPort E v p r rp pr w f) c = (Some e, c') \<Longrightarrow> quiet c c'"
  "on_log (ipvs_DelDestPort E v p r rp pr) c = (Some e, c') \<Longrightarrow> quiet c c'"
  by (auto simp: on_log_eq quiet_def dest: shim.add_service_fail shim.update_service_fail
      shim.del_service_fail shim.add_dest_fail shim.update_dest_fail shim.del_dest_fail)

text \<open>A call that succeeds changes the log, and the table as the interface says.\<close>

definition logged_to :: "ctx \<Rightarrow> vtable \<Rightarrow> ctx \<Rightarrow> bool" where
  "logged_to c t c' \<longleftrightarrow> (\<exists>l'. c' = c\<lparr>cx_log := l'\<rparr> \<and> ipvs_table l' = t)"

lemma logged_to_sel:
  assumes "logged_to c t c'"
  shows "cx_endpoint c' = cx_endpoint c" "cx_services c' = cx_services c" "cx_backends c' = cx_backends c"
    "cx_disco c' = cx_disco c" "cx_vipInterface c' = cx_vipInterface c" "cx_store c' = cx_store c"
    "cx_stopped c' = cx_stopped c" "cx_closed c' = cx_closed c" "cx_next c' = cx_next c"
    "cx_loops c' = cx_loops c" "ipvs_table (cx_log c') = t"
  using assms by (auto simp: logged_to_def)

definition svc_vkey :: "service \<Rightarrow> vkey" where
  "svc_vkey s = vkey_of (ip_String (so_host (s_options s))) (so_Port (s_options s)) (so_Protocol (s_options s))"

definition opts_vkey :: "ServiceOptions \<Rightarrow> vkey" where
  "opts_vkey opts = vkey_of (ip_String (so_host opts)) (so_Port opts) (so_Protocol opts)"

definition bck_rkey :: "BackendOptions \<Rightarrow> rkey" where
  "bck_rkey opts = rkey_of (ip_String (bo_host opts)) (bo_Port opts)"

lemma svc_vkey_opts: "svc_vkey s = opts_vkey (s_options s)"
  by (simp add: svc_vkey_def opts_vkey_def)

lemma opts_vkey_delIfAddr [simp]: "opts_vkey (opts\<lparr>so_delIfAddr := b\<rparr>) = opts_vkey opts"
  by (simp add: opts_vkey_def)

lemma service_flags_delIfAddr [simp]: "service_flags (opts\<lparr>so_delIfAddr := b\<rparr>) = service_flags opts"
  by (simp add: service_flags_def)

lemma service_filled_delIfAddr [simp]:
  "service_filled E (opts\<lparr>so_delIfAddr := b\<rparr>) = service_filled E opts"
  by (simp add: service_filled_def)

lemma service_Compare_delIfAddr [simp]:
  "service_Compare (opts\<lparr>so_delIfAddr := b\<rparr>) opts' = service_Compare opts opts'"
  by (simp add: service_Compare_def)

section \<open>What an operation does\<close>

text \<open>The kernel's table after each of the successful calls.\<close>

definition table_add :: "env \<Rightarrow> ServiceOptions \<Rightarrow> vtable \<Rightarrow> vtable" where
  "table_add E opts t = t(opts_vkey opts \<mapsto> \<lparr>vs_sched = so_Method opts,
     vs_flags = createFlagbits (libconsts E) (service_flags opts), vs_dests = Map.empty\<rparr>)"

definition table_upd :: "env \<Rightarrow> ServiceOptions \<Rightarrow> vtable \<Rightarrow> vtable" where
  "table_upd E opts t = on_vservice (opts_vkey opts)
     (\<lambda>x. x\<lparr>vs_sched := so_Method opts, vs_flags := createFlagbits (libconsts E) (service_flags opts)\<rparr>) t"

definition table_dest :: "ServiceOptions \<Rightarrow> rkey \<Rightarrow> (u32 \<times> u32) option \<Rightarrow> vtable \<Rightarrow> vtable" where
  "table_dest so r d t = on_vservice (opts_vkey so) (\<lambda>x. x\<lparr>vs_dests := (vs_dests x)(r := d)\<rparr>) t"

lemma createService_cases:
  assumes "createService E vsID opts0 c = (r, c')"
  obtains (fail) e where "r = Fail e" "quiet c c'"
  | (ok) c1 c2 l2 opts1 opts where "r = Ok ()" "gget (cx_services c) vsID = None"
      "service_Fill E (cx_endpoint c) opts0 (cx_log c) = (Inr opts1, l2)" "opts \<in> {opts1, opts1\<lparr>so_delIfAddr := True\<rparr>}"
      "quiet c c1" "ipvs_AddService E (ip_String (so_host opts)) (so_Port opts) (so_Protocol opts)
         (so_Method opts) (service_flags opts) (cx_log c1) = (None, cx_log c2)"
      "logged_to c1 (table_add E opts (ipvs_table (cx_log c1))) c2" "quiet (put_service vsID opts c2) c'"
proof -
  obtain f c1 where f: "on_log (service_Fill E (cx_endpoint c) opts0) c = (f, c1)" by force
  then have q1: "quiet c c1" by (rule on_log_quiet) simp
  show thesis
  proof (cases f)
    case (Inl e)
    with assms f q1 fail show thesis by (auto simp: createService_def)
  next
    case (Inr opts1)
    obtain opts c2 where v: "add_vip E opts1 c1 = (opts, c2)" by force
    note v' = add_vip_quiet [OF v]
    obtain es c3 where s: "with_store (\<lambda>s. store_CreateService E s vsID opts) c2 = (es, c3)" by force
    then have q3: "quiet c2 c3" by (rule with_store_quiet [rotated]) simp
    note q13 = quiet_trans [OF conjunct1 [OF v'] q3]
    obtain ea c4 where a: "on_log (ipvs_AddService E (ip_String (so_host opts)) (so_Port opts)
        (so_Protocol opts) (so_Method opts) (service_flags opts)) c3 = (ea, c4)" by force
    show thesis
    proof (cases "gget (cx_services c1) vsID = None \<and> es = None \<and> ea = None")
      case True
      obtain x c6 where d: "on_log (disco_Expose E (cx_disco (put_service vsID opts c4)) vsID
          (ip_String (so_host opts)) (so_Port opts)) (put_service vsID opts c4) = (x, c6)" by force
      then have q6: "quiet (put_service vsID opts c4) c6" by (rule on_log_quiet) simp
      have "r = Ok ()" "c' = c6" using assms f Inr v s a d True by (auto simp: createService_def)
      moreover from a True obtain l' where l: "ipvs_AddService E (ip_String (so_host opts)) (so_Port opts)
        (so_Protocol opts) (so_Method opts) (service_flags opts) (cx_log c3) = (None, l')"
        and c4: "c4 = c3\<lparr>cx_log := l'\<rparr>" by (auto simp: on_log_eq)
      ultimately show thesis
        using True q1 q6 f Inr v' quiet_trans [OF q1 q13] shim.add_service_ok [OF l]
        by (intro ok [of opts1 "cx_log c1" opts c3 c4])
          (auto simp: quiet_sel on_log_eq logged_to_def table_add_def opts_vkey_def)
    next
      case False
      have "\<exists>e. r = Fail e \<and> quiet c c'"
        using assms f Inr v s a False q1 quiet_trans [OF q1 q13] shim_fail_quiet(1)
        by (auto simp: createService_def split: if_splits option.splits intro: quiet_trans)
      then show thesis using fail by blast
    qed
  qed
qed


lemma updateService_cases:
  assumes "updateService E vsID opts0 c = (r, c')"
  obtains (fail) e where "r = Fail e" "quiet c c'"
  | (create) c1 opts l where "quiet c c1" "gget (cx_services c) vsID = None"
      "service_Fill E (cx_endpoint c) opts0 (cx_log c) = (Inr opts, l)" "createService E vsID opts c1 = (r, c')"
  | (ok) old c1 c2 opts l where "r = Ok ()" "gget (cx_services c) vsID = Some old"
      "service_Fill E (cx_endpoint c) opts0 (cx_log c) = (Inr opts, l)" "opts_vkey opts = svc_vkey old"
      "ip_String (so_host (s_options old)) = ip_String (so_host opts)"
      "quiet c c1" "logged_to c1 (table_upd E opts (ipvs_table (cx_log c1))) c2"
      "quiet (put_service vsID opts c2) c'"
proof -
  obtain f c1 where f: "on_log (service_Fill E (cx_endpoint c) opts0) c = (f, c1)" by force
  then have q1: "quiet c c1" by (rule on_log_quiet) simp
  show thesis
  proof (cases f)
    case (Inl e)
    with assms f q1 fail show thesis by (auto simp: updateService_def)
  next
    case (Inr opts)
    note sel = quiet_sel [OF q1]
    have fill: "\<exists>l. service_Fill E (cx_endpoint c) opts0 (cx_log c) = (Inr opts, l)"
      using f Inr by (auto simp: on_log_eq)
    show thesis
    proof (cases "gget (cx_services c) vsID")
      case None
      with assms f Inr sel have "createService E vsID opts c1 = (r, c')" by (auto simp: updateService_def)
      with create q1 None fill show thesis by blast
    next
      case (Some old)
      let ?same = "ip_String (so_host (s_options old)) = ip_String (so_host opts) \<and>
        so_Port (s_options old) = so_Port opts \<and> so_Protocol (s_options old) = so_Protocol opts"
      obtain es c2 where s: "with_store (\<lambda>s. store_UpdateService E s vsID opts) c1 = (es, c2)" by force
      then have q2: "quiet c1 c2" by (rule with_store_quiet [rotated]) simp
      obtain ea c3 where a: "on_log (ipvs_UpdateService E (ip_String (so_host opts)) (so_Port opts)
        (so_Protocol opts) (so_Method opts) (service_flags opts)) c2 = (ea, c3)" by force
      show thesis
      proof (cases "?same \<and> es = None \<and> ea = None")
        case True
        obtain x c5 where d: "on_log (disco_Expose E (cx_disco (put_service vsID opts c3)) vsID
          (ip_String (so_host opts)) (so_Port opts)) (put_service vsID opts c3) = (x, c5)" by force
        then have q5: "quiet (put_service vsID opts c3) c5" by (rule on_log_quiet) simp
        have r: "r = Ok ()" "c' = c5"
          using assms f Inr s a d True Some sel by (auto simp: updateService_def)
        from a True have l: "logged_to c2 (table_upd E opts (ipvs_table (cx_log c2))) c3"
          by (auto simp: on_log_eq logged_to_def table_upd_def opts_vkey_def dest: shim.update_service_ok)
        have k: "opts_vkey opts = svc_vkey old"
          "ip_String (so_host (s_options old)) = ip_String (so_host opts)"
          using True by (simp_all add: opts_vkey_def svc_vkey_def)
        from fill obtain l' where "service_Fill E (cx_endpoint c) opts0 (cx_log c) = (Inr opts, l')" ..
        from ok [OF r(1) Some this k quiet_trans [OF q1 q2] l] q5 r(2) show thesis by simp
      next
        case False
        have "\<exists>e. r = Fail e \<and> quiet c c'"
          using assms f Inr s a False q1 sel Some quiet_trans [OF q1 q2] shim_fail_quiet(2)
          by (auto simp: updateService_def split: if_splits option.splits intro: quiet_trans)
        then show thesis using fail by blast
      qed
    qed
  qed
qed

text \<open>What is known of a backend that was put in place.\<close>

definition new_backend :: "env \<Rightarrow> BackendOptions \<Rightarrow> ctx \<Rightarrow> service \<Rightarrow> BackendOptions \<Rightarrow> Pulse \<Rightarrow> bool" where
  "new_backend E opts0 c vs opts p \<longleftrightarrow>
     (\<exists>l' opts1 po. backend_Fill E opts0 (cx_log c) = (Inr opts1, l') \<and>
        pulse_New E l' (cx_next c) (ip_String (bo_host opts1)) (bo_Port opts1)
          (case bo_Pulse opts1 of None \<Rightarrow> zero_PulseOptions | Some po \<Rightarrow> po) = Ok (p, po) \<and>
        (opts = opts1\<lparr>bo_Pulse := Some po\<rparr> \<or> (\<exists>v. opts = opts1\<lparr>bo_Pulse := Some po, bo_VsID := v\<rparr>))) \<and>
     AddrFamily (bo_host opts) = AddrFamily (so_host (s_options vs))"

lemma new_backendI:
  assumes "backend_Fill E opts0 (cx_log c) = (Inr opts1, l')"
    and "pulse_New E l' (cx_next c) (ip_String (bo_host opts1)) (bo_Port opts1)
          (case bo_Pulse opts1 of None \<Rightarrow> zero_PulseOptions | Some po \<Rightarrow> po) = Ok (p, po)"
    and "opts = opts1\<lparr>bo_Pulse := Some po\<rparr> \<or> opts = opts1\<lparr>bo_Pulse := Some po, bo_VsID := v\<rparr>"
    and "AddrFamily (bo_host opts) = AddrFamily (so_host (s_options vs))"
  shows "new_backend E opts0 c vs opts p"
  unfolding new_backend_def using assms by blast

lemma createBackend_cases:
  assumes "createBackend E vsID rsID opts0 c = (r, c')"
  obtains (fail) e where "r = Fail e" "quiet c c'"
  | (panic) "r = Panic" "quiet c c'"
  | (ok) vs opts p c1 c2 where "r = Ok ()" "gget (cx_backends c) rsID = None"
      "gget (cx_services c) vsID = Some vs" "new_backend E opts0 c vs opts p" "quiet c c1"
      "ipvs_AddDestPort E (ip_String (so_host (s_options vs))) (so_Port (s_options vs))
         (ip_String (bo_host opts)) (bo_Port opts) (so_Protocol (s_options vs)) (bo_Weight opts)
         (bo_Method opts) (cx_log c1) = (None, cx_log c2)"
      "logged_to c1 (table_dest (s_options vs) (bck_rkey opts)
         (map_option (\<lambda>f. (f, bo_Weight opts)) (backendForwarding (libconsts E) (bo_Method opts)))
         (ipvs_table (cx_log c1))) c2"
      "c' = start_loop \<lparr>VsID = vsID, RsID = rsID\<rparr> p (put_backend rsID
         \<lparr>b_options = opts, b_service = vs, b_monitor = p, b_metrics = zero_Metrics\<rparr> c2)"
proof -
  obtain f c1 where f: "on_log (backend_Fill E opts0) c = (f, c1)" by force
  then have q1: "quiet c c1" by (rule on_log_quiet) simp
  note sel = quiet_sel [OF q1]
  show thesis
  proof (cases f)
    case (Inl e)
    with assms f q1 fail show thesis by (auto simp: createBackend_def)
  next
    case (Inr opts1)
    let ?n = "pulse_New E (cx_log c1) (cx_next c1) (ip_String (bo_host opts1)) (bo_Port opts1)
              (case bo_Pulse opts1 of None \<Rightarrow> zero_PulseOptions | Some po \<Rightarrow> po)"
    show thesis
    proof (cases "\<exists>p po vs. ?n = Ok (p, po) \<and> gget (cx_backends c1) rsID = None \<and>
        gget (cx_services c1) vsID = Some vs \<and> AddrFamily (bo_host opts1) = AddrFamily (so_host (s_options vs))")
      case False
      then have "(\<exists>e. r = Fail e) \<and> quiet c c' \<or> r = Panic \<and> quiet c c'"
        using assms f Inr q1
        by (auto simp: createBackend_def split: outcome.splits option.splits if_splits)
      then show thesis using fail panic by blast
    next
      case True
      then obtain p po vs where n: "?n = Ok (p, po)" and rs: "gget (cx_backends c1) rsID = None"
        and vs: "gget (cx_services c1) vsID = Some vs"
        and af: "AddrFamily (bo_host opts1) = AddrFamily (so_host (s_options vs))" by blast
      obtain es opts c2 where s: "store_backend E vsID rsID (opts1\<lparr>bo_Pulse := Some po\<rparr>) c1 = ((es, opts), c2)"
        by (metis surj_pair)
      note s' = store_backend_quiet [OF s]
      note q2 = quiet_trans [OF q1 conjunct1 [OF s']]
      obtain ea c3 where a: "on_log (ipvs_AddDestPort E (ip_String (so_host (s_options vs))) (so_Port (s_options vs))
         (ip_String (bo_host opts)) (bo_Port opts) (so_Protocol (s_options vs)) (bo_Weight opts)
         (bo_Method opts)) c2 = (ea, c3)" by force
      show thesis
      proof (cases "es = None \<and> ea = None")
        case False
        then have "\<exists>e. r = Fail e \<and> quiet c c'"
          using assms f Inr n rs vs af s a q2 shim_fail_quiet(4)
          by (auto simp: createBackend_def split: option.splits intro: quiet_trans)
        then show thesis using fail by blast
      next
        case True
        have r: "r = Ok ()" "c' = start_loop \<lparr>VsID = vsID, RsID = rsID\<rparr> p (put_backend rsID
         \<lparr>b_options = opts, b_service = vs, b_monitor = p, b_metrics = zero_Metrics\<rparr> c3)"
          using assms f Inr n rs vs af s a True by (auto simp: createBackend_def)
        from f Inr have "backend_Fill E opts0 (cx_log c) = (Inr opts1, cx_log c1)" by (auto simp: on_log_eq)
        then have nb: "new_backend E opts0 c vs opts p"
          using n s' af by (intro new_backendI [where v = vsID]) (auto simp: sel)
        from a True obtain l2 where l: "ipvs_AddDestPort E (ip_String (so_host (s_options vs))) (so_Port (s_options vs))
           (ip_String (bo_host opts)) (bo_Port opts) (so_Protocol (s_options vs)) (bo_Weight opts)
           (bo_Method opts) (cx_log c2) = (None, l2)" and c3: "c3 = c2\<lparr>cx_log := l2\<rparr>" by (auto simp: on_log_eq)
        have lt: "logged_to c2 (table_dest (s_options vs) (bck_rkey opts)
           (map_option (\<lambda>f. (f, bo_Weight opts)) (backendForwarding (libconsts E) (bo_Method opts)))
           (ipvs_table (cx_log c2))) c3"
          using shim.add_dest_ok [OF l] c3
          by (auto simp: logged_to_def table_dest_def opts_vkey_def bck_rkey_def)
        have g: "gget (cx_backends c) rsID = None" "gget (cx_services c) vsID = Some vs"
          using rs vs by (simp_all add: sel)
        show thesis
          by (rule ok [OF r(1) g nb q2 _ lt r(2)]) (use l c3 in simp)
      qed
    qed
  qed
qed


lemma updateBackend_cases:
  assumes "updateBackend E vsID rsID w c = (r, c')"
  obtains (none) "gget (cx_backends c) rsID = None" "r = Fail ErrObjectNotFound" "c' = c"
  | (fail) b where "gget (cx_backends c) rsID = Some b" "r = Fail ErrIpvsSyscallFailed" "quiet c c'"
  | (ok) b c1 where "gget (cx_backends c) rsID = Some b" "r = Ok (bo_Weight (b_options b))"
      "logged_to c (table_dest (s_options (b_service b)) (bck_rkey (b_options b))
         (map_option (\<lambda>f. (f, w)) (backendForwarding (libconsts E) (bo_Method (b_options b))))
         (ipvs_table (cx_log c))) c1"
      "c' = put_backend rsID (b\<lparr>b_options := b_options b\<lparr>bo_Weight := w\<rparr>\<rparr>) c1"
proof (cases "gget (cx_backends c) rsID")
  case None
  moreover from None have "r = Fail ErrObjectNotFound" "c' = c" using assms by (simp_all add: updateBackend_def)
  ultimately show thesis by (rule none)
next
  case (Some b)
  let ?u = "ipvs_UpdateDestPort E (ip_String (so_host (s_options (b_service b)))) (so_Port (s_options (b_service b)))
     (ip_String (bo_host (b_options b))) (bo_Port (b_options b)) (so_Protocol (s_options (b_service b))) w
     (bo_Method (b_options b))"
  obtain e c1 where a: "on_log ?u c = (e, c1)" by force
  show thesis
  proof (cases e)
    case (Some e')
    with assms a \<open>gget (cx_backends c) rsID = Some b\<close> have "r = Fail ErrIpvsSyscallFailed" "c' = c1"
      by (auto simp: updateBackend_def)
    moreover from a Some have "quiet c c1" by (simp add: shim_fail_quiet(5))
    ultimately show thesis using fail [OF \<open>gget (cx_backends c) rsID = Some b\<close>] by simp
  next
    case None
    then obtain l where u: "?u (cx_log c) = (None, l)" "c1 = c\<lparr>cx_log := l\<rparr>"
      using a by (auto simp: on_log_eq)
    from shim.update_dest_ok [OF u(1)] u(2) have "logged_to c (table_dest (s_options (b_service b)) (bck_rkey (b_options b))
         (map_option (\<lambda>f. (f, w)) (backendForwarding (libconsts E) (bo_Method (b_options b))))
         (ipvs_table (cx_log c))) c1"
      by (auto simp: logged_to_def table_dest_def opts_vkey_def bck_rkey_def)
    moreover have "r = Ok (bo_Weight (b_options b))"
      "c' = put_backend rsID (b\<lparr>b_options := b_options b\<lparr>bo_Weight := w\<rparr>\<rparr>) c1"
      using assms a None Some by (auto simp: updateBackend_def)
    ultimately show thesis using ok [OF Some] by simp
  qed
qed

lemma pulse_Stop_cases:
  "pulse_Stop p c = (if p_stopCh p \<in> set (cx_closed c) then (Panic, c)
     else (Ok (), c\<lparr>cx_closed := p_stopCh p # cx_closed c\<rparr>))"
  by (simp add: pulse_Stop_def)

lemma removeBackend_cases:
  assumes "removeBackend E vsID rsID c = (r, c')"
  obtains (none) "gget (cx_backends c) rsID = None" "r = Fail ErrObjectNotFound" "c' = c"
  | (panic) b where "gget (cx_backends c) rsID = Some b" "p_stopCh (b_monitor b) \<in> set (cx_closed c)"
      "r = Panic" "quiet c c'"
  | (fail) b c1 where "gget (cx_backends c) rsID = Some b" "p_stopCh (b_monitor b) \<notin> set (cx_closed c)"
      "r = Fail ErrIpvsSyscallFailed" "quiet c c1" "quiet (stop_backend b c1) c'"
  | (ok) b c1 c2 where "gget (cx_backends c) rsID = Some b" "p_stopCh (b_monitor b) \<notin> set (cx_closed c)"
      "r = Ok (b_options b)" "quiet c c1"
      "logged_to (stop_backend b c1) (table_dest (s_options (b_service b)) (bck_rkey (b_options b)) None
         (ipvs_table (cx_log c1))) c2" "c' = del_backend rsID c2"
proof (cases "gget (cx_backends c) rsID")
  case None
  moreover from None have "r = Fail ErrObjectNotFound" "c' = c" using assms by (simp_all add: removeBackend_def)
  ultimately show thesis by (rule none)
next
  case (Some b)
  obtain x c1 where s: "with_store (\<lambda>s. store_RemoveBackend E s rsID) c = (x, c1)" by force
  then have q: "quiet c c1" by (rule with_store_quiet [rotated]) simp
  let ?d = "ipvs_DelDestPort E (ip_String (so_host (s_options (b_service b)))) (so_Port (s_options (b_service b)))
     (ip_String (bo_host (b_options b))) (bo_Port (b_options b)) (so_Protocol (s_options (b_service b)))"
  show thesis
  proof (cases "p_stopCh (b_monitor b) \<in> set (cx_closed c)")
    case True
    with assms Some s q panic show thesis
      by (auto simp: removeBackend_def pulse_Stop_cases quiet_sel)
  next
    case False
    obtain e c3 where a: "on_log ?d (stop_backend b c1) = (e, c3)" by force
    show thesis
    proof (cases e)
      case (Some e')
      have "r = Fail ErrIpvsSyscallFailed" "c' = c3"
        using assms a s False \<open>gget (cx_backends c) rsID = Some b\<close> Some
        by (auto simp: removeBackend_def pulse_Stop_cases stop_backend_def quiet_sel [OF q])
      moreover from a Some have "quiet (stop_backend b c1) c3" by (simp add: shim_fail_quiet(6))
      ultimately show thesis using fail [OF \<open>gget (cx_backends c) rsID = Some b\<close> False _ q] by simp
    next
      case None
      then obtain l where l: "?d (cx_log (stop_backend b c1)) = (None, l)" "c3 = stop_backend b c1\<lparr>cx_log := l\<rparr>"
        using a by (auto simp: on_log_eq)
      have "cx_log (stop_backend b c1) = cx_log c1" by (simp add: stop_backend_def)
      then have "logged_to (stop_backend b c1) (table_dest (s_options (b_service b)) (bck_rkey (b_options b)) None
         (ipvs_table (cx_log c1))) c3"
        using l by (auto simp: logged_to_def table_dest_def opts_vkey_def bck_rkey_def dest: shim.del_dest_ok)
      moreover have "r = Ok (b_options b)" "c' = del_backend rsID c3"
        using assms a s False None Some
        by (auto simp: removeBackend_def pulse_Stop_cases stop_backend_def quiet_sel [OF q])
      ultimately show thesis using ok [OF Some False _ q] by simp
    qed
  qed
qed

text \<open>The backends of a service object that the clean-up loop takes away.\<close>

definition cleaned :: "service \<Rightarrow> string set \<Rightarrow> ctx \<Rightarrow> ctx \<Rightarrow> bool" where
  "cleaned vs K c c' \<longleftrightarrow> (\<exists>bk cl l. c' = c\<lparr>cx_backends := bk, cx_closed := cl, cx_log := l\<rparr> \<and>
     ipvs_table l = ipvs_table (cx_log c) \<and>
     (\<forall>k. gget bk k = (if k \<in> K then None else gget (cx_backends c) k)) \<and>
     (\<forall>k \<in> K. \<exists>b. gget (cx_backends c) k = Some b \<and> s_addr (b_service b) = s_addr vs) \<and>
     set cl = set (cx_closed c) \<union> {p_stopCh (b_monitor b) | k b. k \<in> K \<and> gget (cx_backends c) k = Some b})"

lemma cleaned_refl: "cleaned vs {} c c"
  unfolding cleaned_def
  by (rule exI [of _ "cx_backends c"], rule exI [of _ "cx_closed c"], rule exI [of _ "cx_log c"]) simp

lemma cleaned_step:
  assumes "gget (cx_backends c) k = Some b" "s_addr (b_service b) = s_addr vs"
    and "quiet (del_backend k (stop_backend b c)) c1" "cleaned vs K c1 c'"
  shows "cleaned vs (insert k K) c c'"
proof -
  obtain l1 where c1': "c1 = del_backend k (stop_backend b c)\<lparr>cx_log := l1\<rparr>"
    and l1: "ipvs_table l1 = ipvs_table (cx_log c)"
    using assms(3) by (auto simp: quiet_def del_backend_def stop_backend_def)
  have c1: "c1 = c\<lparr>cx_backends := gdel k (cx_backends c),
      cx_closed := p_stopCh (b_monitor b) # cx_closed c, cx_log := l1\<rparr>"
    unfolding c1' del_backend_def stop_backend_def by (cases c) simp
  obtain bk cl l where c': "c' = c1\<lparr>cx_backends := bk, cx_closed := cl, cx_log := l\<rparr>"
    and t: "ipvs_table l = ipvs_table (cx_log c1)"
    and bk: "\<forall>k. gget bk k = (if k \<in> K then None else gget (cx_backends c1) k)"
    and K: "\<forall>k \<in> K. \<exists>b. gget (cx_backends c1) k = Some b \<and> s_addr (b_service b) = s_addr vs"
    and cl: "set cl = set (cx_closed c1) \<union> {p_stopCh (b_monitor b) | k b. k \<in> K \<and> gget (cx_backends c1) k = Some b}"
    using assms(4) unfolding cleaned_def by blast
  have "k \<notin> K" using K c1 by auto
  have "\<forall>k'. gget bk k' = (if k' \<in> insert k K then None else gget (cx_backends c) k')"
    using bk by (simp add: c1)
  moreover have "\<forall>k' \<in> insert k K. \<exists>b. gget (cx_backends c) k' = Some b \<and> s_addr (b_service b) = s_addr vs"
    using K assms(1,2) \<open>k \<notin> K\<close> by (auto simp: c1 split: if_splits)
  moreover have "set cl = set (cx_closed c) \<union>
      {p_stopCh (b_monitor b) | k' b. k' \<in> insert k K \<and> gget (cx_backends c) k' = Some b}"
    using cl assms(1) \<open>k \<notin> K\<close> by (auto simp: c1 split: if_splits)
  moreover have "c' = c\<lparr>cx_backends := bk, cx_closed := cl, cx_log := l\<rparr>" by (simp add: c' c1)
  moreover have "ipvs_table l = ipvs_table (cx_log c)" using t l1 by (simp add: c1)
  ultimately show ?thesis unfolding cleaned_def by blast
qed

lemma clean_backends_effect:
  assumes "clean_backends E vs ks c = (r, c')"
  shows "\<exists>K. cleaned vs K c c' \<and> K \<subseteq> set ks \<and>
    (r = Ok () \<and> (\<forall>k b. k \<in> set ks \<longrightarrow> gget (cx_backends c) k = Some b \<longrightarrow>
       s_addr (b_service b) = s_addr vs \<longrightarrow> k \<in> K) \<or>
     r = Panic \<and> (\<exists>k b. gget (cx_backends c) k = Some b \<and> k \<notin> K \<and>
       s_addr (b_service b) = s_addr vs \<and> p_stopCh (b_monitor b) \<in> set (cx_closed c')))"
  using assms
proof (induction ks arbitrary: c)
  case Nil
  then show ?case using cleaned_refl by auto
next
  case (Cons k ks)
  show ?case
  proof (cases "\<exists>b. gget (cx_backends c) k = Some b \<and> s_addr (b_service b) = s_addr vs")
    case False
    then have "clean_backends E vs ks c = (r, c')"
      using Cons.prems by (auto split: option.splits)
    from Cons.IH [OF this] show ?thesis using False by (auto 0 4)
  next
    case True
    then obtain b where b: "gget (cx_backends c) k = Some b" "s_addr (b_service b) = s_addr vs" by blast
    show ?thesis
    proof (cases "p_stopCh (b_monitor b) \<in> set (cx_closed c)")
      case True
      then have "r = Panic" "c' = c" using Cons.prems b by (simp_all add: pulse_Stop_cases)
      then show ?thesis using cleaned_refl b True by (intro exI [of _ "{}"]) auto
    next
      case False
      let ?c1 = "snd (with_store (\<lambda>s. store_RemoveBackend E s k) (del_backend k (stop_backend b c)))"
      have q: "quiet (del_backend k (stop_backend b c)) ?c1"
        by (rule with_store_quiet_snd) simp
      have bk1: "cx_backends ?c1 = gdel k (cx_backends c)"
        using quiet_sel(3) [OF q] by (simp add: del_backend_def stop_backend_def)
      have "clean_backends E vs ks ?c1 = (r, c')"
        using Cons.prems b False by (simp add: pulse_Stop_cases stop_backend_def)
      from Cons.IH [OF this] obtain K where K: "cleaned vs K ?c1 c'" "K \<subseteq> set ks"
        "r = Ok () \<and> (\<forall>k b. k \<in> set ks \<longrightarrow> gget (cx_backends ?c1) k = Some b \<longrightarrow>
           s_addr (b_service b) = s_addr vs \<longrightarrow> k \<in> K) \<or>
         r = Panic \<and> (\<exists>k b. gget (cx_backends ?c1) k = Some b \<and> k \<notin> K \<and>
           s_addr (b_service b) = s_addr vs \<and> p_stopCh (b_monitor b) \<in> set (cx_closed c'))" by blast
      have "cleaned vs (insert k K) c c'" by (rule cleaned_step [OF b q K(1)])
      moreover have "insert k K \<subseteq> set (k # ks)" using K(2) by auto
      moreover have "r = Ok () \<and> (\<forall>k' b. k' \<in> set (k # ks) \<longrightarrow> gget (cx_backends c) k' = Some b \<longrightarrow>
           s_addr (b_service b) = s_addr vs \<longrightarrow> k' \<in> insert k K) \<or>
         r = Panic \<and> (\<exists>k' b. gget (cx_backends c) k' = Some b \<and> k' \<notin> insert k K \<and>
           s_addr (b_service b) = s_addr vs \<and> p_stopCh (b_monitor b) \<in> set (cx_closed c'))"
        using K(3) unfolding bk1 by (auto split: if_splits)
      ultimately show ?thesis by blast
    qed
  qed
qed


lemma removeService_cases:
  assumes "removeService E vsID c = (r, c')"
  obtains (none) "gget (cx_services c) vsID = None" "r = Fail ErrObjectNotFound" "c' = c"
  | (fail) vs where "gget (cx_services c) vsID = Some vs" "r = Fail ErrIpvsSyscallFailed"
      "quiet (drop_service vsID c) c'"
  | (gone) vs c1 c2 K where "gget (cx_services c) vsID = Some vs"
      "logged_to (drop_service vsID c) ((ipvs_table (cx_log c))(svc_vkey vs := None)) c1"
      "cleaned vs K c1 c2" "quiet c2 c'"
      "r = Ok (s_options vs) \<and> (fair_iter E \<longrightarrow> (\<forall>k b. gget (cx_backends c) k = Some b \<longrightarrow>
         s_addr (b_service b) = s_addr vs \<longrightarrow> k \<in> K)) \<or>
       r = Panic \<and> (\<exists>k b. gget (cx_backends c) k = Some b \<and> k \<notin> K \<and>
         s_addr (b_service b) = s_addr vs \<and> p_stopCh (b_monitor b) \<in> set (cx_closed c'))"
proof (cases "gget (cx_services c) vsID")
  case None
  moreover from None have "r = Fail ErrObjectNotFound" "c' = c" using assms by (simp_all add: removeService_def)
  ultimately show thesis by (rule none)
next
  case (Some vs)
  let ?d = "ipvs_DelService E (ip_String (so_host (s_options vs))) (so_Port (s_options vs)) (so_Protocol (s_options vs))"
  let ?c1 = "drop_service vsID c"
  let ?c2 = "del_vip E (s_options vs) ?c1"
  have q2: "quiet ?c1 ?c2" by (rule del_vip_quiet)
  obtain e c3 where a: "on_log ?d ?c2 = (e, c3)" by force
  show thesis
  proof (cases e)
    case (Some e')
    have "r = Fail ErrIpvsSyscallFailed" "c' = c3"
      using assms a \<open>gget (cx_services c) vsID = Some vs\<close> Some
      by (simp_all add: removeService_def drop_service_def)
    moreover from a Some have "quiet ?c1 c3" by (blast intro: quiet_trans [OF q2] shim_fail_quiet(3))
    ultimately show thesis using fail [OF \<open>gget (cx_services c) vsID = Some vs\<close>] by simp
  next
    case None
    then obtain l where l: "?d (cx_log ?c2) = (None, l)" "c3 = ?c2\<lparr>cx_log := l\<rparr>" using a by (auto simp: on_log_eq)
    let ?t = "(ipvs_table (cx_log c))(svc_vkey vs := None)"
    have "ipvs_table l = ?t"
      using shim.del_service_ok [OF l(1)] quiet_sel(11) [OF q2] by (simp add: svc_vkey_def drop_service_def)
    then have l3: "logged_to ?c1 ?t c3" using l(2) q2 by (auto simp: logged_to_def quiet_def)
    obtain x c4 where s: "with_store (\<lambda>s. store_RemoveService E s vsID) c3 = (x, c4)" by force
    then have "quiet c3 c4" by (rule with_store_quiet [rotated]) simp
    then have l4: "logged_to ?c1 ?t c4" using l3 by (auto simp: logged_to_def quiet_def)
    obtain q c5 where k: "clean_backends E vs (range_keys E (cx_log c4) (cx_backends c4)) c4 = (q, c5)" by force
    have b4: "cx_backends c4 = cx_backends c" using logged_to_sel(3) [OF l4] by (simp add: drop_service_def)
    obtain K where K: "cleaned vs K c4 c5" and q: "q = Ok () \<and> (\<forall>k b. k \<in> set (range_keys E (cx_log c4) (cx_backends c4)) \<longrightarrow>
         gget (cx_backends c) k = Some b \<longrightarrow> s_addr (b_service b) = s_addr vs \<longrightarrow> k \<in> K) \<or>
       q = Panic \<and> (\<exists>k b. gget (cx_backends c) k = Some b \<and> k \<notin> K \<and>
         s_addr (b_service b) = s_addr vs \<and> p_stopCh (b_monitor b) \<in> set (cx_closed c5))"
      using clean_backends_effect [OF k] unfolding b4 by blast
    note removeService_def [of E vsID c]
    have body: "removeService E vsID c = (case (q, c5) of
        (Ok _, c5) \<Rightarrow> (Ok (s_options vs), snd (on_log (disco_Remove E (cx_disco c5) vsID) c5))
      | (Fail e, c5) \<Rightarrow> (Fail e, c5) | (Panic, c5) \<Rightarrow> (Panic, c5))"
      using a None s k Some by (simp add: removeService_def drop_service_def)
    show thesis
    proof (cases q)
      case (Ok u)
      have "quiet c5 c'" using assms body Ok by (auto intro: on_log_quiet_snd)
      moreover have "fair_iter E \<Longrightarrow> k \<in> set (range_keys E (cx_log c4) (cx_backends c4))"
        if "gget (cx_backends c) k = Some b" for k b
        using set_range_keys [of E "cx_log c4" "cx_backends c4"] that by (simp add: b4)
      ultimately show thesis using assms body Ok q by (intro gone [OF Some l4 K]) auto
    next
      case (Fail e)
      then show thesis using q by simp
    next
      case Panic
      then show thesis using assms body q by (intro gone [OF Some l4 K]) auto
    qed
  qed
qed

section \<open>Well-formed contexts\<close>

definition backend_ok :: "env \<Rightarrow> BackendOptions \<Rightarrow> bool" where
  "backend_ok E opts \<longleftrightarrow> bo_Host opts \<noteq> [] \<and> bo_Port opts \<noteq> 0 \<and>
     ValidForwarding (libconsts E) (bo_Method opts) \<and> bo_Pulse opts \<noteq> None"

definition service_wf :: "env \<Rightarrow> nat \<Rightarrow> service \<Rightarrow> bool" where
  "service_wf E n s \<longleftrightarrow> s_addr s < n \<and> service_filled E (s_options s)"

definition backend_wf :: "env \<Rightarrow> nat \<Rightarrow> backend \<Rightarrow> bool" where
  "backend_wf E n b \<longleftrightarrow> backend_ok E (b_options b) \<and> service_wf E n (b_service b) \<and>
     AddrFamily (bo_host (b_options b)) = AddrFamily (so_host (s_options (b_service b))) \<and>
     p_stopCh (b_monitor b) < n \<and> driver_made (p_driver (b_monitor b)) \<and> 0 < sint (p_interval (b_monitor b)) \<and>
     0 \<le> m_Health (b_metrics b) \<and> m_Health (b_metrics b) \<le> 1"

definition wf_maps :: "env \<Rightarrow> service gomap \<Rightarrow> backend gomap \<Rightarrow> nat list \<Rightarrow> nat \<Rightarrow> bool" where
  "wf_maps E sv bk cl n \<longleftrightarrow>
     (\<forall>i s. gget sv i = Some s \<longrightarrow> service_wf E n s) \<and>
     (\<forall>i j s t. gget sv i = Some s \<longrightarrow> gget sv j = Some t \<longrightarrow> s_addr s = s_addr t \<longrightarrow> i = j) \<and>
     (\<forall>k b. gget bk k = Some b \<longrightarrow> backend_wf E n b) \<and>
     (\<forall>j k a b. gget bk j = Some a \<longrightarrow> gget bk k = Some b \<longrightarrow>
        p_stopCh (b_monitor a) = p_stopCh (b_monitor b) \<longrightarrow> j = k) \<and>
     (\<forall>i k s b. gget sv i = Some s \<longrightarrow> gget bk k = Some b \<longrightarrow> s_addr (b_service b) = s_addr s \<longrightarrow> b_service b = s) \<and>
     (\<forall>ch \<in> set cl. ch < n)"

definition ctx_wf :: "env \<Rightarrow> ctx \<Rightarrow> bool" where
  "ctx_wf E c \<longleftrightarrow> wf_maps E (cx_services c) (cx_backends c) (cx_closed c) (cx_next c)"

lemma service_wf_mono: "service_wf E n s \<Longrightarrow> n \<le> m \<Longrightarrow> service_wf E m s"
  by (auto simp: service_wf_def)

lemma backend_wf_mono: "backend_wf E n b \<Longrightarrow> n \<le> m \<Longrightarrow> backend_wf E m b"
  by (auto simp: backend_wf_def intro: service_wf_mono)

lemma wf_quiet: "quiet c c' \<Longrightarrow> ctx_wf E c' = ctx_wf E c"
  by (simp add: ctx_wf_def quiet_sel)

lemma wf_logged: "logged_to c t c' \<Longrightarrow> ctx_wf E c' = ctx_wf E c"
  by (simp add: ctx_wf_def logged_to_sel)

lemma wf_mapsD:
  assumes "wf_maps E sv bk cl n"
  shows "gget sv i = Some s \<Longrightarrow> service_wf E n s"
    and "gget sv i = Some s \<Longrightarrow> gget sv j = Some t \<Longrightarrow> s_addr s = s_addr t \<Longrightarrow> i = j"
    and "gget bk k = Some b \<Longrightarrow> backend_wf E n b"
    and "gget bk j = Some a \<Longrightarrow> gget bk k = Some b \<Longrightarrow> p_stopCh (b_monitor a) = p_stopCh (b_monitor b) \<Longrightarrow> j = k"
    and "gget sv i = Some s \<Longrightarrow> gget bk k = Some b \<Longrightarrow> s_addr (b_service b) = s_addr s \<Longrightarrow> b_service b = s"
    and "ch \<in> set cl \<Longrightarrow> ch < n"
  using assms unfolding wf_maps_def by blast+

lemma wf_maps_sub:
  assumes "wf_maps E sv bk cl n"
    and "\<And>i s. gget sv' i = Some s \<Longrightarrow> gget sv i = Some s"
    and "\<And>k b. gget bk' k = Some b \<Longrightarrow> gget bk k = Some b"
    and "\<And>ch. ch \<in> set cl' \<Longrightarrow> ch < n"
  shows "wf_maps E sv' bk' cl' n"
  unfolding wf_maps_def
proof (intro conjI allI impI ballI)
  note d = wf_mapsD [OF assms(1)]
  show "service_wf E n s" if "gget sv' i = Some s" for i s by (rule d(1) [OF assms(2) [OF that]])
  show "i = j" if "gget sv' i = Some s" "gget sv' j = Some t" "s_addr s = s_addr t" for i j s t
    by (rule d(2) [OF assms(2) [OF that(1)] assms(2) [OF that(2)] that(3)])
  show "backend_wf E n b" if "gget bk' k = Some b" for k b by (rule d(3) [OF assms(3) [OF that]])
  show "j = k" if "gget bk' j = Some a" "gget bk' k = Some b"
      "p_stopCh (b_monitor a) = p_stopCh (b_monitor b)" for j k a b
    by (rule d(4) [OF assms(3) [OF that(1)] assms(3) [OF that(2)] that(3)])
  show "b_service b = s" if "gget sv' i = Some s" "gget bk' k = Some b" "s_addr (b_service b) = s_addr s" for i k s b
    by (rule d(5) [OF assms(2) [OF that(1)] assms(3) [OF that(2)] that(3)])
  show "ch < n" if "ch \<in> set cl'" for ch by (rule assms(4) [OF that])
qed

lemma wf_maps_put_service:
  assumes w: "wf_maps E sv bk cl n" and f: "service_filled E opts"
  shows "wf_maps E (gput i \<lparr>s_addr = n, s_options = opts\<rparr> sv) bk cl (Suc n)"
proof -
  note d = wf_mapsD [OF w]
  have s: "service_wf E (Suc n) s" if "gget sv j = Some s" for j s
    using d(1) [OF that] by (rule service_wf_mono) simp
  have lt: "s_addr s < n" if "gget sv j = Some s" for j s
    using d(1) [OF that] by (simp add: service_wf_def)
  have b: "backend_wf E (Suc n) b" "s_addr (b_service b) < n" if "gget bk j = Some b" for j b
    using d(3) [OF that] backend_wf_mono [OF d(3) [OF that], of "Suc n"]
    by (simp_all add: backend_wf_def service_wf_def)
  show ?thesis
    unfolding wf_maps_def
  proof (intro conjI allI impI ballI)
    fix j s assume "gget (gput i \<lparr>s_addr = n, s_options = opts\<rparr> sv) j = Some s"
    then show "service_wf E (Suc n) s" using s f by (auto simp: service_wf_def split: if_splits)
  next
    fix j k s t
    assume "gget (gput i \<lparr>s_addr = n, s_options = opts\<rparr> sv) j = Some s"
      "gget (gput i \<lparr>s_addr = n, s_options = opts\<rparr> sv) k = Some t" "s_addr s = s_addr t"
    then show "j = k" using d(2) [of j s k t] lt [of j s] lt [of k t] by (auto split: if_splits)
  next
    fix j k s b
    assume "gget (gput i \<lparr>s_addr = n, s_options = opts\<rparr> sv) j = Some s" "gget bk k = Some b"
      "s_addr (b_service b) = s_addr s"
    then show "b_service b = s" using d(5) b(2) by (fastforce split: if_splits)
  next
    fix ch assume "ch \<in> set cl" then show "ch < Suc n" using d(6) by (simp add: less_Suc_eq)
  qed (use b d(4) in blast)+
qed

lemma wf_maps_put_backend:
  assumes w: "wf_maps E sv bk cl n" and m: "n \<le> m" and b: "backend_wf E m b"
    and ch: "\<And>j a. gget bk j = Some a \<Longrightarrow> p_stopCh (b_monitor a) = p_stopCh (b_monitor b) \<Longrightarrow> j = k"
    and sv: "\<And>i s. gget sv i = Some s \<Longrightarrow> s_addr (b_service b) = s_addr s \<Longrightarrow> b_service b = s"
  shows "wf_maps E sv (gput k b bk) cl m"
proof -
  note d = wf_mapsD [OF w]
  show ?thesis
    unfolding wf_maps_def
  proof (intro conjI allI impI ballI)
    fix i s assume "gget sv i = Some s"
    then show "service_wf E m s" using d(1) m by (blast intro: service_wf_mono)
  next
    fix j a assume "gget (gput k b bk) j = Some a"
    then show "backend_wf E m a" using d(3) m b by (auto split: if_splits intro: backend_wf_mono)
  next
    fix i j x y
    assume "gget (gput k b bk) i = Some x" "gget (gput k b bk) j = Some y"
      "p_stopCh (b_monitor x) = p_stopCh (b_monitor y)"
    then show "i = j" using d(4) ch [of i x] ch [of j y] by (auto split: if_splits)
  next
    fix i j s x
    assume "gget sv i = Some s" "gget (gput k b bk) j = Some x" "s_addr (b_service x) = s_addr s"
    then show "b_service x = s" using d(5) sv by (auto split: if_splits)
  next
    fix c assume "c \<in> set cl" then show "c < m" using d(6) m by force
  qed (use d(2) in blast)
qed


subsection \<open>Every operation keeps a context well-formed\<close>

lemma pulse_New_made:
  "pulse_New E l ch h p opts = Ok (x, o') \<Longrightarrow>
     driver_made (p_driver x) \<and> 0 < sint (p_interval x) \<and> p_stopCh x = ch"
  by (auto simp: pulse_New_def dest: newDriver_made Validate_Ok split: sum.splits option.splits outcome.splits)

lemma new_backend_wf:
  assumes "new_backend E opts0 c vs opts p" "service_wf E (cx_next c) vs"
  shows "backend_wf E (Suc (cx_next c)) \<lparr>b_options = opts, b_service = vs, b_monitor = p, b_metrics = zero_Metrics\<rparr>"
    and "p_stopCh p = cx_next c"
proof -
  obtain l' opts1 po where f: "backend_Fill E opts0 (cx_log c) = (Inr opts1, l')"
    and n: "pulse_New E l' (cx_next c) (ip_String (bo_host opts1)) (bo_Port opts1)
          (case bo_Pulse opts1 of None \<Rightarrow> zero_PulseOptions | Some po \<Rightarrow> po) = Ok (p, po)"
    and o: "opts = opts1\<lparr>bo_Pulse := Some po\<rparr> \<or> (\<exists>v. opts = opts1\<lparr>bo_Pulse := Some po, bo_VsID := v\<rparr>)"
    and af: "AddrFamily (bo_host opts) = AddrFamily (so_host (s_options vs))"
    using assms(1) unfolding new_backend_def by blast
  have "backend_ok E opts"
    using bck.fill_filled [OF f] o by (auto simp: backend_filled_def backend_ok_def)
  moreover note pulse_New_made [OF n]
  ultimately show "backend_wf E (Suc (cx_next c))
      \<lparr>b_options = opts, b_service = vs, b_monitor = p, b_metrics = zero_Metrics\<rparr>" and "p_stopCh p = cx_next c"
    using assms(2) af by (auto simp: backend_wf_def service_wf_def zero_Metrics_def)
qed

lemma wf_put_service: "ctx_wf E c \<Longrightarrow> service_filled E opts \<Longrightarrow> ctx_wf E (put_service i opts c)"
  by (simp add: ctx_wf_def put_service_def wf_maps_put_service)

lemma wf_sub:
  assumes "ctx_wf E c"
    and "\<And>i s. gget (cx_services c') i = Some s \<Longrightarrow> gget (cx_services c) i = Some s"
    and "\<And>k b. gget (cx_backends c') k = Some b \<Longrightarrow> gget (cx_backends c) k = Some b"
    and "cx_next c' = cx_next c" and "\<And>ch. ch \<in> set (cx_closed c') \<Longrightarrow> ch < cx_next c"
  shows "ctx_wf E c'"
  unfolding ctx_wf_def assms(4) by (rule wf_maps_sub [OF assms(1) [unfolded ctx_wf_def]]) (use assms in auto)

lemma wf_closed: "ctx_wf E c \<Longrightarrow> ch \<in> set (cx_closed c) \<Longrightarrow> ch < cx_next c"
  by (simp add: ctx_wf_def wf_mapsD)

lemma wf_backend: "ctx_wf E c \<Longrightarrow> gget (cx_backends c) k = Some b \<Longrightarrow> backend_wf E (cx_next c) b"
  by (simp add: ctx_wf_def wf_mapsD)

lemma wf_service: "ctx_wf E c \<Longrightarrow> gget (cx_services c) i = Some s \<Longrightarrow> service_wf E (cx_next c) s"
  by (simp add: ctx_wf_def wf_mapsD)

lemma wf_drop_service: "ctx_wf E c \<Longrightarrow> ctx_wf E (drop_service i c)"
  by (rule wf_sub [of E c]) (auto simp: drop_service_def wf_closed split: if_splits)

lemma wf_del_backend: "ctx_wf E c \<Longrightarrow> ctx_wf E (del_backend k c)"
  by (rule wf_sub [of E c]) (auto simp: del_backend_def wf_closed split: if_splits)

lemma wf_stop_backend: "ctx_wf E c \<Longrightarrow> gget (cx_backends c) k = Some b \<Longrightarrow> ctx_wf E (stop_backend b c)"
  using wf_backend [of E c k b]
  by (intro wf_sub [of E c "stop_backend b c"]) (auto simp: stop_backend_def wf_closed backend_wf_def)

lemma wf_cleaned:
  assumes "ctx_wf E c" "cleaned vs K c c'"
  shows "ctx_wf E c'"
proof (rule wf_sub [OF assms(1)])
  fix ch assume "ch \<in> set (cx_closed c')"
  then show "ch < cx_next c"
    using assms wf_closed [OF assms(1), of ch] wf_backend [OF assms(1)]
    unfolding cleaned_def backend_wf_def by auto
next
  fix k b assume "gget (cx_backends c') k = Some b"
  then show "gget (cx_backends c) k = Some b"
    using assms(2) by (cases "k \<in> K") (auto simp: cleaned_def)
qed (use assms(2) in \<open>auto simp: cleaned_def\<close>)

lemma wf_put_same:
  assumes w: "ctx_wf E c" and b: "gget (cx_backends c) k = Some b" "backend_wf E (cx_next c) b'"
    and same: "b_service b' = b_service b" "b_monitor b' = b_monitor b"
  shows "ctx_wf E (put_backend k b' c)"
proof -
  note d = wf_mapsD [OF w [unfolded ctx_wf_def]]
  have "wf_maps E (cx_services c) (gput k b' (cx_backends c)) (cx_closed c) (cx_next c)"
    by (rule wf_maps_put_backend [OF w [unfolded ctx_wf_def]]) (use d(4,5) b same in auto)
  then show ?thesis by (simp add: ctx_wf_def put_backend_def)
qed

lemma wf_createService:
  assumes "ctx_wf E c"
  shows "ctx_wf E (snd (createService E i opts c))"
proof -
  obtain r c' where c: "createService E i opts c = (r, c')" by force
  then show ?thesis
  proof (cases rule: createService_cases)
    case fail
    with assms c show ?thesis by (simp add: wf_quiet)
  next
    case (ok c1 c2 l2 opts1 opts')
    have "service_filled E opts'" using svc.fill_filled [OF ok(3)] ok(4) by auto
    then have "ctx_wf E (put_service i opts' c2)"
      using assms ok by (intro wf_put_service) (simp_all add: wf_quiet wf_logged)
    with ok c show ?thesis by (simp add: wf_quiet)
  qed
qed

lemma wf_updateService:
  assumes "ctx_wf E c"
  shows "ctx_wf E (snd (updateService E i opts c))"
proof -
  obtain r c' where c: "updateService E i opts c = (r, c')" by force
  then show ?thesis
  proof (cases rule: updateService_cases)
    case fail
    with assms c show ?thesis by (simp add: wf_quiet)
  next
    case (create c1 opts' l)
    then show ?thesis using wf_createService [of E c1 i opts'] assms c by (simp add: wf_quiet)
  next
    case (ok old c1 c2 opts' l)
    have "service_filled E opts'" by (rule svc.fill_filled [OF ok(3)])
    then have "ctx_wf E (put_service i opts' c2)"
      using assms ok by (intro wf_put_service) (simp_all add: wf_quiet wf_logged)
    with ok c show ?thesis by (simp add: wf_quiet)
  qed
qed

lemma wf_createBackend:
  assumes w: "ctx_wf E c"
  shows "ctx_wf E (snd (createBackend E i k opts c))"
proof -
  obtain r c' where c: "createBackend E i k opts c = (r, c')" by force
  then show ?thesis
  proof (cases rule: createBackend_cases)
    case fail
    with assms c show ?thesis by (simp add: wf_quiet)
  next
    case panic
    with assms c show ?thesis by (simp add: wf_quiet)
  next
    case (ok vs opts' p c1 c2)
    note d = wf_mapsD [OF w [unfolded ctx_wf_def]]
    let ?b = "\<lparr>b_options = opts', b_service = vs, b_monitor = p, b_metrics = zero_Metrics\<rparr>"
    note nb = new_backend_wf [OF ok(4) wf_service [OF w ok(3)]]
    have "wf_maps E (cx_services c) (gput k ?b (cx_backends c)) (cx_closed c) (Suc (cx_next c))"
    proof (rule wf_maps_put_backend [OF w [unfolded ctx_wf_def] _ nb(1)])
      fix j a assume "gget (cx_backends c) j = Some a" "p_stopCh (b_monitor a) = p_stopCh (b_monitor ?b)"
      then show "j = k" using d(3) nb(2) by (force simp: backend_wf_def)
    next
      fix j s assume "gget (cx_services c) j = Some s" "s_addr (b_service ?b) = s_addr s"
      then show "b_service ?b = s" using d(2) ok(3) by fastforce
    qed simp
    with ok c show ?thesis
      by (simp add: ctx_wf_def start_loop_def put_backend_def logged_to_sel quiet_sel)
  qed
qed

lemma wf_updateBackend:
  assumes w: "ctx_wf E c"
  shows "ctx_wf E (snd (updateBackend E i k x c))"
proof -
  obtain r c' where c: "updateBackend E i k x c = (r, c')" by force
  then show ?thesis
  proof (cases rule: updateBackend_cases)
    case (ok b c1)
    have "ctx_wf E c1" using w ok(3) by (simp add: wf_logged)
    moreover have "gget (cx_backends c1) k = Some b" using ok by (simp add: logged_to_sel)
    moreover from calculation have "backend_wf E (cx_next c1) (b\<lparr>b_options := b_options b\<lparr>bo_Weight := x\<rparr>\<rparr>)"
      using wf_backend [of E c1 k b] by (simp add: backend_wf_def backend_ok_def)
    ultimately show ?thesis using c ok(4) by (simp add: wf_put_same)
  qed (use w c in \<open>simp_all add: wf_quiet\<close>)
qed

lemma wf_removeBackend:
  assumes w: "ctx_wf E c"
  shows "ctx_wf E (snd (removeBackend E i k c))"
proof -
  obtain r c' where c: "removeBackend E i k c = (r, c')" by force
  then show ?thesis
  proof (cases rule: removeBackend_cases)
    case (fail b c1)
    then have "ctx_wf E (stop_backend b c1)"
      using w by (intro wf_stop_backend [where k = k]) (simp_all add: wf_quiet quiet_sel)
    with c fail show ?thesis by (simp add: wf_quiet)
  next
    case (ok b c1 c2)
    then have "ctx_wf E (stop_backend b c1)"
      using w by (intro wf_stop_backend [where k = k]) (simp_all add: wf_quiet quiet_sel)
    with c ok show ?thesis by (simp add: wf_logged wf_del_backend)
  qed (use w c in \<open>simp_all add: wf_quiet\<close>)
qed

lemma wf_removeService:
  assumes w: "ctx_wf E c"
  shows "ctx_wf E (snd (removeService E i c))"
proof -
  obtain r c' where c: "removeService E i c = (r, c')" by force
  then show ?thesis
  proof (cases rule: removeService_cases)
    case (gone vs c1 c2 K)
    have "ctx_wf E c1" using gone(2) wf_drop_service [OF w] by (simp add: wf_logged)
    from wf_cleaned [OF this gone(3)] gone(4) c show ?thesis by (simp add: wf_quiet)
  qed (use w c in \<open>simp_all add: wf_quiet wf_drop_service\<close>)
qed

lemma wf_remove_services: "ctx_wf E c \<Longrightarrow> ctx_wf E (snd (remove_services E ks c))"
proof (induction ks arbitrary: c)
  case (Cons k ks)
  from wf_removeService [OF Cons.prems, of k] Cons.IH show ?case
    by (auto split: prod.splits outcome.splits)
qed simp

lemma wf_stopped [simp]: "ctx_wf E (c\<lparr>cx_stopped := b\<rparr>) = ctx_wf E c" "ctx_wf E (c\<lparr>cx_store := x\<rparr>) = ctx_wf E c"
  "ctx_wf E (c\<lparr>cx_vipInterface := v\<rparr>) = ctx_wf E c" "ctx_wf E (c\<lparr>cx_log := l\<rparr>) = ctx_wf E c"
  by (simp_all add: ctx_wf_def)

lemma wf_Close: "ctx_wf E c \<Longrightarrow> ctx_wf E (snd (ctx_Close E c))"
  by (simp add: ctx_Close_def Let_def wf_remove_services)


lemma wf_sync_del_services: "ctx_wf E c \<Longrightarrow> ctx_wf E (snd (sync_del_services E ext ks c))"
proof (induction ks arbitrary: c)
  case (Cons k ks)
  obtain r c' where r: "removeService E k c = (r, c')" by force
  have "ctx_wf E c'" using wf_removeService [OF Cons.prems, of k] r by simp
  with Cons show ?case by (cases r) (simp_all add: r)
qed simp

lemma wf_sync_service: "ctx_wf E c \<Longrightarrow> ctx_wf E (snd (sync_service E k opts c))"
proof -
  assume w: "ctx_wf E c"
  obtain r c' where r: "removeService E k c = (r, c')" by force
  have "ctx_wf E c'" using wf_removeService [OF w, of k] r by simp
  with w show ?thesis
    by (cases r) (simp_all add: sync_service_def r wf_createService split: option.split)
qed

lemma wf_sync_add_services: "ctx_wf E c \<Longrightarrow> ctx_wf E (snd (sync_add_services E ext ks c))"
proof (induction ks arbitrary: c)
  case (Cons k ks)
  have "ctx_wf E (snd (sync_service E k opts c))" for opts by (rule wf_sync_service [OF Cons.prems])
  then have "ctx_wf E c'" if "sync_service E k opts c = (r, c')" for opts r c' using that by (metis snd_conv)
  with Cons show ?case by (auto split: prod.splits outcome.split option.split)
qed simp

lemma wf_sync_del_backends: "ctx_wf E c \<Longrightarrow> ctx_wf E (snd (sync_del_backends E ext ks c))"
proof (induction ks arbitrary: c)
  case (Cons k ks)
  have "ctx_wf E (snd (removeBackend E v k c))" for v by (rule wf_removeBackend [OF Cons.prems])
  then have "ctx_wf E c'" if "removeBackend E v k c = (r, c')" for v r c' using that by (metis snd_conv)
  with Cons show ?case by (auto split: prod.splits outcome.split option.split)
qed simp

lemma wf_sync_backend: "ctx_wf E c \<Longrightarrow> ctx_wf E (snd (sync_backend E k opts c))"
proof -
  assume w: "ctx_wf E c"
  obtain r c' where r: "removeBackend E (bo_VsID opts) k c = (r, c')" by force
  have "ctx_wf E c'" using wf_removeBackend [OF w, of "bo_VsID opts" k] r by simp
  with w show ?thesis
    by (cases r) (simp_all add: sync_backend_def r wf_createBackend split: option.split)
qed

lemma wf_sync_add_backends: "ctx_wf E c \<Longrightarrow> ctx_wf E (snd (sync_add_backends E ext ks c))"
proof (induction ks arbitrary: c)
  case (Cons k ks)
  have "ctx_wf E (snd (sync_backend E k opts c))" for opts by (rule wf_sync_backend [OF Cons.prems])
  then have "ctx_wf E c'" if "sync_backend E k opts c = (r, c')" for opts r c' using that by (metis snd_conv)
  with Cons show ?case by (auto split: prod.splits outcome.split option.split)
qed simp

lemma and_then_inv:
  assumes "P (snd r)" "\<And>c. P c \<Longrightarrow> P (snd (f c))"
  shows "P (snd (and_then r f))"
  using assms by (auto simp: and_then_def split: prod.splits outcome.splits)

lemma wf_Synchronize: "ctx_wf E c \<Longrightarrow> ctx_wf E (snd (Synchronize E sv bk c))"
  unfolding Synchronize_def
  by (intro and_then_inv [where P = "ctx_wf E"] wf_sync_del_services wf_sync_add_services
      wf_sync_del_backends wf_sync_add_backends)

lemma wf_new_ctx [simp]: "ctx_wf E (new_ctx l)" "ctx_wf E ((new_ctx l)\<lparr>cx_disco := d\<rparr>)"
  "ctx_wf E ((new_ctx l)\<lparr>cx_disco := d, cx_endpoint := ep\<rparr>)"
  by (simp_all add: ctx_wf_def wf_maps_def new_ctx_def)

lemma wf_on_log: "ctx_wf E c \<Longrightarrow> ctx_wf E (snd (on_log f c))"
  by (simp add: on_log_def split: prod.splits)

lemma wf_on_log_eq: "on_log f c = (r, c') \<Longrightarrow> ctx_wf E c' = ctx_wf E c"
  by (auto simp: on_log_eq)

lemma wf_close_with: "ctx_wf E c \<Longrightarrow> ctx_wf E (snd (close_with E e c))"
  using wf_Close [of E c] by (auto simp: close_with_def split: outcome.splits prod.splits)

lemma wf_new_link: "ctx_wf E c \<Longrightarrow> ctx_wf E (snd (new_link E options c))"
  by (auto simp: new_link_def wf_close_with split: sum.splits)

lemma wf_new_announce: "ctx_wf E (new_announce E options ((new_ctx l)\<lparr>cx_disco := d\<rparr>))"
  by (auto simp: new_announce_def wf_on_log split: list.splits)

lemma wf_NewContext: "ctx_wf E (snd (NewContext E options l))"
proof (cases "new_disco E options")
  case (Ok d)
  obtain e c where i: "on_log (ipvs_Init E) (new_announce E options ((new_ctx l)\<lparr>cx_disco := d\<rparr>)) = (e, c)"
    by force
  obtain e' c' where f: "on_log (ipvs_Flush E) c = (e', c')" by force
  have "ctx_wf E c" using wf_on_log_eq [OF i] wf_new_announce by simp
  moreover from this have "ctx_wf E c'" using wf_on_log_eq [OF f] by simp
  ultimately show ?thesis
    by (cases e; cases e') (simp_all add: NewContext_def Ok i f wf_new_link wf_close_with)
qed (simp_all add: NewContext_def)

end
