(* ===== verification/Gorb_Lifecycle.thy ===== *)
theory Gorb_Lifecycle
  imports Gorb_Invariant
begin

text \<open>
  What the operations of the context guarantee, case by case: the errors of \<open>createService\<close>
  and \<open>createBackend\<close> in the order the code checks them, what is removed with a service, what a
  status query reports, and two defects of the life cycle that follow from the code.
\<close>

section \<open>The invariant\<close>

text \<open>
  Claim C11. A context is well-formed from its construction on, through every operation and
  whatever the outside world answers, also when an operation fails or panics: services and
  backends carry valid options, distinct ids have distinct service objects and stop channels, a
  backend has the address family of its service, a known kind of check with a positive interval,
  and a health between 0 and 1.
\<close>

theorem context_invariant:
  "ctx_wf E (snd (NewContext E options l)) \<and>
   (ctx_wf E c \<longrightarrow> ctx_wf E (snd (createService E i so c)) \<and> ctx_wf E (snd (updateService E i so c)) \<and>
     ctx_wf E (snd (createBackend E i k bo c)) \<and> ctx_wf E (snd (updateBackend E i k w c)) \<and>
     ctx_wf E (snd (removeService E i c)) \<and> ctx_wf E (snd (removeBackend E i k c)) \<and>
     ctx_wf E (snd (ctx_Close E c)) \<and> ctx_wf E (snd (Synchronize E svs bks c)))"
  by (simp_all add: wf_NewContext wf_createService wf_updateService wf_createBackend wf_updateBackend
      wf_removeService wf_removeBackend wf_Close wf_Synchronize)

theorem context_invariant_witness:
  "ctx_wf ok_env (new_ctx []) \<and>
   ctx_wf ok_env (snd (createService ok_env ''web'' (zero_ServiceOptions\<lparr>so_Port := 80\<rparr>) (new_ctx [])))"
  using context_invariant [of ok_env undefined "[]" "new_ctx []" "''web''" "zero_ServiceOptions\<lparr>so_Port := 80\<rparr>"] by simp

section \<open>Creation\<close>

lemma createService_unchanged:
  assumes "createService E i opts c = (r, c')" "r \<noteq> Ok ()"
  shows "quiet c c'"
  using assms(1) by (cases rule: createService_cases) (use assms(2) in auto)

lemma createService_errors:
  assumes "createService E i opts c = (r, c')"
  shows "fst (service_Fill E (cx_endpoint c) opts (cx_log c)) = Inl e \<Longrightarrow> r = Fail e"
    and "fst (service_Fill E (cx_endpoint c) opts (cx_log c)) = Inr o1 \<Longrightarrow> gget (cx_services c) i \<noteq> None \<Longrightarrow>
      r = Fail ErrObjectExists"
  using assms by (auto simp: createService_def on_log_def split: prod.splits)

lemma createService_facts:
  assumes "createService E i opts c = (r, c')"
  shows "case fst (service_Fill E (cx_endpoint c) opts (cx_log c)) of
      Inl e \<Rightarrow> r = Fail e
    | Inr o1 \<Rightarrow> if gget (cx_services c) i \<noteq> None then r = Fail ErrObjectExists
        else r = Ok () \<longrightarrow> (\<exists>o2 \<in> {o1, o1\<lparr>so_delIfAddr := True\<rparr>}.
          cx_services c' = gput i \<lparr>s_addr = cx_next c, s_options = o2\<rparr> (cx_services c) \<and>
          ipvs_table (cx_log c') = table_add E o2 (ipvs_table (cx_log c)))"
    and "r \<noteq> Ok () \<longrightarrow> cx_services c' = cx_services c \<and> ipvs_table (cx_log c') = ipvs_table (cx_log c)"
    and "cx_backends c' = cx_backends c"
proof -
  have ok: "\<exists>o1 o2. fst (service_Fill E (cx_endpoint c) opts (cx_log c)) = Inr o1 \<and>
      o2 \<in> {o1, o1\<lparr>so_delIfAddr := True\<rparr>} \<and>
      cx_services c' = gput i \<lparr>s_addr = cx_next c, s_options = o2\<rparr> (cx_services c) \<and>
      ipvs_table (cx_log c') = table_add E o2 (ipvs_table (cx_log c)) \<and> cx_backends c' = cx_backends c"
    if "r = Ok ()"
    using assms
  proof (cases rule: createService_cases)
    case (ok c1 c2 l2 opts1 opts')
    then show ?thesis
      by (intro exI [of _ opts1] exI [of _ opts'])
        (simp add: quiet_sel [OF ok(8)] put_service_def logged_to_sel [OF ok(7)] quiet_sel [OF ok(5)])
  qed (use that in simp)
  show "r \<noteq> Ok () \<longrightarrow> cx_services c' = cx_services c \<and> ipvs_table (cx_log c') = ipvs_table (cx_log c)"
    using createService_unchanged [OF assms] by (simp add: quiet_sel)
  show "cx_backends c' = cx_backends c"
    using createService_unchanged [OF assms] ok quiet_sel(3) by (cases "r = Ok ()") auto
  show "case fst (service_Fill E (cx_endpoint c) opts (cx_log c)) of
      Inl e \<Rightarrow> r = Fail e
    | Inr o1 \<Rightarrow> if gget (cx_services c) i \<noteq> None then r = Fail ErrObjectExists
        else r = Ok () \<longrightarrow> (\<exists>o2 \<in> {o1, o1\<lparr>so_delIfAddr := True\<rparr>}.
          cx_services c' = gput i \<lparr>s_addr = cx_next c, s_options = o2\<rparr> (cx_services c) \<and>
          ipvs_table (cx_log c') = table_add E o2 (ipvs_table (cx_log c)))"
  proof (cases "fst (service_Fill E (cx_endpoint c) opts (cx_log c))")
    case (Inl e)
    with createService_errors(1) [OF assms Inl] show ?thesis by simp
  next
    case (Inr o1)
    then show ?thesis
      using createService_errors(2) [OF assms Inr] ok by (auto simp: Inr)
  qed
qed


text \<open>A concrete context with one service, for the witnesses.\<close>

definition web_opts :: ServiceOptions where
  "web_opts = zero_ServiceOptions\<lparr>so_Host := ''vip'', so_Port := 80, so_Protocol := ''tcp'', so_Method := ''wrr''\<rparr>"

lemma new_ctx_sel [simp]:
  "cx_services (new_ctx l) = gempty" "cx_backends (new_ctx l) = gempty" "cx_vipInterface (new_ctx l) = None"
  "cx_store (new_ctx l) = None" "cx_disco (new_ctx l) = NoopDriver" "cx_log (new_ctx l) = l"
  "cx_next (new_ctx l) = 0" "cx_closed (new_ctx l) = []" "cx_stopped (new_ctx l) = False" "cx_loops (new_ctx l) = []"
  by (simp_all add: new_ctx_def)

definition web_ctx :: ctx where
  "web_ctx = snd (createService ok_env ''web'' web_opts (new_ctx []))"

definition node_opts :: BackendOptions where
  "node_opts = zero_BackendOptions\<lparr>bo_Host := ''node'', bo_Port := 80, bo_Weight := 10\<rparr>"

definition node_ctx :: ctx where
  "node_ctx = snd (createBackend ok_env ''web'' ''n1'' node_opts web_ctx)"

lemma web_ctx_eq: "createService ok_env ''web'' web_opts (new_ctx []) = (Ok (), web_ctx)"
proof -
  have "fst (createService ok_env ''web'' web_opts (new_ctx [])) = Ok ()" by code_simp
  then show ?thesis by (simp add: web_ctx_def prod_eq_iff)
qed

lemma node_ctx_eq: "createBackend ok_env ''web'' ''n1'' node_opts web_ctx = (Ok (), node_ctx)"
proof -
  have "fst (createBackend ok_env ''web'' ''n1'' node_opts web_ctx) = Ok ()" by code_simp
  then show ?thesis by (simp add: node_ctx_def prod_eq_iff)
qed

lemma wf_web_ctx [simp]: "ctx_wf ok_env web_ctx"
  using wf_createService [of ok_env "new_ctx []"] by (simp add: web_ctx_def)

lemma wf_node_ctx [simp]: "ctx_wf ok_env node_ctx"
  using wf_createBackend [of ok_env web_ctx] by (simp add: node_ctx_def)


lemma createBackend_unchanged:
  assumes "createBackend E i k opts c = (r, c')" "r \<noteq> Ok ()"
  shows "quiet c c'"
  using assms(1)
proof (cases rule: createBackend_cases)
  case ok
  with assms(2) show ?thesis by blast
qed

lemma createBackend_errors:
  assumes "createBackend E i k opts c = (r, c')" "backend_Fill E opts (cx_log c) = (Inr o1, l)"
    and x: "pulse_New E l (cx_next c) (ip_String (bo_host o1)) (bo_Port o1)
        (case bo_Pulse o1 of None \<Rightarrow> zero_PulseOptions | Some po \<Rightarrow> po) = x"
  shows "case x of Fail e \<Rightarrow> r = Fail e | Panic \<Rightarrow> r = Panic
      | Ok y \<Rightarrow> if gget (cx_backends c) k \<noteq> None then r = Fail ErrObjectExists
          else (case gget (cx_services c) i of None \<Rightarrow> r = Fail ErrObjectNotFound
            | Some vs \<Rightarrow> AddrFamily (bo_host o1) \<noteq> AddrFamily (so_host (s_options vs)) \<longrightarrow> r = Fail ErrIncompatibleAFs)"
proof -
  have "on_log (backend_Fill E opts) c = (Inr o1, c\<lparr>cx_log := l\<rparr>)"
    using assms(2) by (simp add: on_log_eq)
  note * = assms(1) [symmetric, unfolded createBackend_def this prod.case sum.case]
  show ?thesis
  proof (cases x)
    case (Ok y)
    obtain p po where y: "y = (p, po)" by force
    show ?thesis
    proof (cases "gget (cx_services c) i")
      case None
      with * x Ok y show ?thesis by (simp split: if_split_asm)
    next
      case (Some vs)
      with * x Ok y show ?thesis by (simp split: if_split_asm)
    qed
  qed (use * x in simp_all)
qed

lemma createBackend_ok:
  assumes "createBackend E i k opts c = (Ok (), c')"
  obtains vs b o1 l po where "gget (cx_services c) i = Some vs" "gget (cx_backends c) k = None"
    "backend_Fill E opts (cx_log c) = (Inr o1, l)"
    "pulse_New E l (cx_next c) (ip_String (bo_host o1)) (bo_Port o1)
        (case bo_Pulse o1 of None \<Rightarrow> zero_PulseOptions | Some po \<Rightarrow> po) = Ok (b_monitor b, po)"
    "cx_backends c' = gput k b (cx_backends c)" "b_service b = vs" "b_metrics b = zero_Metrics"
    "bo_Weight (b_options b) = bo_Weight o1" "bo_host (b_options b) = bo_host o1" "bo_Port (b_options b) = bo_Port o1"
    "bo_Method (b_options b) = bo_Method o1"
    "cx_loops c' = (\<lparr>VsID = i, RsID = k\<rparr>, b_monitor b) # cx_loops c"
    "ipvs_table (cx_log c') = table_dest (s_options vs) (bck_rkey o1)
         (map_option (\<lambda>f. (f, bo_Weight o1)) (backendForwarding (libconsts E) (bo_Method o1))) (ipvs_table (cx_log c))"
    "cx_services c' = cx_services c" "cx_closed c' = cx_closed c" "cx_next c' = Suc (cx_next c)"
    "AddrFamily (bo_host o1) = AddrFamily (so_host (s_options vs))"
  using assms
proof (cases rule: createBackend_cases)
  case (ok vs opts' p c1 c2)
  obtain l o1 po where n: "backend_Fill E opts (cx_log c) = (Inr o1, l)"
    "pulse_New E l (cx_next c) (ip_String (bo_host o1)) (bo_Port o1)
        (case bo_Pulse o1 of None \<Rightarrow> zero_PulseOptions | Some po \<Rightarrow> po) = Ok (p, po)"
    and o: "opts' = o1\<lparr>bo_Pulse := Some po\<rparr> \<or> (\<exists>v. opts' = o1\<lparr>bo_Pulse := Some po, bo_VsID := v\<rparr>)"
    and af: "AddrFamily (bo_host opts') = AddrFamily (so_host (s_options vs))"
    using ok(4) unfolding new_backend_def by blast
  have e: "bo_Weight opts' = bo_Weight o1" "bo_host opts' = bo_host o1" "bo_Port opts' = bo_Port o1"
    "bo_Method opts' = bo_Method o1" "bck_rkey opts' = bck_rkey o1"
    using o by (auto simp: bck_rkey_def)
  note sel = logged_to_sel [OF ok(7)] quiet_sel [OF ok(5)]
  let ?b = "\<lparr>b_options = opts', b_service = vs, b_monitor = p, b_metrics = zero_Metrics\<rparr>"
  have c': "cx_backends c' = gput k ?b (cx_backends c)" "cx_loops c' = (\<lparr>VsID = i, RsID = k\<rparr>, p) # cx_loops c"
    "cx_services c' = cx_services c" "cx_closed c' = cx_closed c" "cx_next c' = Suc (cx_next c)"
    "cx_log c' = cx_log c2"
    by (simp_all add: ok(8) sel)
  show thesis
    by (rule that [of vs o1 l ?b po]) (simp_all add: ok(2,3) n c' e sel af [unfolded e])
qed simp_all




section \<open>Removal\<close>

definition attached :: "service \<Rightarrow> backend \<Rightarrow> bool" where
  "attached vs b \<longleftrightarrow> s_addr (b_service b) = s_addr vs"

lemma removeService_facts:
  assumes "fair_iter E" "removeService E i c = (r, c')" "gget (cx_services c) i = Some vs"
  shows "cx_services c' = gdel i (cx_services c) \<and>
    (\<forall>so. r = Ok so \<longrightarrow> so = s_options vs \<and>
       ipvs_table (cx_log c') = (ipvs_table (cx_log c))(svc_vkey vs := None) \<and>
       (\<forall>k. gget (cx_backends c') k = (case gget (cx_backends c) k of None \<Rightarrow> None
          | Some b \<Rightarrow> if attached vs b then None else Some b)) \<and>
       set (cx_closed c') = set (cx_closed c) \<union>
         {p_stopCh (b_monitor b) | k b. gget (cx_backends c) k = Some b \<and> attached vs b}) \<and>
    (\<forall>e. r = Fail e \<longrightarrow> e = ErrIpvsSyscallFailed \<and> cx_backends c' = cx_backends c \<and>
       cx_closed c' = cx_closed c \<and> ipvs_table (cx_log c') = ipvs_table (cx_log c))"
  using assms(2)
proof (cases rule: removeService_cases)
  case none
  with assms(3) show ?thesis by simp
next
  case (fail vs')
  then show ?thesis by (simp add: quiet_sel)
next
  case (gone vs' c1 c2 K)
  have vs: "vs' = vs" using gone(1) assms(3) by simp
  obtain bk cl l where c2: "c2 = c1\<lparr>cx_backends := bk, cx_closed := cl, cx_log := l\<rparr>"
    and t: "ipvs_table l = ipvs_table (cx_log c1)"
    and bk: "\<And>k. gget bk k = (if k \<in> K then None else gget (cx_backends c1) k)"
    and K: "\<And>k. k \<in> K \<Longrightarrow> \<exists>b. gget (cx_backends c1) k = Some b \<and> s_addr (b_service b) = s_addr vs'"
    and cl: "set cl = set (cx_closed c1) \<union> {p_stopCh (b_monitor b) | k b. k \<in> K \<and> gget (cx_backends c1) k = Some b}"
    using gone(3) unfolding cleaned_def by blast
  have e: "cx_backends c1 = cx_backends c" "cx_closed c1 = cx_closed c"
    "ipvs_table (cx_log c1) = (ipvs_table (cx_log c))(svc_vkey vs := None)"
    "cx_services c' = gdel i (cx_services c)" "cx_backends c' = bk" "cx_closed c' = cl"
    "ipvs_table (cx_log c') = ipvs_table l"
    using logged_to_sel [OF gone(2)] quiet_sel [OF gone(4)] by (simp_all add: c2 vs)
  have all: "k \<in> K \<longleftrightarrow> (\<exists>b. gget (cx_backends c) k = Some b \<and> attached vs b)" if "r = Ok so" for k so
    using K [of k] gone(5) that assms(1) by (auto simp: e attached_def vs)
  have "gget bk k = (case gget (cx_backends c) k of None \<Rightarrow> None
      | Some b \<Rightarrow> if attached vs b then None else Some b)" if "r = Ok so" for k so
    using bk [of k] all [OF that, of k] by (auto simp: e split: option.split)
  moreover have "set cl = set (cx_closed c) \<union>
      {p_stopCh (b_monitor b) | k b. gget (cx_backends c) k = Some b \<and> attached vs b}" if "r = Ok so" for so
  proof -
    have "k \<in> K \<and> gget (cx_backends c) k = Some b \<longleftrightarrow> gget (cx_backends c) k = Some b \<and> attached vs b" for k b
      using all [OF that, of k] by auto
    then show ?thesis using cl by (simp add: e)
  qed
  moreover have "r \<noteq> Fail x" for x using gone(5) by auto
  moreover have "r = Ok so \<Longrightarrow> so = s_options vs" for so using gone(5) by (auto simp: vs)
  ultimately show ?thesis using t by (simp add: e)
qed

text \<open>
  Claim C28. \<open>removeService\<close> always takes the service out of the map.  When it succeeds, the
  kernel has dropped the virtual service, every backend of the service object is gone with its
  check stopped, and no other backend is touched.  When the kernel refuses, the backends stay in
  the map, and so does the virtual service in the kernel.
\<close>

theorem removeService_spec:
  assumes "fair_iter E" and "removeService E i c = (r, c')" and "gget (cx_services c) i = Some vs"
  shows "cx_services c' = gdel i (cx_services c) \<and>
    (\<forall>so. r = Ok so \<longrightarrow> so = s_options vs \<and>
       ipvs_table (cx_log c') = (ipvs_table (cx_log c))(svc_vkey vs := None) \<and>
       (\<forall>k. gget (cx_backends c') k = (case gget (cx_backends c) k of None \<Rightarrow> None
          | Some b \<Rightarrow> if attached vs b then None else Some b)) \<and>
       (\<forall>k b. gget (cx_backends c) k = Some b \<and> attached vs b \<longrightarrow> p_stopCh (b_monitor b) \<in> set (cx_closed c'))) \<and>
    (\<forall>e. r = Fail e \<longrightarrow> e = ErrIpvsSyscallFailed \<and> cx_backends c' = cx_backends c \<and>
       ipvs_table (cx_log c') = ipvs_table (cx_log c))"
  using removeService_facts [OF assms] by auto

definition gone_ctx :: ctx where
  "gone_ctx = snd (removeService ok_env ''web'' node_ctx)"

lemma node_ctx_service:
  obtains vs where "gget (cx_services node_ctx) ''web'' = Some vs"
  by (rule createBackend_ok [OF node_ctx_eq]) simp

lemma gone_ctx_eq: "\<exists>so. removeService ok_env ''web'' node_ctx = (Ok so, gone_ctx)"
proof -
  have "(case fst (removeService ok_env ''web'' node_ctx) of Ok _ \<Rightarrow> True | _ \<Rightarrow> False)" by code_simp
  then show ?thesis by (cases "removeService ok_env ''web'' node_ctx") (auto simp: gone_ctx_def split: outcome.splits)
qed

theorem removeService_spec_witness:
  "cx_services gone_ctx = gdel ''web'' (cx_services node_ctx)"
proof -
  obtain so where r: "removeService ok_env ''web'' node_ctx = (Ok so, gone_ctx)" using gone_ctx_eq ..
  obtain vs where "gget (cx_services node_ctx) ''web'' = Some vs" by (rule node_ctx_service)
  from removeService_spec [OF fair_ok_env r this] show ?thesis by blast
qed

section \<open>Status queries\<close>

definition is_attached :: "ctx \<Rightarrow> service \<Rightarrow> string \<Rightarrow> bool" where
  "is_attached c vs k \<longleftrightarrow> (case gget (cx_backends c) k of None \<Rightarrow> False | Some b \<Rightarrow> attached vs b)"

definition health_at :: "ctx \<Rightarrow> string \<Rightarrow> rat" where
  "health_at c k = (case gget (cx_backends c) k of None \<Rightarrow> 0 | Some b \<Rightarrow> m_Health (b_metrics b))"

lemma foldl_visit:
  "foldl (visit_backend c vs) (bs, h) ks =
     (bs @ filter (is_attached c vs) ks,
      foldl (\<lambda>h k. fl64 (h + health_at c k)) h (filter (is_attached c vs) ks))"
  by (induction ks arbitrary: bs h)
    (auto simp: visit_backend_def is_attached_def attached_def health_at_def split: option.split)

context rounding
begin

text \<open>A sum of numbers between 0 and 1, rounded at every step, stays below their count.\<close>

lemma sum_le_count:
  assumes "\<forall>k \<in> set ks. 0 \<le> f k \<and> f k \<le> 1" "0 \<le> h" "h \<le> of_nat n" "n + length ks \<le> 2 ^ 53"
  shows "0 \<le> foldl (\<lambda>h k. fl (h + f k)) h ks \<and> foldl (\<lambda>h k. fl (h + f k)) h ks \<le> of_nat (n + length ks)"
  using assms
proof (induction ks arbitrary: h n)
  case (Cons k ks)
  have "fl (h + f k) \<le> of_nat (Suc n)"
    using Cons.prems by (intro fl_le_of_nat) (auto intro: add_mono)
  moreover have "0 \<le> fl (h + f k)" using Cons.prems by (intro fl_nonneg) simp
  ultimately show ?case using Cons.IH [of "fl (h + f k)" "Suc n"] Cons.prems by simp
qed simp

lemma sum_all_one:
  assumes "\<forall>k \<in> set ks. f k = 1" "n + length ks \<le> 2 ^ 53"
  shows "foldl (\<lambda>h k. fl (h + f k)) (of_nat n) ks = of_nat (n + length ks)"
  using assms
proof (induction ks arbitrary: n)
  case (Cons k ks)
  have "fl (of_nat n + 1) = of_nat (Suc n)" using fl_of_nat [of "Suc n"] Cons.prems(2) by (simp add: add.commute)
  then show ?case using Cons.IH [of "Suc n"] Cons.prems by simp
qed simp

lemma mean_range:
  assumes "0 \<le> s" "s \<le> of_nat n"
  shows "0 \<le> fl (s / of_nat n) \<and> fl (s / of_nat n) \<le> 1"
  using assms by (intro conjI fl_nonneg fl_le_1) (simp_all add: divide_le_eq)

end

text \<open>
  Claim C31. A status query for a service lists exactly the backends of its object, each once, and
  reports a health between 0 and 1: the rounding of the mean never leaves that range, a service
  whose backends are all healthy has health 1, and so has a service without backends.
\<close>

theorem GetService_spec:
  assumes "ctx_wf E c" and "fair_iter E" and "gget (cx_services c) i = Some vs"
    and "length (gkeys (cx_backends c)) \<le> 2 ^ 53"
  shows "\<exists>info. GetService E i c = Inr info \<and> si_Options info = s_options vs \<and>
    distinct (si_Backends info) \<and>
    set (si_Backends info) = {k. \<exists>b. gget (cx_backends c) k = Some b \<and> attached vs b} \<and>
    0 \<le> si_Health info \<and> si_Health info \<le> 1 \<and>
    ((\<forall>k b. gget (cx_backends c) k = Some b \<and> attached vs b \<longrightarrow> m_Health (b_metrics b) = 1) \<longrightarrow> si_Health info = 1)"
proof -
  let ?ks = "filter (is_attached c vs) (range_keys E (cx_log c) (cx_backends c))"
  let ?h = "foldl (\<lambda>h k. fl64 (h + health_at c k)) 0 ?ks"
  let ?info = "\<lparr>si_Options = s_options vs,
     si_Health = (if length ?ks = 0 then 1 else fl64 (?h / of_nat (length ?ks))), si_Backends = ?ks\<rparr>"
  have "GetService E i c = Inr ?info"
    using assms(3) by (simp add: GetService_def foldl_visit)
  moreover have "distinct ?ks" by (simp add: distinct_range_keys assms(2))
  moreover have ks: "k \<in> set ?ks \<longleftrightarrow> (\<exists>b. gget (cx_backends c) k = Some b \<and> attached vs b)" for k
    by (auto simp: set_range_keys [OF assms(2)] is_attached_def split: option.splits)
  moreover have len: "length ?ks \<le> 2 ^ 53"
    using length_filter_le [of "is_attached c vs" "range_keys E (cx_log c) (cx_backends c)"]
    unfolding length_range_keys [OF assms(2)] using assms(4) by (rule order_trans)
  moreover have "\<forall>k \<in> set ?ks. 0 \<le> health_at c k \<and> health_at c k \<le> 1"
    using ks wf_backend [OF assms(1)] by (auto simp: health_at_def backend_wf_def)
  then have sum: "0 \<le> ?h \<and> ?h \<le> of_nat (length ?ks)"
    using f64.sum_le_count [of ?ks "health_at c" 0 0] len by simp
  moreover have "?h = of_nat (length ?ks)"
    if "\<forall>k b. gget (cx_backends c) k = Some b \<and> attached vs b \<longrightarrow> m_Health (b_metrics b) = 1"
  proof -
    have "\<forall>k \<in> set ?ks. health_at c k = 1" using ks that by (auto simp: health_at_def)
    then show ?thesis using f64.sum_all_one [of ?ks "health_at c" 0] len by simp
  qed
  ultimately show ?thesis
    using f64.mean_range [of ?h "length ?ks"] by (intro exI [of _ ?info]) auto
qed

theorem GetService_spec_witness:
  "\<exists>info. GetService ok_env ''web'' node_ctx = Inr info \<and> set (si_Backends info) = {''n1''} \<and> si_Health info \<le> 1"
proof -
  obtain vs b where vs: "gget (cx_services node_ctx) ''web'' = Some vs"
    and b: "cx_backends node_ctx = gput ''n1'' b (cx_backends web_ctx)" "b_service b = vs"
    by (rule createBackend_ok [OF node_ctx_eq]) auto
  have e: "cx_backends web_ctx = gempty" using createService_facts(3) [OF web_ctx_eq] by simp
  have "length (gkeys (cx_backends node_ctx)) \<le> 2 ^ 53" by (simp add: b e gkeys_put)
  from GetService_spec [OF wf_node_ctx fair_ok_env vs this] show ?thesis
    using b e by (auto simp: attached_def split: if_splits)
qed


section \<open>Two defects\<close>

lemma updateService_ok_fields:
  assumes "updateService E i opts c = (Ok (), c')" "gget (cx_services c) i = Some vs"
  obtains o1 where "cx_services c' = gput i \<lparr>s_addr = cx_next c, s_options = o1\<rparr> (cx_services c)"
    "cx_backends c' = cx_backends c" "cx_next c' = Suc (cx_next c)" "opts_vkey o1 = svc_vkey vs"
    "service_filled E o1" "ipvs_table (cx_log c') = table_upd E o1 (ipvs_table (cx_log c))"
    "cx_closed c' = cx_closed c"
  using assms(1)
proof (cases rule: updateService_cases)
  case (create c1 o1 l)
  with assms(2) show thesis by simp
next
  case (ok old c1 c2 o1 l)
  note sel = quiet_sel [OF ok(6)] logged_to_sel [OF ok(7)] quiet_sel [OF ok(8)]
  show thesis
    by (rule that [of o1]) (use ok assms(2) svc.fill_filled [OF ok(3)] in \<open>simp_all add: sel\<close>)
qed simp

text \<open>
  Claim C34. Changing a service detaches its backends: the update puts a new object in the place
  of the one the backends point to.  A status query then shows a service without backends, in
  full health, and removing the service leaves those backends behind, with their checks running,
  while the kernel drops them.
\<close>

theorem update_detaches_backends:
  assumes "ctx_wf E c" and "fair_iter E" and "gget (cx_services c) i = Some vs"
    and "updateService E i opts c = (Ok (), c')"
  shows "cx_backends c' = cx_backends c \<and>
    (\<exists>info. GetService E i c' = Inr info \<and> si_Backends info = [] \<and> si_Health info = 1) \<and>
    (\<forall>so c''. removeService E i c' = (Ok so, c'') \<longrightarrow>
       (\<forall>k. gget (cx_backends c'') k = gget (cx_backends c) k) \<and> set (cx_closed c'') = set (cx_closed c) \<and>
       ipvs_table (cx_log c'') (svc_vkey vs) = None)"
proof -
  obtain o1 where sv: "cx_services c' = gput i \<lparr>s_addr = cx_next c, s_options = o1\<rparr> (cx_services c)"
    and bk: "cx_backends c' = cx_backends c" and cl: "cx_closed c' = cx_closed c"
    and k: "opts_vkey o1 = svc_vkey vs"
    by (rule updateService_ok_fields [OF assms(4,3)])
  let ?vs = "\<lparr>s_addr = cx_next c, s_options = o1\<rparr>"
  have g: "gget (cx_services c') i = Some ?vs" by (simp add: sv)
  have no: "\<not> attached ?vs b" if "gget (cx_backends c) k = Some b" for k b
    using wf_backend [OF assms(1) that] by (auto simp: attached_def backend_wf_def service_wf_def)
  then have "\<not> is_attached c' ?vs k" for k by (auto simp: is_attached_def bk split: option.split)
  then have "GetService E i c' = Inr \<lparr>si_Options = o1, si_Health = 1, si_Backends = []\<rparr>"
    using g by (simp add: GetService_def foldl_visit)
  moreover have "(\<forall>k. gget (cx_backends c'') k = gget (cx_backends c) k) \<and> set (cx_closed c'') = set (cx_closed c) \<and>
       ipvs_table (cx_log c'') (svc_vkey vs) = None"
    if "removeService E i c' = (Ok so, c'')" for so c''
    using removeService_facts [OF assms(2) that g] no
    by (auto simp: bk cl svc_vkey_opts [of ?vs] k split: option.split)
  ultimately show ?thesis using bk by simp
qed

definition upd_ctx :: ctx where
  "upd_ctx = snd (updateService ok_env ''web'' (web_opts\<lparr>so_Method := ''rr''\<rparr>) node_ctx)"

theorem update_detaches_backends_witness:
  "gget (cx_backends upd_ctx) ''n1'' \<noteq> None \<and>
   (\<exists>info. GetService ok_env ''web'' upd_ctx = Inr info \<and> si_Backends info = [])"
proof -
  have "fst (updateService ok_env ''web'' (web_opts\<lparr>so_Method := ''rr''\<rparr>) node_ctx) = Ok ()" by code_simp
  then have u: "updateService ok_env ''web'' (web_opts\<lparr>so_Method := ''rr''\<rparr>) node_ctx = (Ok (), upd_ctx)"
    by (simp add: upd_ctx_def prod_eq_iff)
  obtain vs where vs: "gget (cx_services node_ctx) ''web'' = Some vs" by (rule node_ctx_service)
  have "gget (cx_backends node_ctx) ''n1'' \<noteq> None" by (rule createBackend_ok [OF node_ctx_eq]) simp
  with update_detaches_backends [OF wf_node_ctx fair_ok_env vs u] show ?thesis by auto
qed

text \<open>
  Claim C38. A backend whose removal the kernel refuses stays in the map with its check already
  stopped; asking again for its removal closes the stop channel a second time, which panics.
\<close>

theorem removal_retry_panics:
  assumes "removeBackend E i k c = (Fail ErrIpvsSyscallFailed, c')"
  shows "gget (cx_backends c') k \<noteq> None \<and> fst (removeBackend E' i' k c') = Panic"
  using assms
proof (cases rule: removeBackend_cases)
  case (fail b c1)
  note sel = quiet_sel [OF fail(4)] quiet_sel [OF fail(5)]
  have b: "gget (cx_backends c') k = Some b" using fail(1) by (simp add: sel)
  have ch: "p_stopCh (b_monitor b) \<in> set (cx_closed c')" by (simp add: sel)
  obtain r c'' where r: "removeBackend E' i' k c' = (r, c'')" by force
  then have "r = Panic"
    by (cases rule: removeBackend_cases) (use b ch in auto)
  with b r show ?thesis by simp
qed simp_all

definition refusing_env :: env where
  "refusing_env = ok_env\<lparr>ipvsDo := (\<lambda>_ r. case r of DelDestination _ _ \<Rightarrow> Some ''EINVAL'' | _ \<Rightarrow> None)\<rparr>"

theorem removal_retry_panics_witness:
  "fst (removeBackend refusing_env ''web'' ''n1'' (snd (removeBackend refusing_env ''web'' ''n1'' node_ctx))) = Panic"
proof -
  let ?c = "snd (removeBackend refusing_env ''web'' ''n1'' node_ctx)"
  have "fst (removeBackend refusing_env ''web'' ''n1'' node_ctx) = Fail ErrIpvsSyscallFailed" by code_simp
  then have "removeBackend refusing_env ''web'' ''n1'' node_ctx = (Fail ErrIpvsSyscallFailed, ?c)"
    by (simp add: prod_eq_iff)
  from removal_retry_panics [OF this] show ?thesis by blast
qed

end
