(* ===== verification/Gorb_Kernel.thy ===== *)
theory Gorb_Kernel
  imports Gorb_Lifecycle
begin

text \<open>
  The abstract specification of the context: the kernel's table is the image of the two maps.
  Each service in the map is one virtual service with its scheduler and flags, each backend is
  one destination of its service with its forwarding method and weight, and the kernel has nothing
  else.  The operations keep this relation under the conditions that their theorems name; where
  one of these conditions fails, the defects of \<open>Gorb_Lifecycle\<close> show the relation broken.
\<close>

section \<open>A table indexed by a map\<close>

definition tabled :: "('k \<Rightarrow> 'x option) \<Rightarrow> ('i \<Rightarrow> 'y option) \<Rightarrow> ('y \<Rightarrow> 'k) \<Rightarrow> ('y \<Rightarrow> 'x) \<Rightarrow> bool" where
  "tabled t m key attr \<longleftrightarrow>
     (\<forall>k x. t k = Some x \<longleftrightarrow> (\<exists>i y. m i = Some y \<and> key y = k \<and> attr y = x)) \<and>
     (\<forall>i j y z. m i = Some y \<longrightarrow> m j = Some z \<longrightarrow> key y = key z \<longrightarrow> i = j)"

lemma tabledD:
  assumes "tabled t m key attr"
  shows "m i = Some y \<Longrightarrow> t (key y) = Some (attr y)"
    and "t k = Some x \<Longrightarrow> \<exists>i y. m i = Some y \<and> key y = k \<and> attr y = x"
    and "m i = Some y \<Longrightarrow> m j = Some z \<Longrightarrow> key y = key z \<Longrightarrow> i = j"
  using assms unfolding tabled_def by blast+

lemma tabledI:
  assumes "\<And>i y. m i = Some y \<Longrightarrow> t (key y) = Some (attr y)"
    and "\<And>k x. t k = Some x \<Longrightarrow> \<exists>i y. m i = Some y \<and> key y = k \<and> attr y = x"
    and "\<And>i j y z. m i = Some y \<Longrightarrow> m j = Some z \<Longrightarrow> key y = key z \<Longrightarrow> i = j"
  shows "tabled t m key attr"
  unfolding tabled_def using assms by blast

lemma tabled_empty: "tabled Map.empty Map.empty key attr"
  by (simp add: tabled_def)

lemma tabled_insert:
  assumes "tabled t m key attr" "m i = None" "t (key y) = None"
  shows "tabled (t(key y \<mapsto> attr y)) (m(i \<mapsto> y)) key attr"
proof -
  note d = tabledD [OF assms(1)]
  have new: "key z \<noteq> key y" if "m j = Some z" for j z using d(1) [OF that] assms(3) by auto
  show ?thesis
  proof (rule tabledI)
    fix k x assume k: "(t(key y \<mapsto> attr y)) k = Some x"
    show "\<exists>j z. (m(i \<mapsto> y)) j = Some z \<and> key z = k \<and> attr z = x"
    proof (cases "k = key y")
      case True
      with k show ?thesis by auto
    next
      case False
      with k obtain j z where "m j = Some z" "key z = k" "attr z = x" using d(2) [of k x] by auto
      moreover from this assms(2) have "j \<noteq> i" by auto
      ultimately show ?thesis by auto
    qed
  next
    fix j k x z assume "(m(i \<mapsto> y)) j = Some x" "(m(i \<mapsto> y)) k = Some z" "key x = key z"
    then show "j = k" using d(3) [of j x k z] new [of j x] new [of k z] by (auto split: if_splits)
  qed (use d(1) new in \<open>auto split: if_splits\<close>)
qed

lemma tabled_delete:
  assumes "tabled t m key attr" "m i = Some y"
  shows "tabled (t(key y := None)) (m(i := None)) key attr"
proof -
  note d = tabledD [OF assms(1)]
  have other: "key z \<noteq> key y" if "m j = Some z" "j \<noteq> i" for j z using d(3) [OF that(1) assms(2)] that(2) by auto
  show ?thesis
  proof (rule tabledI)
    fix k x assume "(t(key y := None)) k = Some x"
    then obtain j z where "m j = Some z" "key z = k" "attr z = x" "k \<noteq> key y"
      using d(2) [of k x] by (auto split: if_splits)
    moreover from this assms(2) have "j \<noteq> i" by auto
    ultimately show "\<exists>j z. (m(i := None)) j = Some z \<and> key z = k \<and> attr z = x" by auto
  next
    fix j k x z assume "(m(i := None)) j = Some x" "(m(i := None)) k = Some z" "key x = key z"
    then show "j = k" using d(3) by (auto split: if_splits)
  qed (use d(1) other in \<open>auto split: if_splits\<close>)
qed

lemma tabled_update:
  assumes "tabled t m key attr" "m i = Some y" "key y' = key y"
  shows "tabled (t(key y \<mapsto> attr y')) (m(i \<mapsto> y')) key attr"
  using tabled_insert [OF tabled_delete [OF assms(1,2)], of i y'] assms(3) by simp

lemma tabled_filter:
  assumes "tabled t m key attr"
    and "\<And>i. m' i = (case m i of None \<Rightarrow> None | Some y \<Rightarrow> if P (key y) then None else Some y)"
  shows "tabled (\<lambda>k. if P k then None else t k) m' key attr"
proof -
  note d = tabledD [OF assms(1)]
  have m': "m' i = Some y \<longleftrightarrow> m i = Some y \<and> \<not> P (key y)" for i y
    by (auto simp: assms(2) split: option.splits)
  show ?thesis
  proof (rule tabledI)
    fix k x assume "(if P k then None else t k) = Some x"
    then show "\<exists>j z. m' j = Some z \<and> key z = k \<and> attr z = x"
      using d(2) [of k x] by (auto simp: m' split: if_splits)
  next
    fix j k x z assume "m' j = Some x" "m' k = Some z" "key x = key z"
    then show "j = k" using d(3) by (auto simp: m')
  qed (use d(1) in \<open>auto simp: m'\<close>)
qed

lemma gget_gput_fun: "gget (gput k v m) = (gget m)(k \<mapsto> v)"
  by auto

lemma gget_gdel_fun: "gget (gdel k m) = (gget m)(k := None)"
  by auto

lemma gget_gempty_fun: "gget gempty = Map.empty"
  by auto

section \<open>The two halves of the kernel's table\<close>

definition svc_part :: "vtable \<Rightarrow> vkey \<Rightarrow> (string \<times> u32) option" where
  "svc_part t k = map_option (\<lambda>v. (vs_sched v, vs_flags v)) (t k)"

definition dest_part :: "vtable \<Rightarrow> vkey \<times> rkey \<Rightarrow> (u32 \<times> u32) option" where
  "dest_part t kr = (case t (fst kr) of None \<Rightarrow> None | Some v \<Rightarrow> vs_dests v (snd kr))"

definition svc_attr :: "env \<Rightarrow> service \<Rightarrow> string \<times> u32" where
  "svc_attr E s = (so_Method (s_options s), createFlagbits (libconsts E) (service_flags (s_options s)))"

definition bck_key :: "backend \<Rightarrow> vkey \<times> rkey" where
  "bck_key b = (svc_vkey (b_service b), bck_rkey (b_options b))"

definition bck_attr :: "env \<Rightarrow> backend \<Rightarrow> u32 \<times> u32" where
  "bck_attr E b = ((case backendForwarding (libconsts E) (bo_Method (b_options b)) of None \<Rightarrow> 0 | Some f \<Rightarrow> f),
     bo_Weight (b_options b))"

lemma part_empty [simp]: "svc_part Map.empty = Map.empty" "dest_part Map.empty = Map.empty"
  by (auto simp: svc_part_def dest_part_def)

lemma svc_part_add: "svc_part (table_add E opts t) =
    (svc_part t)(opts_vkey opts \<mapsto> (so_Method opts, createFlagbits (libconsts E) (service_flags opts)))"
  by (auto simp: svc_part_def table_add_def)

lemma dest_part_add: "t (opts_vkey opts) = None \<Longrightarrow> dest_part (table_add E opts t) = dest_part t"
  by (auto simp: dest_part_def table_add_def)

lemma svc_part_upd: "t (opts_vkey opts) \<noteq> None \<Longrightarrow> svc_part (table_upd E opts t) =
    (svc_part t)(opts_vkey opts \<mapsto> (so_Method opts, createFlagbits (libconsts E) (service_flags opts)))"
  by (auto simp: svc_part_def table_upd_def on_vservice_def)

lemma dest_part_upd: "dest_part (table_upd E opts t) = dest_part t"
  by (auto simp: dest_part_def table_upd_def on_vservice_def split: option.split)

lemma svc_part_dest: "svc_part (table_dest so r d t) = svc_part t"
  by (auto simp: svc_part_def table_dest_def on_vservice_def option.map_comp o_def)

lemma dest_part_dest:
  "t (opts_vkey so) \<noteq> None \<or> d = None \<Longrightarrow> dest_part (table_dest so r d t) = (dest_part t)((opts_vkey so, r) := d)"
  by (auto simp: dest_part_def table_dest_def on_vservice_def split: option.split)

lemma part_del: "svc_part (t(k := None)) = (svc_part t)(k := None)"
  "dest_part (t(k := None)) = (\<lambda>kr. if fst kr = k then None else dest_part t kr)"
  by (auto simp: svc_part_def dest_part_def)

section \<open>Consistent contexts\<close>

text \<open>
  The relation to the kernel, every backend belongs to a service of the map, and no backend has
  its stop channel closed.
\<close>

definition agree :: "env \<Rightarrow> ctx \<Rightarrow> bool" where
  "agree E c \<longleftrightarrow> tabled (svc_part (ipvs_table (cx_log c))) (gget (cx_services c)) svc_vkey (svc_attr E) \<and>
     tabled (dest_part (ipvs_table (cx_log c))) (gget (cx_backends c)) bck_key (bck_attr E)"

definition linked :: "ctx \<Rightarrow> bool" where
  "linked c \<longleftrightarrow> (\<forall>k b. gget (cx_backends c) k = Some b \<longrightarrow> (\<exists>i. gget (cx_services c) i = Some (b_service b)))"

definition running :: "ctx \<Rightarrow> bool" where
  "running c \<longleftrightarrow> (\<forall>k b. gget (cx_backends c) k = Some b \<longrightarrow> p_stopCh (b_monitor b) \<notin> set (cx_closed c))"

definition consistent :: "env \<Rightarrow> ctx \<Rightarrow> bool" where
  "consistent E c \<longleftrightarrow> ctx_wf E c \<and> agree E c \<and> linked c \<and> running c"

lemma consistent_quiet: "quiet c c' \<Longrightarrow> consistent E c' = consistent E c"
  by (simp add: consistent_def agree_def linked_def running_def wf_quiet quiet_sel)

lemma consistentD:
  assumes "consistent E c"
  shows "ctx_wf E c" "agree E c"
    and "gget (cx_backends c) k = Some b \<Longrightarrow> \<exists>i. gget (cx_services c) i = Some (b_service b)"
    and "gget (cx_backends c) k = Some b \<Longrightarrow> p_stopCh (b_monitor b) \<notin> set (cx_closed c)"
    and "gget (cx_services c) i = Some s \<Longrightarrow> gget (cx_services c) j = Some t \<Longrightarrow> svc_vkey s = svc_vkey t \<Longrightarrow> i = j"
    and "gget (cx_services c) i = Some s \<Longrightarrow> ipvs_table (cx_log c) (svc_vkey s) \<noteq> None"
proof -
  show "ctx_wf E c" "agree E c"
    and "gget (cx_backends c) k = Some b \<Longrightarrow> \<exists>i. gget (cx_services c) i = Some (b_service b)"
    and "gget (cx_backends c) k = Some b \<Longrightarrow> p_stopCh (b_monitor b) \<notin> set (cx_closed c)"
    using assms by (simp_all add: consistent_def linked_def running_def)
  have t: "tabled (svc_part (ipvs_table (cx_log c))) (gget (cx_services c)) svc_vkey (svc_attr E)"
    using assms by (simp add: consistent_def agree_def)
  show "gget (cx_services c) i = Some s \<Longrightarrow> gget (cx_services c) j = Some t \<Longrightarrow> svc_vkey s = svc_vkey t \<Longrightarrow> i = j"
    by (rule tabledD(3) [OF t])
  show "gget (cx_services c) i = Some s \<Longrightarrow> ipvs_table (cx_log c) (svc_vkey s) \<noteq> None"
    using tabledD(1) [OF t, of i s] by (auto simp: svc_part_def)
qed

text \<open>
  What the kernel does by its documentation: it refuses a virtual service that exists, and a
  destination of one that does not exist or that has this destination already.
\<close>

definition kernel_ok :: "env \<Rightarrow> bool" where
  "kernel_ok E \<longleftrightarrow>
     (\<forall>l s. ipvsDo E l (NewService s) = None \<longrightarrow> ipvs_table l (svc_key s) = None) \<and>
     (\<forall>l s d. ipvsDo E l (NewDestination s d) = None \<longrightarrow>
        (\<exists>v. ipvs_table l (svc_key s) = Some v \<and> vs_dests v (dest_key d) = None))"

lemma kernel_new_service:
  "kernel_ok E \<Longrightarrow> ipvs_AddService E v p pr s fs l = (None, l') \<Longrightarrow> ipvs_table l (vkey_of v p pr) = None"
  by (auto simp: kernel_ok_def ipvs_AddService_def ipvs_call_def Let_def
      dest!: createSvcKey_key split: sum.splits) (metis svc_key_upd)

lemma kernel_new_dest:
  "kernel_ok E \<Longrightarrow> ipvs_AddDestPort E v p r rp pr w f l = (None, l') \<Longrightarrow>
     \<exists>x fwd. ipvs_table l (vkey_of v p pr) = Some x \<and> vs_dests x (rkey_of r rp) = None \<and>
       backendForwarding (libconsts E) f = Some fwd"
  by (auto simp: kernel_ok_def ipvs_AddDestPort_def ipvs_call_def Let_def
      dest!: createSvcKey_key split: sum.splits option.splits) (metis dest_key_create)


section \<open>The operations keep a context consistent\<close>

lemma consistent_createService:
  assumes k: "kernel_ok E" and c: "consistent E c"
  shows "consistent E (snd (createService E i opts0 c))"
proof -
  obtain r c' where r: "createService E i opts0 c = (r, c')" by force
  then show ?thesis
  proof (cases rule: createService_cases)
    case fail
    with c r show ?thesis by (simp add: consistent_quiet)
  next
    case (ok c1 c2 l2 opts1 opts)
    note q = quiet_sel [OF ok(5)] logged_to_sel [OF ok(7)]
    let ?s = "\<lparr>s_addr = cx_next c, s_options = opts\<rparr>"
    have t: "ipvs_table (cx_log c) (opts_vkey opts) = None"
      using kernel_new_service [OF k ok(6)] by (simp add: q opts_vkey_def)
    have tab: "ipvs_table (cx_log (put_service i opts c2)) = table_add E opts (ipvs_table (cx_log c))"
      by (simp add: q)
    have "agree E c" using c by (simp add: consistent_def)
    have t': "svc_part (ipvs_table (cx_log c)) (svc_vkey ?s) = None"
      using t by (simp add: svc_part_def svc_vkey_opts)
    have "tabled ((svc_part (ipvs_table (cx_log c)))(svc_vkey ?s \<mapsto> svc_attr E ?s))
        ((gget (cx_services c))(i \<mapsto> ?s)) svc_vkey (svc_attr E)"
      by (rule tabled_insert) (use \<open>agree E c\<close> ok(2) t' in \<open>simp_all only: agree_def\<close>)
    then have "agree E (put_service i opts c2)"
      using \<open>agree E c\<close> t unfolding agree_def tab
      by (simp add: q svc_part_add dest_part_add gget_gput_fun svc_vkey_opts svc_attr_def)
    moreover have "linked (put_service i opts c2)"
      unfolding linked_def
    proof (intro allI impI)
      fix k b assume "gget (cx_backends (put_service i opts c2)) k = Some b"
      then obtain j where "gget (cx_services c) j = Some (b_service b)"
        using consistentD(3) [OF c] by (auto simp: q)
      moreover from this ok(2) have "j \<noteq> i" by auto
      ultimately show "\<exists>j. gget (cx_services (put_service i opts c2)) j = Some (b_service b)" by (auto simp: q)
    qed
    moreover have "running (put_service i opts c2)" using c by (simp add: consistent_def running_def q)
    moreover have "ctx_wf E (put_service i opts c2)"
      using c ok svc.fill_filled [OF ok(3)]
      by (intro wf_put_service) (auto simp: consistent_def wf_quiet wf_logged)
    ultimately have "consistent E (put_service i opts c2)" by (simp add: consistent_def)
    with ok(8) r show ?thesis by (simp add: consistent_quiet)
  qed
qed

lemma consistent_createBackend:
  assumes k: "kernel_ok E" and c: "consistent E c"
  shows "consistent E (snd (createBackend E i j opts0 c))"
proof -
  obtain r c' where r: "createBackend E i j opts0 c = (r, c')" by force
  then show ?thesis
  proof (cases rule: createBackend_cases)
    case fail
    with c r show ?thesis by (simp add: consistent_quiet)
  next
    case panic
    with c r show ?thesis by (simp add: consistent_quiet)
  next
    case (ok vs opts p c1 c2)
    note q = quiet_sel [OF ok(5)] logged_to_sel [OF ok(7)]
    let ?b = "\<lparr>b_options = opts, b_service = vs, b_monitor = p, b_metrics = zero_Metrics\<rparr>"
    obtain x fwd where x: "ipvs_table (cx_log c) (opts_vkey (s_options vs)) = Some x"
      "vs_dests x (bck_rkey opts) = None" and fwd: "backendForwarding (libconsts E) (bo_Method opts) = Some fwd"
      using kernel_new_dest [OF k ok(6)] by (auto simp: q opts_vkey_def bck_rkey_def)
    have tab: "ipvs_table (cx_log c') = table_dest (s_options vs) (bck_rkey opts) (Some (fwd, bo_Weight opts))
        (ipvs_table (cx_log c))"
      using ok(8) fwd by (simp add: q)
    have f: "cx_services c' = cx_services c" "cx_backends c' = gput j ?b (cx_backends c)"
      "cx_closed c' = cx_closed c" using ok(8) by (simp_all add: q)
    have "agree E c" using c by (simp add: consistent_def)
    have d': "dest_part (ipvs_table (cx_log c)) (bck_key ?b) = None"
      using x by (simp add: dest_part_def bck_key_def svc_vkey_opts)
    have "tabled ((dest_part (ipvs_table (cx_log c)))(bck_key ?b \<mapsto> bck_attr E ?b))
        ((gget (cx_backends c))(j \<mapsto> ?b)) bck_key (bck_attr E)"
      by (rule tabled_insert) (use \<open>agree E c\<close> ok(2) d' in \<open>simp_all only: agree_def\<close>)
    then have "agree E c'"
      using \<open>agree E c\<close> x unfolding agree_def tab
      by (simp add: f svc_part_dest dest_part_dest gget_gput_fun bck_key_def bck_attr_def fwd svc_vkey_opts)
    moreover have "linked c'"
      using c ok(3) by (auto simp: linked_def f consistent_def split: if_splits)
    moreover have "running c'"
      unfolding running_def
    proof (intro allI impI)
      fix k b assume b: "gget (cx_backends c') k = Some b"
      have "cx_next c \<notin> set (cx_closed c)" using wf_closed [OF consistentD(1) [OF c]] by blast
      moreover have "p_stopCh p = cx_next c"
        by (rule new_backend_wf(2) [OF ok(4) wf_service [OF consistentD(1) [OF c] ok(3)]])
      ultimately show "p_stopCh (b_monitor b) \<notin> set (cx_closed c')"
        using b consistentD(4) [OF c] by (auto simp: f split: if_splits)
    qed
    moreover have "ctx_wf E c'" using wf_createBackend [OF consistentD(1) [OF c], of i j opts0] r by simp
    ultimately show ?thesis using r by (simp add: consistent_def)
  qed
qed

lemma consistent_updateBackend:
  assumes c: "consistent E c"
  shows "consistent E (snd (updateBackend E i j w c))"
proof -
  obtain r c' where r: "updateBackend E i j w c = (r, c')" by force
  then show ?thesis
  proof (cases rule: updateBackend_cases)
    case none
    with c r show ?thesis by simp
  next
    case fail
    with c r show ?thesis by (simp add: consistent_quiet)
  next
    case (ok b c1)
    note q = logged_to_sel [OF ok(3)]
    let ?b = "b\<lparr>b_options := b_options b\<lparr>bo_Weight := w\<rparr>\<rparr>"
    obtain fwd where fwd: "backendForwarding (libconsts E) (bo_Method (b_options b)) = Some fwd"
      using wf_backend [OF consistentD(1) [OF c] ok(1)]
      by (auto simp: backend_wf_def backend_ok_def ValidForwarding_def)
    have x: "ipvs_table (cx_log c) (svc_vkey (b_service b)) \<noteq> None"
      using consistentD(3) [OF c ok(1)] consistentD(6) [OF c] by blast
    have tab: "ipvs_table (cx_log c') = table_dest (s_options (b_service b)) (bck_rkey (b_options b)) (Some (fwd, w))
        (ipvs_table (cx_log c))"
      using ok(4) fwd by (simp add: q)
    have f: "cx_services c' = cx_services c" "cx_backends c' = gput j ?b (cx_backends c)"
      "cx_closed c' = cx_closed c" using ok(4) by (simp_all add: q)
    have key: "bck_key ?b = bck_key b" by (simp add: bck_key_def bck_rkey_def)
    have "agree E c" using c by (simp add: consistent_def)
    then have "tabled ((dest_part (ipvs_table (cx_log c)))(bck_key b \<mapsto> bck_attr E ?b))
        ((gget (cx_backends c))(j \<mapsto> ?b)) bck_key (bck_attr E)"
      using ok(1) key by (intro tabled_update) (simp_all add: agree_def)
    then have "agree E c'"
      using \<open>agree E c\<close> x unfolding agree_def tab
      by (simp add: f svc_part_dest dest_part_dest gget_gput_fun bck_key_def bck_attr_def fwd svc_vkey_opts)
    moreover have "linked c'" "running c'"
      using c ok(1) by (auto simp: linked_def running_def f consistent_def split: if_splits)
    moreover have "ctx_wf E c'" using wf_updateBackend [OF consistentD(1) [OF c], of i j w] r by simp
    ultimately show ?thesis using r by (simp add: consistent_def)
  qed
qed

lemma consistent_removeBackend:
  assumes c: "consistent E c" and r: "removeBackend E i j c = (r, c')"
  shows "r \<noteq> Panic" and "r \<noteq> Fail ErrIpvsSyscallFailed \<Longrightarrow> consistent E c'"
proof -
  show "r \<noteq> Panic"
    using r by (cases rule: removeBackend_cases) (use consistentD(4) [OF c] in auto)
  assume nf: "r \<noteq> Fail ErrIpvsSyscallFailed"
  show "consistent E c'"
    using r
  proof (cases rule: removeBackend_cases)
    case none
    with c show ?thesis by simp
  next
    case (panic b)
    with consistentD(4) [OF c] show ?thesis by blast
  next
    case fail
    with nf show ?thesis by simp
  next
    case (ok b c1 c2)
    note q = quiet_sel [OF ok(4)] logged_to_sel [OF ok(5)]
    have tab: "ipvs_table (cx_log c') = table_dest (s_options (b_service b)) (bck_rkey (b_options b)) None
        (ipvs_table (cx_log c))"
      using ok(6) by (simp add: q)
    have f: "cx_services c' = cx_services c" "cx_backends c' = gdel j (cx_backends c)"
      "cx_closed c' = p_stopCh (b_monitor b) # cx_closed c" using ok(6) by (simp_all add: q)
    have "agree E c" using c by (simp add: consistent_def)
    then have "tabled ((dest_part (ipvs_table (cx_log c)))(bck_key b := None))
        ((gget (cx_backends c))(j := None)) bck_key (bck_attr E)"
      using ok(1) by (intro tabled_delete) (simp_all add: agree_def)
    then have "agree E c'"
      using \<open>agree E c\<close> unfolding agree_def tab
      by (simp add: f svc_part_dest dest_part_dest gget_gdel_fun bck_key_def svc_vkey_opts)
    moreover have "linked c'"
      using c by (auto simp: linked_def f consistent_def split: if_splits)
    moreover have "running c'"
      unfolding running_def
    proof (intro allI impI)
      fix k a assume "gget (cx_backends c') k = Some a"
      then have a: "gget (cx_backends c) k = Some a" "k \<noteq> j" by (auto simp: f split: if_splits)
      then have "p_stopCh (b_monitor a) \<noteq> p_stopCh (b_monitor b)"
        using wf_mapsD(4) [OF consistentD(1) [OF c, unfolded ctx_wf_def] a(1) ok(1)] by blast
      with a consistentD(4) [OF c] show "p_stopCh (b_monitor a) \<notin> set (cx_closed c')" by (simp add: f)
    qed
    moreover have "ctx_wf E c'" using wf_removeBackend [OF consistentD(1) [OF c], of i j] r by simp
    ultimately show ?thesis by (simp add: consistent_def)
  qed
qed

lemma attached_key:
  assumes c: "consistent E c" and vs: "gget (cx_services c) i = Some vs" and b: "gget (cx_backends c) k = Some b"
  shows "attached vs b \<longleftrightarrow> svc_vkey (b_service b) = svc_vkey vs"
proof
  assume "attached vs b"
  then show "svc_vkey (b_service b) = svc_vkey vs"
    using wf_mapsD(5) [OF consistentD(1) [OF c, unfolded ctx_wf_def] vs b] by (simp add: attached_def)
next
  assume e: "svc_vkey (b_service b) = svc_vkey vs"
  obtain j where j: "gget (cx_services c) j = Some (b_service b)" using consistentD(3) [OF c b] ..
  with e consistentD(5) [OF c j vs] vs show "attached vs b" by (simp add: attached_def)
qed

lemma consistent_removeService:
  assumes c: "consistent E c" and fair: "fair_iter E" and r: "removeService E i c = (r, c')"
  shows "r \<noteq> Panic" and "r \<noteq> Fail ErrIpvsSyscallFailed \<Longrightarrow> consistent E c'"
proof -
  have wf: "ctx_wf E c" by (rule consistentD(1) [OF c])
  show np: "r \<noteq> Panic"
    using r
  proof (cases rule: removeService_cases)
    case (gone vs c1 c2 K)
    show ?thesis
    proof
      assume "r = Panic"
      then obtain k b where k: "gget (cx_backends c) k = Some b" "k \<notin> K"
        and ch: "p_stopCh (b_monitor b) \<in> set (cx_closed c')" using gone(5) by auto
      obtain cl where cl: "set (cx_closed c') = set (cx_closed c) \<union>
          {p_stopCh (b_monitor b) | k b. k \<in> K \<and> gget (cx_backends c) k = Some b}"
        using gone(3) by (auto simp: cleaned_def quiet_sel [OF gone(4)] logged_to_sel [OF gone(2)])
      then obtain k' b' where k': "gget (cx_backends c) k' = Some b'" "k' \<in> K"
        "p_stopCh (b_monitor b) = p_stopCh (b_monitor b')"
        using ch consistentD(4) [OF c k(1)] by auto
      from wf_mapsD(4) [OF wf [unfolded ctx_wf_def] k(1) k'(1,3)] k(2) k'(2) show False by simp
    qed
  qed simp_all
  assume nf: "r \<noteq> Fail ErrIpvsSyscallFailed"
  show "consistent E c'"
  proof (cases "gget (cx_services c) i")
    case None
    then have "c' = c" using r by (simp add: removeService_def)
    with c show ?thesis by simp
  next
    case (Some vs)
    note f = removeService_facts [OF fair r Some]
    obtain so where so: "r = Ok so" using np nf f by (cases r) auto
    have sv: "cx_services c' = gdel i (cx_services c)"
      and tab: "ipvs_table (cx_log c') = (ipvs_table (cx_log c))(svc_vkey vs := None)"
      and cl: "set (cx_closed c') = set (cx_closed c) \<union>
         {p_stopCh (b_monitor b) | k b. gget (cx_backends c) k = Some b \<and> attached vs b}"
      and bk: "\<And>k. gget (cx_backends c') k = (case gget (cx_backends c) k of None \<Rightarrow> None
          | Some b \<Rightarrow> if attached vs b then None else Some b)"
      using f so by auto
    have kept: "gget (cx_backends c') k = Some b \<longleftrightarrow> gget (cx_backends c) k = Some b \<and> \<not> attached vs b" for k b
      by (auto simp: bk split: option.splits)
    have "agree E c" using c by (simp add: consistent_def)
    then have "tabled ((svc_part (ipvs_table (cx_log c)))(svc_vkey vs := None))
        ((gget (cx_services c))(i := None)) svc_vkey (svc_attr E)"
      using Some by (intro tabled_delete) (simp_all add: agree_def)
    moreover have "tabled (\<lambda>kr. if fst kr = svc_vkey vs then None else dest_part (ipvs_table (cx_log c)) kr)
        (gget (cx_backends c')) bck_key (bck_attr E)"
      by (rule tabled_filter [where P = "\<lambda>kr. fst kr = svc_vkey vs" and m = "gget (cx_backends c)"])
        (use \<open>agree E c\<close> attached_key [OF c Some] in \<open>auto simp: agree_def bk bck_key_def split: option.split\<close>)
    ultimately have "agree E c'" by (simp add: agree_def tab sv part_del gget_gdel_fun)
    moreover have "linked c'"
      unfolding linked_def
    proof (intro allI impI)
      fix k b assume "gget (cx_backends c') k = Some b"
      then have b: "gget (cx_backends c) k = Some b" "\<not> attached vs b" by (simp_all add: kept)
      then obtain j where "gget (cx_services c) j = Some (b_service b)" using consistentD(3) [OF c] by blast
      moreover from this b Some have "j \<noteq> i" by (auto simp: attached_def)
      ultimately show "\<exists>j. gget (cx_services c') j = Some (b_service b)" by (auto simp: sv)
    qed
    moreover have "running c'"
      unfolding running_def
    proof (intro allI impI)
      fix k b assume "gget (cx_backends c') k = Some b"
      then have b: "gget (cx_backends c) k = Some b" "\<not> attached vs b" by (simp_all add: kept)
      have "k = k'" if "gget (cx_backends c) k' = Some b'" "p_stopCh (b_monitor b) = p_stopCh (b_monitor b')" for k' b'
        by (rule wf_mapsD(4) [OF wf [unfolded ctx_wf_def] b(1) that])
      then have "p_stopCh (b_monitor b) \<notin>
          {p_stopCh (b_monitor b) | k b. gget (cx_backends c) k = Some b \<and> attached vs b}"
        using b by force
      with consistentD(4) [OF c b(1)] show "p_stopCh (b_monitor b) \<notin> set (cx_closed c')"
        unfolding cl by blast
    qed
    moreover have "ctx_wf E c'" using wf_removeService [OF wf, of i] r by simp
    ultimately show ?thesis by (simp add: consistent_def)
  qed
qed


lemma consistent_updateService:
  assumes k: "kernel_ok E" and c: "consistent E c"
    and none: "\<And>vs j b. gget (cx_services c) i = Some vs \<Longrightarrow> gget (cx_backends c) j = Some b \<Longrightarrow> \<not> attached vs b"
  shows "consistent E (snd (updateService E i opts0 c))"
proof -
  obtain r c' where r: "updateService E i opts0 c = (r, c')" by force
  then show ?thesis
  proof (cases rule: updateService_cases)
    case fail
    with c r show ?thesis by (simp add: consistent_quiet)
  next
    case (create c1 opts l)
    with consistent_createService [OF k, of c1 i opts] c r show ?thesis by (simp add: consistent_quiet)
  next
    case (ok old c1 c2 opts l)
    note q = quiet_sel [OF ok(6)] logged_to_sel [OF ok(7)] quiet_sel [OF ok(8)]
    let ?s = "\<lparr>s_addr = cx_next c, s_options = opts\<rparr>"
    have key: "svc_vkey ?s = svc_vkey old" using ok(4) by (simp add: svc_vkey_opts)
    have t: "ipvs_table (cx_log c) (opts_vkey opts) \<noteq> None"
      using consistentD(6) [OF c ok(2)] ok(4) by simp
    have tab: "ipvs_table (cx_log c') = table_upd E opts (ipvs_table (cx_log c))" by (simp add: q)
    have f: "cx_services c' = gput i ?s (cx_services c)" "cx_backends c' = cx_backends c"
      "cx_closed c' = cx_closed c" by (simp_all add: q)
    have a: "agree E c" using c by (simp add: consistent_def)
    have "tabled ((svc_part (ipvs_table (cx_log c)))(svc_vkey old \<mapsto> svc_attr E ?s))
        ((gget (cx_services c))(i \<mapsto> ?s)) svc_vkey (svc_attr E)"
      by (rule tabled_update) (use a ok(2) key in \<open>simp_all only: agree_def\<close>)
    then have "agree E c'"
      using a t ok(4) unfolding agree_def tab
      by (simp add: f svc_part_upd dest_part_upd gget_gput_fun svc_attr_def)
    moreover have "linked c'"
      unfolding linked_def
    proof (intro allI impI)
      fix k b assume "gget (cx_backends c') k = Some b"
      then have b: "gget (cx_backends c) k = Some b" by (simp add: f)
      then obtain j where j: "gget (cx_services c) j = Some (b_service b)" using consistentD(3) [OF c] by blast
      have "j \<noteq> i" using none [OF _ b] j by (auto simp: attached_def)
      with j show "\<exists>j. gget (cx_services c') j = Some (b_service b)" by (auto simp: f)
    qed
    moreover have "running c'" using c by (simp add: consistent_def running_def f)
    moreover have "ctx_wf E c'" using wf_updateService [OF consistentD(1) [OF c], of i opts0] r by simp
    ultimately show ?thesis using r by (simp add: consistent_def)
  qed
qed

lemma consistent_new: "ipvs_table l = Map.empty \<Longrightarrow> consistent E (c0\<lparr>cx_log := l\<rparr>)"
  if "ctx_wf E c0" "cx_services c0 = gempty" "cx_backends c0 = gempty"
  using that by (simp add: consistent_def agree_def linked_def running_def gget_gempty_fun tabled_empty)

section \<open>Properties\<close>

text \<open>
  Claim C1. The context implements its abstract specification: starting from a context whose maps
  are the kernel's table, creation of services and backends and a change of weight lead to such a
  context whatever the outside world answers.  A removal never panics and does so too unless the
  kernel refuses it, and an update of a service does so while no backend is attached to it.
\<close>

theorem kernel_refinement:
  assumes "kernel_ok E" and "fair_iter E" and "consistent E c"
  shows "consistent E (snd (createService E i so c)) \<and>
    consistent E (snd (createBackend E i k bo c)) \<and>
    consistent E (snd (updateBackend E i k w c)) \<and>
    (\<forall>r c'. removeBackend E i k c = (r, c') \<longrightarrow>
       r \<noteq> Panic \<and> (r \<noteq> Fail ErrIpvsSyscallFailed \<longrightarrow> consistent E c')) \<and>
    (\<forall>r c'. removeService E i c = (r, c') \<longrightarrow>
       r \<noteq> Panic \<and> (r \<noteq> Fail ErrIpvsSyscallFailed \<longrightarrow> consistent E c')) \<and>
    ((\<forall>vs j b. gget (cx_services c) i = Some vs \<longrightarrow> gget (cx_backends c) j = Some b \<longrightarrow> \<not> attached vs b) \<longrightarrow>
       consistent E (snd (updateService E i so c)))"
proof (intro conjI allI impI)
  show "consistent E (snd (createService E i so c))" by (rule consistent_createService [OF assms(1,3)])
  show "consistent E (snd (createBackend E i k bo c))" by (rule consistent_createBackend [OF assms(1,3)])
  show "consistent E (snd (updateBackend E i k w c))" by (rule consistent_updateBackend [OF assms(3)])
  show "r \<noteq> Panic" and "r \<noteq> Fail ErrIpvsSyscallFailed \<Longrightarrow> consistent E c'"
    if "removeBackend E i k c = (r, c')" for r c' by (rule consistent_removeBackend [OF assms(3) that])+
  show "r \<noteq> Panic" and "r \<noteq> Fail ErrIpvsSyscallFailed \<Longrightarrow> consistent E c'"
    if "removeService E i c = (r, c')" for r c' by (rule consistent_removeService [OF assms(3,2) that])+
  show "consistent E (snd (updateService E i so c))"
    if "\<forall>vs j b. gget (cx_services c) i = Some vs \<longrightarrow> gget (cx_backends c) j = Some b \<longrightarrow> \<not> attached vs b"
    by (rule consistent_updateService [OF assms(1,3)]) (use that in blast)
qed

text \<open>A kernel that keeps a table, for the witnesses.\<close>

definition kernel_do :: "log \<Rightarrow> ipvs_req \<Rightarrow> string option" where
  "kernel_do l r = (case r of
       NewService s \<Rightarrow> (case ipvs_table l (svc_key s) of None \<Rightarrow> None | Some _ \<Rightarrow> Some ''EEXIST'')
     | NewDestination s d \<Rightarrow> (case ipvs_table l (svc_key s) of None \<Rightarrow> Some ''ESRCH''
         | Some v \<Rightarrow> (case vs_dests v (dest_key d) of None \<Rightarrow> None | Some _ \<Rightarrow> Some ''EEXIST''))
     | _ \<Rightarrow> None)"

definition kernel_env :: env where
  "kernel_env = ok_env\<lparr>ipvsDo := kernel_do\<rparr>"

lemma kernel_ok_env [simp]: "kernel_ok kernel_env" "fair_iter kernel_env"
  using fair_ok_env
  by (auto simp: kernel_ok_def kernel_env_def kernel_do_def fair_iter_def split: option.splits)

lemma consistent_new_ctx [simp]: "consistent E (new_ctx [])"
  by (simp add: consistent_def agree_def linked_def running_def gget_gempty_fun tabled_empty)

definition kweb_ctx :: ctx where
  "kweb_ctx = snd (createService kernel_env ''web'' web_opts (new_ctx []))"

definition knode_ctx :: ctx where
  "knode_ctx = snd (createBackend kernel_env ''web'' ''n1'' node_opts kweb_ctx)"

theorem kernel_refinement_witness:
  "consistent kernel_env kweb_ctx \<and> (\<exists>so c'. removeService kernel_env ''web'' kweb_ctx = (Ok so, c') \<and> consistent kernel_env c')"
proof -
  have c: "consistent kernel_env kweb_ctx"
    unfolding kweb_ctx_def by (rule consistent_createService) simp_all
  have "(case fst (removeService kernel_env ''web'' kweb_ctx) of Ok _ \<Rightarrow> True | _ \<Rightarrow> False)" by code_simp
  then obtain so c' where r: "removeService kernel_env ''web'' kweb_ctx = (Ok so, c')"
    by (cases "removeService kernel_env ''web'' kweb_ctx") (auto split: outcome.splits)
  with kernel_refinement [OF kernel_ok_env c] show ?thesis using c by blast
qed

text \<open>
  Claim C2. What the status queries report is what the kernel does: in a consistent context the
  scheduler and flags of every service and the forwarding method and weight of every backend are
  those in the kernel's table, and the kernel has no other virtual service and no other destination.
\<close>

theorem kernel_matches_report:
  assumes "consistent E c"
  shows "(\<forall>i info. GetService E i c = Inr info \<longrightarrow>
       (\<exists>v. ipvs_table (cx_log c) (opts_vkey (si_Options info)) = Some v \<and> vs_sched v = so_Method (si_Options info) \<and>
          vs_flags v = createFlagbits (libconsts E) (service_flags (si_Options info)))) \<and>
    (\<forall>i k info. GetBackend i k c = Inr info \<longrightarrow>
       (\<exists>key v f. ipvs_table (cx_log c) key = Some v \<and>
          backendForwarding (libconsts E) (bo_Method (bi_Options info)) = Some f \<and>
          vs_dests v (bck_rkey (bi_Options info)) = Some (f, bo_Weight (bi_Options info)))) \<and>
    (\<forall>key v. ipvs_table (cx_log c) key = Some v \<longrightarrow>
       (\<exists>i s. gget (cx_services c) i = Some s \<and> svc_vkey s = key) \<and>
       (\<forall>r x. vs_dests v r = Some x \<longrightarrow>
          (\<exists>k b. gget (cx_backends c) k = Some b \<and> svc_vkey (b_service b) = key \<and> bck_rkey (b_options b) = r)))"
proof (intro conjI allI impI)
  let ?t = "ipvs_table (cx_log c)"
  have s: "tabled (svc_part ?t) (gget (cx_services c)) svc_vkey (svc_attr E)"
    and b: "tabled (dest_part ?t) (gget (cx_backends c)) bck_key (bck_attr E)"
    using assms by (simp_all add: consistent_def agree_def)
  show "\<exists>v. ?t (opts_vkey (si_Options info)) = Some v \<and> vs_sched v = so_Method (si_Options info) \<and>
      vs_flags v = createFlagbits (libconsts E) (service_flags (si_Options info))"
    if g: "GetService E i c = Inr info" for i info
  proof -
    obtain vs where vs: "gget (cx_services c) i = Some vs" "si_Options info = s_options vs"
      using g by (cases "gget (cx_services c) i") (auto simp: GetService_def split: prod.splits)
    from tabledD(1) [OF s vs(1)] show ?thesis
      by (auto simp: svc_part_def svc_attr_def vs(2) svc_vkey_opts)
  qed
  show "\<exists>key v f. ?t key = Some v \<and> backendForwarding (libconsts E) (bo_Method (bi_Options info)) = Some f \<and>
      vs_dests v (bck_rkey (bi_Options info)) = Some (f, bo_Weight (bi_Options info))"
    if g: "GetBackend i k c = Inr info" for i k info
  proof -
    obtain x where x: "gget (cx_backends c) k = Some x" "bi_Options info = b_options x"
      using g by (cases "gget (cx_backends c) k") (auto simp: GetBackend_def)
    obtain f where f: "backendForwarding (libconsts E) (bo_Method (b_options x)) = Some f"
      using wf_backend [OF consistentD(1) [OF assms] x(1)]
      by (auto simp: backend_wf_def backend_ok_def ValidForwarding_def)
    from tabledD(1) [OF b x(1)] show ?thesis
      unfolding x(2) by (intro exI [of _ "svc_vkey (b_service x)"])
        (auto simp: dest_part_def bck_attr_def bck_key_def f split: option.splits)
  qed
  show "\<exists>i s. gget (cx_services c) i = Some s \<and> svc_vkey s = key" if "?t key = Some v" for key v
    using tabledD(2) [OF s, of key] that by (fastforce simp: svc_part_def)
  show "\<exists>k b. gget (cx_backends c) k = Some b \<and> svc_vkey (b_service b) = key \<and> bck_rkey (b_options b) = r"
    if "?t key = Some v" "vs_dests v r = Some x" for key v r x
    using tabledD(2) [OF b, of "(key, r)" x] that by (fastforce simp: dest_part_def bck_key_def)
qed

theorem kernel_matches_report_witness:
  "\<exists>key v f. ipvs_table (cx_log knode_ctx) key = Some v \<and> vs_dests v (bck_rkey (node_opts\<lparr>bo_host := [127, 0, 0, 1]\<rparr>)) = Some (f, 10)"
proof -
  have "consistent kernel_env kweb_ctx"
    unfolding kweb_ctx_def by (rule consistent_createService) simp_all
  then have c: "consistent kernel_env knode_ctx"
    unfolding knode_ctx_def by (intro consistent_createBackend) simp_all
  have "(case GetBackend ''web'' ''n1'' knode_ctx of Inl _ \<Rightarrow> False
      | Inr info \<Rightarrow> bo_Weight (bi_Options info) = 10 \<and> bo_host (bi_Options info) = [127, 0, 0, 1] \<and> bo_Port (bi_Options info) = 80)"
    by code_simp
  then obtain info where i: "GetBackend ''web'' ''n1'' knode_ctx = Inr info" "bo_Weight (bi_Options info) = 10"
    "bck_rkey (bi_Options info) = bck_rkey (node_opts\<lparr>bo_host := [127, 0, 0, 1]\<rparr>)"
    by (auto simp: bck_rkey_def node_opts_def split: sum.splits)
  with kernel_matches_report [OF c] show ?thesis by metis
qed

end
