(* ===== verification/Gorb_Sync.thy ===== *)
theory Gorb_Sync
  imports Gorb_Kernel
begin

text \<open>
  The other half of \<open>src/core/store.go\<close>: opening the external store, and synchronizing the
  context with it.  The properties say what \<open>Synchronize\<close> of \<open>Gorb_Context\<close> achieves.
\<close>

section \<open>Opening the store\<close>

text \<open>The loop over the URLs; the state is the scheme, the path and the hosts so far.\<close>

fun store_urls ::
  "env \<Rightarrow> string list \<Rightarrow> string \<times> string \<times> string list \<Rightarrow> error + string \<times> string \<times> string list" where
  "store_urls E [] s = Inr s"
| "store_urls E (storeURL # us) (scheme, storePath, hosts) =
     (case parseURL E storeURL of Inl e \<Rightarrow> Inl (ErrExternal e)
      | Inr uri \<Rightarrow>
          let uriScheme = to_lower (u_scheme uri) in
          if scheme \<noteq> [] \<and> scheme \<noteq> uriScheme then Inl ErrStoreSchemeMismatch
          else if storePath \<noteq> [] \<and> storePath \<noteq> u_path uri then Inl ErrStorePathMismatch
          else store_urls E us (uriScheme, u_path uri, hosts @ [u_host uri]))"

definition store_backend_name :: "string \<Rightarrow> string option" where
  "store_backend_name scheme =
     (if scheme = ''consul'' then Some ''consul''
      else if scheme = ''etcd'' then Some ''etcd''
      else if scheme = ''zookeeper'' then Some ''zk''
      else if scheme = ''boltdb'' then Some ''boltdb''
      else if scheme = ''mock'' then Some ''mock''
      else None)"

definition store_Sync :: "env \<Rightarrow> Store \<Rightarrow> ctx \<Rightarrow> unit outcome \<times> ctx" where
  "store_Sync E s c =
     (case getExternalServices E s (cx_log c) of
        Inl e \<Rightarrow> (Ok (), c)
      | Inr services \<Rightarrow>
          (case getExternalBackends E s (cx_log c) of
             Inl e \<Rightarrow> (Ok (), c)
           | Inr backends \<Rightarrow> Synchronize E services backends c))"

text \<open>
  \<open>NewStore\<close> synchronizes once and then starts a ticker, which panics unless its period is
  positive; the period is a product of 64-bit integers.
\<close>

definition NewStore ::
  "env \<Rightarrow> string list \<Rightarrow> string \<Rightarrow> string \<Rightarrow> i64 \<Rightarrow> ctx \<Rightarrow> Store outcome \<times> ctx" where
  "NewStore E storeURLs servicePath backendPath syncTime c =
     (case store_urls E storeURLs ([], [], []) of
        Inl e \<Rightarrow> (Fail e, c)
      | Inr (scheme, storePath, hosts) \<Rightarrow>
          (case store_backend_name scheme of
             None \<Rightarrow> (Fail (ErrStoreScheme scheme), c)
           | Some kv \<Rightarrow>
               (case newKV E kv hosts of
                  Some e \<Rightarrow> (Fail (ErrExternal e), c)
                | None \<Rightarrow>
                    let s = \<lparr>storeServicePath = path_Join [storePath, servicePath],
                             storeBackendPath = path_Join [storePath, backendPath]\<rparr>
                    in (case store_Sync E s (SetStore s c) of
                          (Panic, c') \<Rightarrow> (Panic, c')
                        | (_, c') \<Rightarrow> if sint (syncTime * word_of_int second) \<le> 0 then (Panic, c') else (Ok s, c')))))"

text \<open>
  The goroutine of the store: a tick synchronizes, a closed stop channel ends it.  \<open>Close\<close>
  closes the channel, which panics the second time.
\<close>

record store_loop =
  sl_closed :: bool
  sl_done :: bool
  sl_ctx :: ctx

definition store_Close :: "store_loop \<Rightarrow> store_loop outcome" where
  "store_Close sl = (if sl_closed sl then Panic else Ok (sl\<lparr>sl_closed := True\<rparr>))"

inductive store_loop_step :: "env \<Rightarrow> Store \<Rightarrow> store_loop \<Rightarrow> store_loop \<Rightarrow> bool" for E s where
  tick: "\<not> sl_done sl \<Longrightarrow> store_Sync E s (sl_ctx sl) = (r, c') \<Longrightarrow> r \<noteq> Panic \<Longrightarrow>
    store_loop_step E s sl (sl\<lparr>sl_ctx := c'\<rparr>)"
| stopped: "\<not> sl_done sl \<Longrightarrow> sl_closed sl \<Longrightarrow> store_loop_step E s sl (sl\<lparr>sl_done := True\<rparr>)"

inductive_cases store_loop_stepE [elim!]: "store_loop_step E s sl sl'"

section \<open>What one object's operations leave alone\<close>

lemma createService_at:
  assumes "createService E i opts c = (r, c')"
  shows "j \<noteq> i \<Longrightarrow> gget (cx_services c') j = gget (cx_services c) j"
    and "cx_endpoint c' = cx_endpoint c" "cx_backends c' = cx_backends c" "cx_closed c' = cx_closed c"
    and "gget (cx_services c) i = None \<Longrightarrow> gget (cx_services c') i = Some s \<Longrightarrow>
      \<exists>l l' o1. service_Fill E (cx_endpoint c) opts l = (Inr o1, l') \<and>
        s_options s \<in> {o1, o1\<lparr>so_delIfAddr := True\<rparr>}"
  using assms
  by (cases rule: createService_cases; auto simp: quiet_sel logged_to_sel)+

lemma removeService_at:
  assumes "removeService E i c = (r, c')"
  shows "gget (cx_services c') j = (if j = i then None else gget (cx_services c) j)"
    and "cx_endpoint c' = cx_endpoint c"
    and "set (cx_closed c) \<subseteq> set (cx_closed c')"
    and "gget (cx_backends c') k = Some b \<Longrightarrow> gget (cx_backends c) k = Some b"
proof -
  have "(\<forall>j. gget (cx_services c') j = (if j = i then None else gget (cx_services c) j)) \<and>
      cx_endpoint c' = cx_endpoint c \<and> set (cx_closed c) \<subseteq> set (cx_closed c') \<and>
      (\<forall>k b. gget (cx_backends c') k = Some b \<longrightarrow> gget (cx_backends c) k = Some b)"
    using assms
  proof (cases rule: removeService_cases)
    case none
    then show ?thesis by auto
  next
    case (fail vs)
    show ?thesis by (simp add: quiet_sel [OF fail(3)])
  next
    case (gone vs c1 c2 K)
    note l = logged_to_sel [OF gone(2)] and q = quiet_sel [OF gone(4)]
    from gone(3) obtain bk cl where c2: "cx_services c2 = cx_services c1" "cx_endpoint c2 = cx_endpoint c1"
      "cx_backends c2 = bk" "cx_closed c2 = cl"
      "\<forall>k. gget bk k = (if k \<in> K then None else gget (cx_backends c1) k)" "set (cx_closed c1) \<subseteq> set cl"
      unfolding cleaned_def by fastforce
    show ?thesis using c2(5,6) by (simp add: q l c2)
  qed
  then show "gget (cx_services c') j = (if j = i then None else gget (cx_services c) j)"
    "cx_endpoint c' = cx_endpoint c" "set (cx_closed c) \<subseteq> set (cx_closed c')"
    "gget (cx_backends c') k = Some b \<Longrightarrow> gget (cx_backends c) k = Some b" by blast+
qed

lemma createBackend_at:
  assumes "createBackend E v i opts c = (r, c')"
  shows "k \<noteq> i \<Longrightarrow> gget (cx_backends c') k = gget (cx_backends c) k"
    and "cx_services c' = cx_services c" "cx_closed c' = cx_closed c"
proof -
  have "(k \<noteq> i \<longrightarrow> gget (cx_backends c') k = gget (cx_backends c) k) \<and>
      cx_services c' = cx_services c \<and> cx_closed c' = cx_closed c"
    using assms
  proof (cases rule: createBackend_cases)
    case (fail e)
    then show ?thesis by (simp add: quiet_sel)
  next
    case panic
    then show ?thesis by (simp add: quiet_sel)
  next
    case (ok vs opts' p c1 c2)
    show ?thesis by (simp add: ok(8) logged_to_sel [OF ok(7)] quiet_sel [OF ok(5)])
  qed
  then show "k \<noteq> i \<Longrightarrow> gget (cx_backends c') k = gget (cx_backends c) k"
    "cx_services c' = cx_services c" "cx_closed c' = cx_closed c" by blast+
qed

lemma removeBackend_at:
  assumes "removeBackend E v i c = (r, c')"
  shows "k \<noteq> i \<Longrightarrow> gget (cx_backends c') k = gget (cx_backends c) k"
    and "cx_services c' = cx_services c" "set (cx_closed c) \<subseteq> set (cx_closed c')"
    and "r \<noteq> Panic \<Longrightarrow> gget (cx_backends c') i = Some b \<Longrightarrow> p_stopCh (b_monitor b) \<in> set (cx_closed c')"
proof -
  have "(\<forall>k. k \<noteq> i \<longrightarrow> gget (cx_backends c') k = gget (cx_backends c) k) \<and>
      cx_services c' = cx_services c \<and> set (cx_closed c) \<subseteq> set (cx_closed c') \<and>
      (r \<noteq> Panic \<longrightarrow> (\<forall>b. gget (cx_backends c') i = Some b \<longrightarrow> p_stopCh (b_monitor b) \<in> set (cx_closed c')))"
    using assms
  proof (cases rule: removeBackend_cases)
    case none
    then show ?thesis by simp
  next
    case (panic b)
    show ?thesis by (simp add: panic(3) quiet_sel [OF panic(4)])
  next
    case (fail b c1)
    then show ?thesis by (simp add: quiet_sel [OF fail(5)] quiet_sel [OF fail(4)] fail(1) subset_insertI)
  next
    case (ok b c1 c2)
    then show ?thesis by (simp add: ok(6) logged_to_sel [OF ok(5)] quiet_sel [OF ok(4)] subset_insertI)
  qed
  then show "k \<noteq> i \<Longrightarrow> gget (cx_backends c') k = gget (cx_backends c) k"
    "cx_services c' = cx_services c" "set (cx_closed c) \<subseteq> set (cx_closed c')"
    "r \<noteq> Panic \<Longrightarrow> gget (cx_backends c') i = Some b \<Longrightarrow> p_stopCh (b_monitor b) \<in> set (cx_closed c')" by blast+
qed

section \<open>The four loops\<close>

text \<open>When an object of the context matches its entry in the store: it compares equal, or was made from it.\<close>

definition service_agrees :: "env \<Rightarrow> ip \<Rightarrow> ServiceOptions \<Rightarrow> ServiceOptions \<Rightarrow> bool" where
  "service_agrees E ep opts so \<longleftrightarrow> service_Compare so opts \<or>
     (\<exists>l l' o1. service_Fill E ep opts l = (Inr o1, l') \<and> so \<in> {o1, o1\<lparr>so_delIfAddr := True\<rparr>})"

definition backend_agrees :: "env \<Rightarrow> BackendOptions \<Rightarrow> BackendOptions \<Rightarrow> bool" where
  "backend_agrees E opts bo \<longleftrightarrow> backend_Compare bo opts \<or>
     (\<exists>l l' o1 po v. backend_Fill E opts l = (Inr o1, l') \<and> bo \<in> {o1\<lparr>bo_Pulse := Some po\<rparr>, o1\<lparr>bo_Pulse := Some po, bo_VsID := v\<rparr>})"

definition stopped_check :: "ctx \<Rightarrow> backend \<Rightarrow> bool" where
  "stopped_check c b \<longleftrightarrow> p_stopCh (b_monitor b) \<in> set (cx_closed c)"

lemma createBackend_new:
  assumes "createBackend E v i opts c = (r, c')" "gget (cx_backends c) i = None" "gget (cx_backends c') i = Some b"
  shows "backend_agrees E opts (b_options b)"
  using assms(1)
proof (cases rule: createBackend_cases)
  case (fail e)
  then show ?thesis using assms(2,3) by (simp add: quiet_sel [OF fail(2)])
next
  case panic
  then show ?thesis using assms(2,3) by (simp add: quiet_sel [OF panic(2)])
next
  case (ok vs opts' p c1 c2)
  have "b_options b = opts'"
    using assms(3) by (auto simp: ok(8))
  then show ?thesis using ok(4) unfolding new_backend_def backend_agrees_def by blast
qed

lemma createBackend_kept:
  assumes "createBackend E v i opts c = (r, c')" "gget (cx_backends c) i = Some b"
  shows "gget (cx_backends c') i = Some b"
  using assms(1)
proof (cases rule: createBackend_cases)
  case (fail e)
  then show ?thesis using assms(2) by (simp add: quiet_sel [OF fail(2)])
next
  case panic
  then show ?thesis using assms(2) by (simp add: quiet_sel [OF panic(2)])
next
  case (ok vs opts' p c1 c2)
  then show ?thesis using assms(2) by simp
qed

lemma and_then_Ok:
  "and_then r f = (x, c') \<Longrightarrow> x \<noteq> Panic \<Longrightarrow> \<exists>y c. r = (y, c) \<and> y \<noteq> Panic \<and> f c = (x, c')"
  by (cases r; cases "fst r") (auto simp: and_then_def)

lemma not_Panic_case [simp]: "(case r of Panic \<Rightarrow> x | _ \<Rightarrow> y) = (if r = Panic then x else y)"
  by (cases r) auto

lemma sync_del_services_at:
  assumes "sync_del_services E ext ks c = (r, c')" "r \<noteq> Panic"
  shows "gget (cx_services c') k = (if k \<in> set ks \<and> gget ext k = None then None else gget (cx_services c) k) \<and>
    cx_endpoint c' = cx_endpoint c"
  using assms
proof (induction ks arbitrary: c)
  case (Cons j ks)
  show ?case
  proof (cases "gget ext j = None")
    case True
    obtain x c1 where r1: "removeService E j c = (x, c1)" by force
    with Cons.prems True have "sync_del_services E ext ks c1 = (r, c')" by (auto split: if_splits)
    from Cons.IH [OF this Cons.prems(2)] show ?thesis using True by (auto simp: removeService_at [OF r1])
  next
    case False
    with Cons show ?thesis by auto
  qed
qed auto

lemma sync_service_at:
  assumes "sync_service E i opts c = (r, c')" "r \<noteq> Panic"
  shows "j \<noteq> i \<Longrightarrow> gget (cx_services c') j = gget (cx_services c) j"
    and "cx_endpoint c' = cx_endpoint c"
    and "gget (cx_services c') i = Some s \<Longrightarrow> service_agrees E (cx_endpoint c) opts (s_options s)"
proof -
  have "(\<forall>j. j \<noteq> i \<longrightarrow> gget (cx_services c') j = gget (cx_services c) j) \<and> cx_endpoint c' = cx_endpoint c \<and>
      (\<forall>s. gget (cx_services c') i = Some s \<longrightarrow> service_agrees E (cx_endpoint c) opts (s_options s))"
  proof (cases "\<exists>s. gget (cx_services c) i = Some s \<and> service_Compare (s_options s) opts")
    case True
    then show ?thesis using assms by (auto simp: sync_service_def service_agrees_def)
  next
    case False
    obtain c1 where c1: "createService E i opts c1 = (r, c')" "gget (cx_services c1) i = None"
      "\<forall>j. j \<noteq> i \<longrightarrow> gget (cx_services c1) j = gget (cx_services c) j" "cx_endpoint c1 = cx_endpoint c"
    proof (cases "gget (cx_services c) i")
      case None
      then show thesis using that [of c] assms by (simp add: sync_service_def)
    next
      case (Some s)
      obtain x c1 where r1: "removeService E i c = (x, c1)" by force
      then have "createService E i opts c1 = (r, c')"
        using assms False Some by (auto simp: sync_service_def split: if_splits)
      then show thesis using that removeService_at [OF r1] by simp
    qed
    show ?thesis
      using c1(3,4) createService_at(1,2,5) [OF c1(1)] c1(2)
      unfolding service_agrees_def by metis
  qed
  then show "j \<noteq> i \<Longrightarrow> gget (cx_services c') j = gget (cx_services c) j" "cx_endpoint c' = cx_endpoint c"
    "gget (cx_services c') i = Some s \<Longrightarrow> service_agrees E (cx_endpoint c) opts (s_options s)" by blast+
qed

lemma sync_add_services_at:
  assumes "sync_add_services E ext ks c = (r, c')" "r \<noteq> Panic"
  shows "cx_endpoint c' = cx_endpoint c \<and>
    (k \<notin> set ks \<or> gget ext k = None \<longrightarrow> gget (cx_services c') k = gget (cx_services c) k) \<and>
    (k \<in> set ks \<longrightarrow> gget ext k = Some opts \<longrightarrow> gget (cx_services c') k = Some s \<longrightarrow>
       service_agrees E (cx_endpoint c) opts (s_options s))"
  using assms
proof (induction ks arbitrary: c)
  case (Cons j ks)
  show ?case
  proof (cases "gget ext j")
    case None
    with Cons.prems have "sync_add_services E ext ks c = (r, c')" by simp
    from Cons.IH [OF this Cons.prems(2)] show ?thesis using None by auto
  next
    case (Some o1)
    obtain x c1 where s1: "sync_service E j o1 c = (x, c1)" by force
    with Cons.prems Some have x: "x \<noteq> Panic" and r: "sync_add_services E ext ks c1 = (r, c')"
      by (auto split: if_splits)
    note at = sync_service_at [OF s1 x]
    show ?thesis
    proof (cases "k = j")
      case False
      with Cons.IH [OF r Cons.prems(2)] show ?thesis by (simp add: at(1,2))
    next
      case True
      with Cons.IH [OF r Cons.prems(2)] at(2,3) Some show ?thesis
        by (cases "k \<in> set ks") auto
    qed
  qed
qed auto

lemma stopped_check_mono: "stopped_check c b \<Longrightarrow> set (cx_closed c) \<subseteq> set (cx_closed c') \<Longrightarrow> stopped_check c' b"
  by (auto simp: stopped_check_def)

lemma sync_del_backends_at:
  assumes "sync_del_backends E ext ks c = (r, c')" "r \<noteq> Panic"
  shows "cx_services c' = cx_services c \<and> set (cx_closed c) \<subseteq> set (cx_closed c') \<and>
    (k \<notin> set ks \<or> gget ext k \<noteq> None \<longrightarrow> gget (cx_backends c') k = gget (cx_backends c) k) \<and>
    (k \<in> set ks \<longrightarrow> gget ext k = None \<longrightarrow> gget (cx_backends c') k = Some b \<longrightarrow> stopped_check c' b)"
  using assms
proof (induction ks arbitrary: c)
  case (Cons j ks)
  show ?case
  proof (cases "gget (cx_backends c) j \<noteq> None \<and> gget ext j = None")
    case False
    with Cons.prems have "sync_del_backends E ext ks c = (r, c')" by (auto split: option.splits)
    note IH = Cons.IH [OF this Cons.prems(2)]
    have "k \<in> set ks \<or> gget (cx_backends c') k = gget (cx_backends c) k" using IH by blast
    then show ?thesis using IH False by auto
  next
    case True
    then obtain bj where bj: "gget (cx_backends c) j = Some bj" by blast
    define v where "v = (if 0 < length (bo_VsID (b_options bj)) then bo_VsID (b_options bj) else ''(unknown)'')"
    obtain x c1 where r1: "removeBackend E v j c = (x, c1)" by force
    with Cons.prems True bj have x: "x \<noteq> Panic" and r: "sync_del_backends E ext ks c1 = (r, c')"
      by (auto simp: v_def split: if_splits)
    note at = removeBackend_at [OF r1]
    note IH = Cons.IH [OF r Cons.prems(2)]
    have st: "stopped_check c' b" if "k = j" "k \<notin> set ks" "gget (cx_backends c') k = Some b"
    proof -
      from IH that have "gget (cx_backends c1) j = Some b" "set (cx_closed c1) \<subseteq> set (cx_closed c')" by auto
      with at(4) [OF x] show ?thesis by (auto simp: stopped_check_def)
    qed
    show ?thesis
    proof (cases "k = j")
      case True
      with IH at(2,3) st \<open>gget (cx_backends c) j \<noteq> None \<and> gget ext j = None\<close> show ?thesis
        by (cases "k \<in> set ks") auto
    next
      case False
      with IH at(2,3) show ?thesis by (simp add: at(1)) blast
    qed
  qed
qed auto

lemma sync_backend_at:
  assumes "sync_backend E i opts c = (r, c')" "r \<noteq> Panic"
  shows "j \<noteq> i \<Longrightarrow> gget (cx_backends c') j = gget (cx_backends c) j"
    and "cx_services c' = cx_services c" "set (cx_closed c) \<subseteq> set (cx_closed c')"
    and "gget (cx_backends c') i = Some b \<Longrightarrow> backend_agrees E opts (b_options b) \<or> stopped_check c' b"
proof -
  let ?same = "\<lambda>c'. (\<forall>j. j \<noteq> i \<longrightarrow> gget (cx_backends c') j = gget (cx_backends c) j) \<and>
    cx_services c' = cx_services c \<and> set (cx_closed c) \<subseteq> set (cx_closed c')"
  have "?same c' \<and>
      (\<forall>b. gget (cx_backends c') i = Some b \<longrightarrow> backend_agrees E opts (b_options b) \<or> stopped_check c' b)"
  proof (cases "\<exists>b. gget (cx_backends c) i = Some b \<and> backend_Compare (b_options b) opts")
    case True
    then show ?thesis using assms by (auto simp: sync_backend_def backend_agrees_def)
  next
    case False
    obtain c1 where c1: "createBackend E (bo_VsID opts) i opts c1 = (r, c')" "?same c1"
      "\<forall>b. gget (cx_backends c1) i = Some b \<longrightarrow> stopped_check c1 b"
    proof (cases "gget (cx_backends c) i")
      case None
      then show thesis using that [of c] assms by (simp add: sync_backend_def)
    next
      case (Some s)
      obtain x c1 where r1: "removeBackend E (bo_VsID opts) i c = (x, c1)" by force
      then have x: "x \<noteq> Panic" and "createBackend E (bo_VsID opts) i opts c1 = (r, c')"
        using assms False Some by (auto simp: sync_backend_def split: if_splits)
      then show thesis using that removeBackend_at [OF r1] by (auto simp: stopped_check_def)
    qed
    note at = createBackend_at [OF c1(1)]
    have "backend_agrees E opts (b_options b) \<or> stopped_check c' b" if "gget (cx_backends c') i = Some b" for b
    proof (cases "gget (cx_backends c1) i")
      case None
      then show ?thesis using createBackend_new [OF c1(1) None that] by simp
    next
      case (Some b1)
      from createBackend_kept [OF c1(1) Some] that have "b1 = b" by simp
      then show ?thesis using c1(3) Some at(3) by (simp add: stopped_check_def)
    qed
    with c1(2) at show ?thesis by simp
  qed
  then show "j \<noteq> i \<Longrightarrow> gget (cx_backends c') j = gget (cx_backends c) j"
    "cx_services c' = cx_services c" "set (cx_closed c) \<subseteq> set (cx_closed c')"
    "gget (cx_backends c') i = Some b \<Longrightarrow> backend_agrees E opts (b_options b) \<or> stopped_check c' b" by blast+
qed

lemma sync_add_backends_at:
  assumes "sync_add_backends E ext ks c = (r, c')" "r \<noteq> Panic"
  shows "cx_services c' = cx_services c \<and> set (cx_closed c) \<subseteq> set (cx_closed c') \<and>
    (k \<notin> set ks \<or> gget ext k = None \<longrightarrow> gget (cx_backends c') k = gget (cx_backends c) k) \<and>
    (k \<in> set ks \<longrightarrow> gget ext k = Some opts \<longrightarrow> gget (cx_backends c') k = Some b \<longrightarrow>
       backend_agrees E opts (b_options b) \<or> stopped_check c' b)"
  using assms
proof (induction ks arbitrary: c)
  case (Cons j ks)
  show ?case
  proof (cases "gget ext j")
    case None
    with Cons.prems have "sync_add_backends E ext ks c = (r, c')" by simp
    from Cons.IH [OF this Cons.prems(2)] show ?thesis using None by auto
  next
    case (Some o1)
    obtain x c1 where s1: "sync_backend E j o1 c = (x, c1)" by force
    with Cons.prems Some have x: "x \<noteq> Panic" and r: "sync_add_backends E ext ks c1 = (r, c')"
      by (auto split: if_splits)
    note at = sync_backend_at [OF s1 x]
    note IH = Cons.IH [OF r Cons.prems(2)]
    show ?thesis
    proof (cases "k = j")
      case False
      with IH at(2,3) show ?thesis by (simp add: at(1)) blast
    next
      case True
      have "backend_agrees E opts (b_options b) \<or> stopped_check c' b"
        if "k \<notin> set ks" "gget ext k = Some opts" "gget (cx_backends c') k = Some b"
        using IH at(4) [of b] stopped_check_mono [of c1 b c'] that True Some by auto
      with IH at(2,3) True Some show ?thesis by (cases "k \<in> set ks") auto
    qed
  qed
qed auto

text \<open>The loops of a synchronization that does not panic, one after the other.\<close>

lemma Synchronize_loops:
  assumes "Synchronize E sv bk c = (r, c')" "r \<noteq> Panic"
  obtains r1 c1 r2 c2 r3 c3 where
    "sync_del_services E sv (range_keys E (cx_log c) (cx_services c)) c = (r1, c1)" "r1 \<noteq> Panic"
    "sync_add_services E sv (range_keys E (cx_log c1) sv) c1 = (r2, c2)" "r2 \<noteq> Panic"
    "sync_del_backends E bk (range_keys E (cx_log c2) (cx_backends c2)) c2 = (r3, c3)" "r3 \<noteq> Panic"
    "sync_add_backends E bk (range_keys E (cx_log c3) bk) c3 = (r, c')"
  using assms unfolding Synchronize_def by (blast dest!: and_then_Ok)

lemma Synchronize_services:
  assumes "fair_iter E" "Synchronize E sv bk c = (r, c')" "r \<noteq> Panic" "gget (cx_services c') k = Some s"
  shows "\<exists>opts. gget sv k = Some opts \<and> service_agrees E (cx_endpoint c) opts (s_options s)"
proof -
  from assms(2,3) obtain r1 c1 r2 c2 r3 c3 where
    1: "sync_del_services E sv (range_keys E (cx_log c) (cx_services c)) c = (r1, c1)" "r1 \<noteq> Panic" and
    2: "sync_add_services E sv (range_keys E (cx_log c1) sv) c1 = (r2, c2)" "r2 \<noteq> Panic" and
    3: "sync_del_backends E bk (range_keys E (cx_log c2) (cx_backends c2)) c2 = (r3, c3)" "r3 \<noteq> Panic" and
    4: "sync_add_backends E bk (range_keys E (cx_log c3) bk) c3 = (r, c')"
    by (rule Synchronize_loops)
  note at = sync_del_services_at [OF 1] sync_add_services_at [OF 2]
  have k: "gget (cx_services c2) k = Some s"
    using sync_del_backends_at [OF 3] sync_add_backends_at [OF 4 assms(3)] assms(4) by simp
  show ?thesis
  proof (cases "gget sv k")
    case None
    then have "gget (cx_services c1) k = Some s" using at(2) [of k] k by simp
    then show ?thesis using at(1) [of k] None by (simp add: set_range_keys [OF assms(1)] split: if_splits)
  next
    case (Some opts)
    then show ?thesis using at(1) at(2) [of k opts s] k by (simp add: set_range_keys [OF assms(1)])
  qed
qed

lemma Synchronize_backends:
  assumes "fair_iter E" "Synchronize E sv bk c = (r, c')" "r \<noteq> Panic" "gget (cx_backends c') k = Some b"
  shows "stopped_check c' b \<or> (\<exists>opts. gget bk k = Some opts \<and> backend_agrees E opts (b_options b))"
proof -
  from assms(2,3) obtain r1 c1 r2 c2 r3 c3 where
    "sync_add_services E sv (range_keys E (cx_log c1) sv) c1 = (r2, c2)" "r2 \<noteq> Panic" and
    3: "sync_del_backends E bk (range_keys E (cx_log c2) (cx_backends c2)) c2 = (r3, c3)" "r3 \<noteq> Panic" and
    4: "sync_add_backends E bk (range_keys E (cx_log c3) bk) c3 = (r, c')"
    by (rule Synchronize_loops)
  note at = sync_del_backends_at [OF 3] sync_add_backends_at [OF 4 assms(3)]
  show ?thesis
  proof (cases "gget bk k")
    case None
    then have c3: "gget (cx_backends c3) k = Some b" using at(2) [of k] assms(4) by simp
    then have "gget (cx_backends c2) k \<noteq> None" using at(1) [of k] None
      by (cases "k \<in> set (range_keys E (cx_log c2) (cx_backends c2))") (auto simp: set_range_keys [OF assms(1)])
    with at(1) [of k b] c3 None have "stopped_check c3 b" by (simp add: set_range_keys [OF assms(1)])
    then show ?thesis using stopped_check_mono at(2) by blast
  next
    case (Some opts)
    then show ?thesis using at(2) [of k opts b] assms(4) by (auto simp: set_range_keys [OF assms(1)])
  qed
qed

section \<open>Properties\<close>



text \<open>
  A synchronization with entries that the context already agrees with changes nothing and asks
  nothing of the outside.
\<close>

lemma sync_noop:
  assumes "\<forall>k. rel_option service_Compare (map_option s_options (gget (cx_services c) k)) (gget sv k)"
    and "\<forall>k. rel_option backend_Compare (map_option b_options (gget (cx_backends c) k)) (gget bk k)"
  shows "Synchronize E sv bk c = (Ok (), c)"
proof -
  have s: "gget (cx_services c) k = None \<longleftrightarrow> gget sv k = None"
    "gget (cx_services c) k = Some s \<Longrightarrow> gget sv k = Some o1 \<Longrightarrow> service_Compare (s_options s) o1" for k s o1
    using assms(1) [rule_format, of k] by (auto simp: option_rel_Some1 option_rel_Some2 option.rel_sel)
  have b: "gget (cx_backends c) k = None \<longleftrightarrow> gget bk k = None"
    "gget (cx_backends c) k = Some x \<Longrightarrow> gget bk k = Some o2 \<Longrightarrow> backend_Compare (b_options x) o2" for k x o2
    using assms(2) [rule_format, of k] by (auto simp: option_rel_Some1 option_rel_Some2 option.rel_sel)
  have "sync_del_services E sv ks c = (Ok (), c)" for ks
    by (induction ks) (auto simp: s(1) [symmetric] removeService_def)
  moreover have "sync_add_services E sv ks c = (Ok (), c)" for ks
  proof (induction ks)
    case (Cons k ks)
    then show ?case using s [of k] by (cases "gget sv k"; cases "gget (cx_services c) k") (auto simp: sync_service_def)
  qed simp
  moreover have "sync_del_backends E bk ks c = (Ok (), c)" for ks
    by (induction ks) (auto simp: b(1) [symmetric] split: option.splits)
  moreover have "sync_add_backends E bk ks c = (Ok (), c)" for ks
  proof (induction ks)
    case (Cons k ks)
    then show ?case using b [of k] by (cases "gget bk k"; cases "gget (cx_backends c) k") (auto simp: sync_backend_def)
  qed simp
  ultimately show ?thesis by (simp add: Synchronize_def and_then_def)
qed

lemma sync_noop_witness:
  "Synchronize ok_env (gput ''web'' web_opts gempty)
     (gput ''n1'' (node_opts\<lparr>bo_Method := ''nat'', bo_VsID := ''web''\<rparr>) gempty) node_ctx = (Ok (), node_ctx)"
proof -
  let ?bo = "node_opts\<lparr>bo_Method := ''nat'', bo_VsID := ''web''\<rparr>"
  have "gkeys (cx_services node_ctx) = [''web'']" "gkeys (cx_backends node_ctx) = [''n1'']" by code_simp+
  then have k: "gget (cx_services node_ctx) i = None \<longleftrightarrow> i \<noteq> ''web''" "gget (cx_backends node_ctx) i = None \<longleftrightarrow> i \<noteq> ''n1''" for i
    using gm.keys_get [of i "cx_services node_ctx"] gm.keys_get [of i "cx_backends node_ctx"] by auto
  have "(case gget (cx_services node_ctx) ''web'' of None \<Rightarrow> False | Some s \<Rightarrow> service_Compare (s_options s) web_opts)"
    "(case gget (cx_backends node_ctx) ''n1'' of None \<Rightarrow> False | Some b \<Rightarrow> backend_Compare (b_options b) ?bo)"
    by code_simp+
  then show ?thesis
    by (intro sync_noop) (auto simp: k split: option.splits)
qed

definition url_agrees :: "env \<Rightarrow> string \<Rightarrow> string \<Rightarrow> string \<Rightarrow> bool" where
  "url_agrees E s p u = (case parseURL E u of Inl _ \<Rightarrow> False | Inr x \<Rightarrow> to_lower (u_scheme x) = s \<and> u_path x = p)"

definition url_host :: "env \<Rightarrow> string \<Rightarrow> string" where
  "url_host E u = (case parseURL E u of Inl _ \<Rightarrow> [] | Inr x \<Rightarrow> u_host x)"

lemma store_urls_rest:
  assumes "s \<noteq> []" "p \<noteq> []"
  shows "store_urls E us (s, p, hs0) = Inr (s', p', hs) \<longleftrightarrow>
    s' = s \<and> p' = p \<and> hs = hs0 @ map (url_host E) us \<and> (\<forall>u \<in> set us. url_agrees E s p u)"
proof (induction us arbitrary: hs0)
  case (Cons u us)
  then show ?case
    using assms by (cases "parseURL E u") (auto simp: url_agrees_def url_host_def Let_def)
qed auto

text \<open>
  The check of the store's URLs agrees with its documentation as long as no URL has an empty scheme
  or path: it accepts exactly lists of URLs that parse, with one scheme in any case and one path, and
  collects their hosts in order.  (An empty scheme or path of an earlier URL matches everything.)
\<close>

lemma store_urls_documented:
  assumes "us \<noteq> []" and "\<forall>u \<in> set us. \<forall>x. parseURL E u = Inr x \<longrightarrow> u_scheme x \<noteq> [] \<and> u_path x \<noteq> []"
  shows "store_urls E us ([], [], []) = Inr (s, p, hs) \<longleftrightarrow>
    (\<forall>u \<in> set us. url_agrees E s p u) \<and> hs = map (url_host E) us"
proof -
  obtain u us' where us: "us = u # us'" using assms(1) by (cases us) auto
  show ?thesis
  proof (cases "parseURL E u")
    case (Inl e)
    then show ?thesis by (simp add: us url_agrees_def)
  next
    case (Inr x)
    then have "to_lower (u_scheme x) \<noteq> []" "u_path x \<noteq> []" using assms(2) by (auto simp: us)
    from store_urls_rest [OF this, of E us' "[u_host x]" s p hs] Inr show ?thesis
      by (auto simp: us url_agrees_def url_host_def Let_def)
  qed
qed

text \<open>The check is weaker with an empty path: the second URL may have any.\<close>

lemma store_urls_empty_path:
  assumes "parseURL E u = Inr \<lparr>u_scheme = s, u_host = h, u_path = [], u_query = q\<rparr>"
    and "parseURL E v = Inr \<lparr>u_scheme = s, u_host = h', u_path = p, u_query = q'\<rparr>"
  shows "store_urls E [u, v] ([], [], []) = Inr (to_lower s, p, [h, h'])"
  using assms by (simp add: Let_def)

end
