(* ===== verification/Gorb_Api.thy ===== *)
theory Gorb_Api
  imports Gorb_Sync
begin

text \<open>
  The exported methods of the context (\<open>src/core/context.go\<close>): each takes the context's mutex,
  for writing or for reading, and runs one operation of \<open>Gorb_Context\<close> while it holds it.
  \<open>critical\<close> keeps the mode with the operation: the REST handlers (\<open>Gorb_Http\<close>) run it, and
  \<open>Gorb_Locks\<close> looks at the mode.
\<close>

datatype 'a critical =
    Exclusive "ctx \<Rightarrow> 'a outcome \<times> ctx"
  | Shared "ctx \<Rightarrow> 'a outcome"

primrec run_critical :: "'a critical \<Rightarrow> ctx \<Rightarrow> 'a outcome \<times> ctx" where
  "run_critical (Exclusive f) c = f c"
| "run_critical (Shared f) c = (f c, c)"

definition CreateService :: "env \<Rightarrow> string \<Rightarrow> ServiceOptions \<Rightarrow> unit critical" where
  "CreateService E vsID opts = Exclusive (createService E vsID opts)"

definition UpdateService :: "env \<Rightarrow> string \<Rightarrow> ServiceOptions \<Rightarrow> unit critical" where
  "UpdateService E vsID opts = Exclusive (updateService E vsID opts)"

definition CreateBackend :: "env \<Rightarrow> string \<Rightarrow> string \<Rightarrow> BackendOptions \<Rightarrow> unit critical" where
  "CreateBackend E vsID rsID opts = Exclusive (createBackend E vsID rsID opts)"

definition UpdateBackend :: "env \<Rightarrow> string \<Rightarrow> string \<Rightarrow> u32 \<Rightarrow> u32 critical" where
  "UpdateBackend E vsID rsID weight = Exclusive (updateBackend E vsID rsID weight)"

definition RemoveService :: "env \<Rightarrow> string \<Rightarrow> ServiceOptions critical" where
  "RemoveService E vsID = Exclusive (removeService E vsID)"

definition RemoveBackend :: "env \<Rightarrow> string \<Rightarrow> string \<Rightarrow> BackendOptions critical" where
  "RemoveBackend E vsID rsID = Exclusive (removeBackend E vsID rsID)"

primrec of_sum :: "error + 'a \<Rightarrow> 'a outcome" where
  "of_sum (Inl e) = Fail e"
| "of_sum (Inr x) = Ok x"

definition locked_ListServices :: "env \<Rightarrow> string list critical" where
  "locked_ListServices E = Shared (\<lambda>c. Ok (ListServices E c))"

definition locked_GetService :: "env \<Rightarrow> string \<Rightarrow> ServiceInfo critical" where
  "locked_GetService E vsID = Shared (\<lambda>c. of_sum (GetService E vsID c))"

definition locked_GetBackend :: "string \<Rightarrow> string \<Rightarrow> BackendInfo critical" where
  "locked_GetBackend vsID rsID = Shared (\<lambda>c. of_sum (GetBackend vsID rsID c))"

lemmas critical_defs = CreateService_def UpdateService_def CreateBackend_def UpdateBackend_def
  RemoveService_def RemoveBackend_def locked_ListServices_def locked_GetService_def locked_GetBackend_def

end
