(* ===== verification/Gorb_Exporter.thy ===== *)
theory Gorb_Exporter
  imports Gorb_Api
begin

text \<open>
  \<open>src/core/prometheus_exporter.go\<close>: the gauges, and \<open>collect\<close>, which sets them from the status
  queries of the context.  A gauge vector of the Prometheus library is a map from label values to
  numbers; the map lives as long as the process.
\<close>

section \<open>Gauges\<close>

datatype gauge = ServiceHealth | ServiceBackends | BackendUptime | BackendHealth | BackendStatus | BackendWeight

primrec gauge_name :: "gauge \<Rightarrow> string" where
  "gauge_name ServiceHealth = ''gorb_service_health''"
| "gauge_name ServiceBackends = ''gorb_service_backends''"
| "gauge_name BackendUptime = ''gorb_service_backend_uptime_seconds''"
| "gauge_name BackendHealth = ''gorb_service_backend_health''"
| "gauge_name BackendStatus = ''gorb_service_backend_status''"
| "gauge_name BackendWeight = ''gorb_service_backend_weight''"

definition gauge_labels :: "gauge \<Rightarrow> string list" where
  "gauge_labels g = (if g = ServiceHealth \<or> g = ServiceBackends
     then [''name'', ''host'', ''port'', ''protocol''] else [''service_name'', ''name'', ''host'', ''port''])"

text \<open>The vectors in the order \<open>Describe\<close> announces them; the library refuses two of one name.\<close>

definition exporter_Describe :: "gauge list" where
  "exporter_Describe = [ServiceHealth, ServiceBackends, BackendUptime, BackendHealth, BackendStatus, BackendWeight]"

lemma describe_complete: "set exporter_Describe = UNIV" "distinct (map gauge_name exporter_Describe)"
proof -
  have "g \<in> set exporter_Describe" for g by (cases g) (simp_all add: exporter_Describe_def)
  then show "set exporter_Describe = UNIV" by blast
  show "distinct (map gauge_name exporter_Describe)" by code_simp
qed

type_synonym gauges = "gauge \<times> string list \<Rightarrow> rat option"

definition gauge_Set :: "gauge \<Rightarrow> string list \<Rightarrow> rat \<Rightarrow> gauges \<Rightarrow> gauges" where
  "gauge_Set g labels v gs = gs((g, labels) \<mapsto> v)"

text \<open>The values of the labels \<open>name, host, port, protocol\<close> and \<open>service_name, name, host, port\<close>.\<close>

definition service_labels :: "string \<Rightarrow> ServiceOptions \<Rightarrow> string list" where
  "service_labels name opts = [name, so_Host opts, show_nat (unat (so_Port opts)), so_Protocol opts]"

definition backend_labels :: "string \<Rightarrow> string \<Rightarrow> BackendOptions \<Rightarrow> string list" where
  "backend_labels service name opts = [service, name, bo_Host opts, show_nat (unat (bo_Port opts))]"

text \<open>The vectors are given as many values as they have labels, so \<open>WithLabelValues\<close> does not panic.\<close>

lemma labels_fit:
  "g \<in> {ServiceHealth, ServiceBackends} \<Longrightarrow> length (service_labels n so) = length (gauge_labels g)"
  "g \<notin> {ServiceHealth, ServiceBackends} \<Longrightarrow> length (backend_labels n k bo) = length (gauge_labels g)"
  by (auto simp: service_labels_def backend_labels_def gauge_labels_def)

text \<open>\<open>time.Duration.Seconds\<close>: whole seconds plus the rest, each rounded to a \<open>float64\<close>.\<close>

definition Seconds :: "i64 \<Rightarrow> rat" where
  "Seconds d = (let sec = go_quot (sint d) second; nsec = sint d - sec * second
     in fl64 (fl64 (of_int sec) + fl64 (fl64 (of_int nsec) / 10 ^ 9)))"

section \<open>\<open>collect\<close>\<close>

fun collect_backends :: "ctx \<Rightarrow> string \<Rightarrow> string list \<Rightarrow> gauges \<Rightarrow> error option \<times> gauges" where
  "collect_backends c serviceName [] gs = (None, gs)"
| "collect_backends c serviceName (backendName # ks) gs =
     (case GetBackend serviceName backendName c of
        Inl e \<Rightarrow> (Some e, gs)
      | Inr backend \<Rightarrow>
          let ls = backend_labels serviceName backendName (bi_Options backend); m = bi_Metrics backend in
          collect_backends c serviceName ks
            (gauge_Set BackendWeight ls (f64_of_u32 (bo_Weight (bi_Options backend)))
            (gauge_Set BackendStatus ls (of_nat (status_num (m_Status m)))
            (gauge_Set BackendHealth ls (m_Health m)
            (gauge_Set BackendUptime ls (Seconds (m_Uptime m)) gs)))))"

fun collect_services :: "env \<Rightarrow> ctx \<Rightarrow> string list \<Rightarrow> gauges \<Rightarrow> error option \<times> gauges" where
  "collect_services E c [] gs = (None, gs)"
| "collect_services E c (serviceName # ks) gs =
     (case GetService E serviceName c of
        Inl e \<Rightarrow> (Some e, gs)
      | Inr service \<Rightarrow>
          let ls = service_labels serviceName (si_Options service);
              gs1 = gauge_Set ServiceBackends ls (fl64 (of_nat (length (si_Backends service))))
                (gauge_Set ServiceHealth ls (si_Health service) gs)
          in (case collect_backends c serviceName (si_Backends service) gs1 of
                (Some e, gs2) \<Rightarrow> (Some e, gs2)
              | (None, gs2) \<Rightarrow> collect_services E c ks gs2))"

definition exporter_collect :: "env \<Rightarrow> ctx \<Rightarrow> gauges \<Rightarrow> error option \<times> gauges" where
  "exporter_collect E c gs = collect_services E c (range_keys E (cx_log c) (cx_services c)) gs"

text \<open>
  \<open>Collect\<close> sends the six vectors to the library's channel, or nothing after an error.
\<close>

definition exporter_Collect :: "env \<Rightarrow> ctx \<Rightarrow> gauges \<Rightarrow> gauges option \<times> gauges" where
  "exporter_Collect E c gs = (case exporter_collect E c gs of (Some e, gs') \<Rightarrow> (None, gs') | (None, gs') \<Rightarrow> (Some gs', gs'))"

section \<open>What the gauges should show\<close>

text \<open>The value of a gauge by its labels, read off the context without any loop.\<close>

definition service_value :: "gauge \<Rightarrow> ServiceInfo \<Rightarrow> rat option" where
  "service_value g info = (case g of ServiceHealth \<Rightarrow> Some (si_Health info)
     | ServiceBackends \<Rightarrow> Some (fl64 (of_nat (length (si_Backends info)))) | _ \<Rightarrow> None)"

definition backend_value :: "gauge \<Rightarrow> backend \<Rightarrow> rat option" where
  "backend_value g b = (case g of BackendUptime \<Rightarrow> Some (Seconds (m_Uptime (b_metrics b)))
     | BackendHealth \<Rightarrow> Some (m_Health (b_metrics b))
     | BackendStatus \<Rightarrow> Some (of_nat (status_num (m_Status (b_metrics b))))
     | BackendWeight \<Rightarrow> Some (f64_of_u32 (bo_Weight (b_options b))) | _ \<Rightarrow> None)"

definition backends_value :: "ctx \<Rightarrow> string \<Rightarrow> string list \<Rightarrow> gauges" where
  "backends_value c n ks = (\<lambda>(g, ls). case ls of [n', k, h, p] \<Rightarrow>
       if k \<in> set ks then
         (case gget (cx_backends c) k of None \<Rightarrow> None
          | Some b \<Rightarrow> if ls = backend_labels n k (b_options b) then backend_value g b else None)
       else None
     | _ \<Rightarrow> None)"

definition of_service :: "ctx \<Rightarrow> string \<Rightarrow> ServiceInfo \<Rightarrow> gauges" where
  "of_service c n info =
     (\<lambda>(g, ls). if ls = service_labels n (si_Options info) then service_value g info else None)
       ++ backends_value c n (si_Backends info)"

definition shown :: "env \<Rightarrow> ctx \<Rightarrow> gauges" where
  "shown E c = (\<lambda>(g, ls). case ls of [] \<Rightarrow> None
     | n # _ \<Rightarrow> (case GetService E n c of Inl _ \<Rightarrow> None | Inr info \<Rightarrow> of_service c n info (g, ls)))"

section \<open>The loops\<close>

lemma backend_sets:
  "gauge_Set BackendWeight ls (f64_of_u32 (bo_Weight (b_options b)))
    (gauge_Set BackendStatus ls (of_nat (status_num (m_Status (b_metrics b))))
    (gauge_Set BackendHealth ls (m_Health (b_metrics b))
    (gauge_Set BackendUptime ls (Seconds (m_Uptime (b_metrics b))) gs))) =
   gs ++ (\<lambda>(g, l). if l = ls then backend_value g b else None)" (is "?l = ?r")
proof
  fix x :: "gauge \<times> string list"
  obtain g l where "x = (g, l)" by force
  then show "?l x = ?r x" by (cases g) (simp_all add: gauge_Set_def backend_value_def map_add_def)
qed

lemma service_sets:
  "gauge_Set ServiceBackends ls (fl64 (of_nat (length (si_Backends info))))
    (gauge_Set ServiceHealth ls (si_Health info) gs) =
   gs ++ (\<lambda>(g, l). if l = ls then service_value g info else None)" (is "?l = ?r")
proof
  fix x :: "gauge \<times> string list"
  obtain g l where "x = (g, l)" by force
  then show "?l x = ?r x" by (cases g) (simp_all add: gauge_Set_def service_value_def map_add_def)
qed

lemma backends_value_Nil: "backends_value c n [] = Map.empty"
  by (rule ext) (auto simp: backends_value_def split: list.splits)

lemma backends_value_Cons:
  assumes "gget (cx_backends c) k = Some b"
  shows "(\<lambda>(g, l). if l = backend_labels n k (b_options b) then backend_value g b else None) ++ backends_value c n ks =
    backends_value c n (k # ks)"
proof
  fix x :: "gauge \<times> string list"
  obtain g ls where x: "x = (g, ls)" by force
  show "((\<lambda>(g, l). if l = backend_labels n k (b_options b) then backend_value g b else None) ++ backends_value c n ks) x =
    backends_value c n (k # ks) x"
  proof (cases "ls = backend_labels n k (b_options b)")
    case True
    then show ?thesis using assms
      by (simp add: x backends_value_def map_add_def backend_labels_def split: option.split)
  next
    case False
    then show ?thesis using assms
      by (auto simp: x backends_value_def map_add_def split: list.split option.split)
  qed
qed

lemma collect_backends_eq:
  "\<forall>k \<in> set ks. gget (cx_backends c) k \<noteq> None \<Longrightarrow>
     collect_backends c n ks gs = (None, gs ++ backends_value c n ks)"
proof (induction ks arbitrary: gs)
  case Nil
  then show ?case by (simp add: backends_value_Nil)
next
  case (Cons k ks)
  then obtain b where b: "gget (cx_backends c) k = Some b" by auto
  have "collect_backends c n (k # ks) gs = collect_backends c n ks
      (gs ++ (\<lambda>(g, l). if l = backend_labels n k (b_options b) then backend_value g b else None))"
    by (simp add: GetBackend_def b Let_def backend_sets)
  also have "\<dots> = (None, gs ++ backends_value c n (k # ks))"
    using Cons by (simp add: backends_value_Cons [OF b, symmetric])
  finally show ?case .
qed

lemma GetService_backends:
  "GetService E n c = Inr info \<Longrightarrow> \<forall>k \<in> set (si_Backends info). gget (cx_backends c) k \<noteq> None"
  by (auto simp: GetService_def foldl_visit is_attached_def split: option.splits)

lemma of_service_other: "hd ls \<noteq> n \<Longrightarrow> of_service c n info (g, ls) = None"
  by (auto simp: of_service_def map_add_def service_labels_def backends_value_def backend_labels_def
      split: list.splits option.splits)

lemma collect_services_eq:
  assumes "\<forall>n \<in> set ns. gget (cx_services c) n \<noteq> None"
  shows "collect_services E c ns gs = (None, gs ++ (\<lambda>(g, ls). if ls \<noteq> [] \<and> hd ls \<in> set ns then shown E c (g, ls) else None))"
  using assms
proof (induction ns arbitrary: gs)
  case Nil
  then show ?case by (auto simp: fun_eq_iff map_add_def)
next
  case (Cons n ns)
  then obtain info where i: "GetService E n c = Inr info"
    by (auto simp: GetService_def split_beta split: option.splits)
  let ?rest = "\<lambda>(g, ls). if ls \<noteq> [] \<and> hd ls \<in> set ns then shown E c (g, ls) else None"
  let ?all = "\<lambda>(g, ls). if ls \<noteq> [] \<and> hd ls \<in> set (n # ns) then shown E c (g, ls) else None"
  have "(of_service c n info ++ ?rest) x = ?all x" for x :: "gauge \<times> string list"
  proof -
    obtain g ls where x: "x = (g, ls)" by force
    have "of_service c n info (g, []) = None"
      by (simp add: of_service_def map_add_def service_labels_def backends_value_def)
    moreover have "shown E c (g, ls) = of_service c n info (g, ls)" if "ls \<noteq> []" "hd ls = n"
      using that by (cases ls) (simp_all add: shown_def i)
    ultimately show ?thesis
      using of_service_other [of ls n c info g]
      by (cases "ls = []"; cases "hd ls = n") (auto simp: x map_add_def split: option.split)
  qed
  then have sum: "of_service c n info ++ ?rest = ?all" by (rule ext)
  have "collect_services E c (n # ns) gs = collect_services E c ns (gs ++ of_service c n info)"
    by (simp add: i Let_def service_sets collect_backends_eq [OF GetService_backends [OF i]] of_service_def)
  also have "\<dots> = (None, gs ++ (of_service c n info ++ ?rest))"
    using Cons by simp
  finally show ?case unfolding sum .
qed

section \<open>Properties\<close>

text \<open>
  Claim C26. \<open>collect\<close> never fails, and its nested loops over maps in any order come to one simultaneous
  update: a gauge with the labels of a present service or of one of its backends shows the value the status
  queries report, and every other gauge keeps the value it had; so a gauge of a service that is gone, or of
  options since changed, shows its last value for as long as the daemon runs.
\<close>

theorem collect_equals_status:
  assumes "fair_iter E"
  shows "exporter_collect E c gs = (None, gs ++ shown E c) \<and>
    (\<forall>g n ls. gget (cx_services c) n = None \<longrightarrow> snd (exporter_collect E c gs) (g, n # ls) = gs (g, n # ls))"
proof -
  have none: "shown E c (g, n # ls) = None" if "gget (cx_services c) n = None" for g n ls
    using that by (simp add: shown_def GetService_def)
  have "(\<lambda>(g, ls). if ls \<noteq> [] \<and> hd ls \<in> set (range_keys E (cx_log c) (cx_services c)) then shown E c (g, ls) else None) =
      shown E c"
  proof
    fix x :: "gauge \<times> string list"
    obtain g ls where x: "x = (g, ls)" by force
    show "(\<lambda>(g, ls). if ls \<noteq> [] \<and> hd ls \<in> set (range_keys E (cx_log c) (cx_services c)) then shown E c (g, ls) else None) x =
      shown E c x"
      using none by (cases ls) (auto simp: x set_range_keys [OF assms] shown_def)
  qed
  then have "exporter_collect E c gs = (None, gs ++ shown E c)"
    unfolding exporter_collect_def
    by (subst collect_services_eq) (simp_all add: set_range_keys [OF assms])
  then show ?thesis using none by (simp add: map_add_def)
qed

theorem collect_equals_status_witness:
  "snd (exporter_collect ok_env node_ctx Map.empty) (BackendWeight, [''web'', ''n1'', ''node'', ''80'']) = Some 10 \<and>
   exporter_collect ok_env node_ctx Map.empty = (None, Map.empty ++ shown ok_env node_ctx)"
proof -
  have "snd (exporter_collect ok_env node_ctx Map.empty) (BackendWeight, [''web'', ''n1'', ''node'', ''80'']) = Some 10"
    by code_simp
  then show ?thesis using collect_equals_status [OF fair_ok_env] by blast
qed

end
