(* ===== verification/Gorb_Runtime.thy ===== *)
theory Gorb_Runtime
  imports Gorb_Kernel
begin

text \<open>
  \<open>src/core/runtime.go\<close>: the goroutine that receives the messages of the checks and reweights the
  backends.  A message is processed in two critical sections, so the model has two parts; other
  operations may come between them (\<open>Gorb_System\<close>).  The weights a backend had before it went
  down are kept in the goroutine's \<open>stash\<close>.
\<close>

section \<open>Processing a message\<close>

type_synonym stash = "ID \<Rightarrow> u32 option"

text \<open>
  The part under the lock: whether to go on, the stash and the context.  Deleting an absent key of
  the stash does nothing, so the test before it is not modelled.
\<close>

definition process_locked :: "pulse_update \<Rightarrow> stash \<Rightarrow> ctx \<Rightarrow> bool \<times> stash \<times> ctx" where
  "process_locked u st c =
     (let rsID = RsID (up_Source u) in
      case gget (cx_backends c) rsID of
        None \<Rightarrow> (False, st(up_Source u := None), c)
      | Some b \<Rightarrow> if m_Status (up_Metrics u) = StatusRemoved then (False, st(up_Source u := None), c)
          else (True, st, put_backend rsID (b\<lparr>b_metrics := up_Metrics u\<rparr>) c))"

text \<open>\<open>uint32(float64(weight) * health)\<close>.\<close>

definition scale_weight :: "u32 \<Rightarrow> rat \<Rightarrow> u32" where
  "scale_weight w h = u32_of_f64 (fl64 (f64_of_u32 w * h))"

definition process_reweight :: "env \<Rightarrow> pulse_update \<Rightarrow> stash \<Rightarrow> ctx \<Rightarrow> stash \<times> ctx" where
  "process_reweight E u st c =
     (let i = up_Source u in
      case m_Status (up_Metrics u) of
        StatusUp \<Rightarrow>
          (case st i of None \<Rightarrow> (st, c)
           | Some w \<Rightarrow>
               let weight = scale_weight w (m_Health (up_Metrics u)) in
               (case updateBackend E (VsID i) (RsID i) weight c of
                  (Ok _, c') \<Rightarrow> (if weight = w then st(i := None) else st, c')
                | (_, c') \<Rightarrow> (st, c')))
      | StatusDown \<Rightarrow>
          (if st i \<noteq> None then (st, c)
           else (case updateBackend E (VsID i) (RsID i) 0 c of
                  (Ok w, c') \<Rightarrow> (st(i \<mapsto> w), c')
                | (_, c') \<Rightarrow> (st, c')))
      | StatusRemoved \<Rightarrow> (st, c))"

definition processPulseUpdate :: "env \<Rightarrow> pulse_update \<Rightarrow> stash \<Rightarrow> ctx \<Rightarrow> stash \<times> ctx" where
  "processPulseUpdate E u st c =
     (case process_locked u st c of
        (True, st1, c1) \<Rightarrow> process_reweight E u st1 c1
      | (False, st1, c1) \<Rightarrow> (st1, c1))"

text \<open>Messages processed one after the other with nothing in between.\<close>

fun run_updates :: "env \<Rightarrow> pulse_update list \<Rightarrow> stash \<Rightarrow> ctx \<Rightarrow> stash \<times> ctx" where
  "run_updates E [] st c = (st, c)"
| "run_updates E (u # us) st c = (case processPulseUpdate E u st c of (st', c') \<Rightarrow> run_updates E us st' c')"

text \<open>The messages a check sends for a list of results and times.\<close>

fun messages :: "ID \<Rightarrow> Metrics \<Rightarrow> (StatusType \<times> int) list \<Rightarrow> pulse_update list" where
  "messages i m [] = []"
| "messages i m ((s, t) # us) =
     (let m' = metrics_Update m s t in \<lparr>up_Source = i, up_Metrics = m'\<rparr> # messages i m' us)"

section \<open>Scaled weights\<close>

lemma f64_of_u32_le: "f64_of_u32 w \<le> of_nat n \<longleftrightarrow> unat w \<le> n"
  unfolding f64_of_u32_def by (rule of_nat_le_iff)

lemma unat_u32_53: "unat (w :: u32) \<le> 2 ^ 53"
proof -
  have "unat w < 2 ^ 32" using unsigned_less [where 'a = nat and w = w] by simp
  then show ?thesis by simp
qed

lemma scaled_bounds:
  assumes "0 \<le> h" "h \<le> 1"
  shows "0 \<le> fl64 (f64_of_u32 w * h)" "fl64 (f64_of_u32 w * h) \<le> f64_of_u32 w"
proof -
  have "f64_of_u32 w * h \<le> f64_of_u32 w * 1"
    using assms f64_of_u32_bounds(1) by (intro mult_left_mono)
  then have "f64_of_u32 w * h \<le> of_nat (unat w)" unfolding f64_of_u32_def by (simp only: mult_1_right)
  then show "fl64 (f64_of_u32 w * h) \<le> f64_of_u32 w"
    using f64.fl_le_of_nat [OF _ unat_u32_53, of _ w] unfolding f64_of_u32_def by blast
  show "0 \<le> fl64 (f64_of_u32 w * h)"
    using assms f64_of_u32_bounds(1) by (intro f64.fl_nonneg mult_nonneg_nonneg)
qed

lemma scale_le: "0 \<le> h \<Longrightarrow> h \<le> 1 \<Longrightarrow> scale_weight w h \<le> w"
  using u32_of_f64_mono [of "fl64 (f64_of_u32 w * h)" "f64_of_u32 w"] scaled_bounds [of h w] f64_of_u32_bounds(2) [of w]
  by (simp add: scale_weight_def)

lemma fl64_u32: "fl64 (f64_of_u32 w) = f64_of_u32 w"
  using f64.fl_of_nat [OF unat_u32_53, of w] by (simp only: f64_of_u32_def)

lemma scale_1 [simp]: "scale_weight w 1 = w"
  by (simp add: scale_weight_def fl64_u32)

lemma scale_0 [simp]: "scale_weight w 0 = 0"
  by (simp add: scale_weight_def u32_of_f64_def trunc_int_def)

lemma scale_mono: "0 \<le> g \<Longrightarrow> g \<le> h \<Longrightarrow> h \<le> 1 \<Longrightarrow> scale_weight w g \<le> scale_weight w h"
proof -
  assume a: "0 \<le> g" "g \<le> h" "h \<le> 1"
  have "fl64 (f64_of_u32 w * g) \<le> fl64 (f64_of_u32 w * h)"
    using a f64_of_u32_bounds(1) by (intro fl64_mono mult_left_mono)
  moreover have "0 \<le> fl64 (f64_of_u32 w * g)" using a scaled_bounds(1) by simp
  moreover have "fl64 (f64_of_u32 w * h) < 2 ^ 32"
    using a scaled_bounds(2) [of h w] f64_of_u32_bounds(2) [of w] by linarith
  ultimately show ?thesis unfolding scale_weight_def by (intro u32_of_f64_mono)
qed

lemma scale_less:
  assumes "0 \<le> h" "h \<le> 127 / 128" "w \<noteq> 0"
  shows "scale_weight w h < w"
proof -
  have pos: "0 < f64_of_u32 w"
  proof -
    have "0 < unat w" using assms(3) by (simp add: unat_gt_0)
    then have "(of_nat 0 :: rat) < of_nat (unat w)" by (simp only: of_nat_less_iff)
    then show ?thesis unfolding f64_of_u32_def by (simp only: of_nat_0)
  qed
  have "f64_of_u32 w * h \<le> f64_of_u32 w * (127 / 128)"
    using assms pos by (intro mult_left_mono) auto
  also have "\<dots> = of_int (127 * int (unat w)) / 2 ^ 7"
    by (simp add: f64_of_u32_def)
  finally have le: "f64_of_u32 w * h \<le> of_int (127 * int (unat w)) / 2 ^ 7" .
  have n: "\<bar>127 * int n\<bar> \<le> 2 ^ 53" if "n < 2 ^ 32" for n using that by simp
  have "unat w < 2 ^ 32" using unsigned_less [where 'a = nat and w = w] by simp
  from f64.fl_le_dyadic [OF le n [OF this]]
  have "fl64 (f64_of_u32 w * h) \<le> of_int (127 * int (unat w)) / 2 ^ 7" by simp
  also have "\<dots> < f64_of_u32 w" using pos by (simp add: f64_of_u32_def)
  finally show ?thesis
    unfolding scale_weight_def by (rule u32_of_f64_less [OF scaled_bounds(1), rotated -1]) (use assms in auto)
qed


section \<open>An accepted change of weight\<close>

text \<open>The kernel accepts every change of a destination.\<close>

definition accepts_updates :: "env \<Rightarrow> bool" where
  "accepts_updates E \<longleftrightarrow> (\<forall>l s d. ipvsDo E l (UpdDestination s d) = None)"

definition weight_of :: "string \<Rightarrow> ctx \<Rightarrow> u32 option" where
  "weight_of k c = map_option (\<lambda>b. bo_Weight (b_options b)) (gget (cx_backends c) k)"

lemma updateBackend_accepted:
  assumes "ctx_wf E c" "accepts_updates E" "gget (cx_backends c) k = Some b"
  obtains c' where "updateBackend E i k w c = (Ok (bo_Weight (b_options b)), c')"
    "cx_backends c' = gput k (b\<lparr>b_options := b_options b\<lparr>bo_Weight := w\<rparr>\<rparr>) (cx_backends c)" "ctx_wf E c'"
proof -
  obtain r c' where r: "updateBackend E i k w c = (r, c')" by force
  have wf': "ctx_wf E c'" using wf_updateBackend [OF assms(1), of i k w] r by simp
  let ?so = "s_options (b_service b)"
  have "ValidProtocol (so_Protocol ?so)" and f: "ValidForwarding (libconsts E) (bo_Method (b_options b))"
    using wf_backend [OF assms(1,3)] by (auto simp: backend_wf_def service_wf_def service_filled_def backend_ok_def)
  then obtain svc where "createSvcKey (ip_String (so_host ?so)) (so_Protocol ?so) (so_Port ?so) = Inr svc"
    using createSvcKey_valid by blast
  then have "fst (ipvs_UpdateDestPort E (ip_String (so_host ?so)) (so_Port ?so) (ip_String (bo_host (b_options b)))
      (bo_Port (b_options b)) (so_Protocol ?so) w (bo_Method (b_options b)) l) = None" for l
    using f assms(2) by (auto simp: ipvs_UpdateDestPort_def ipvs_call_def Let_def accepts_updates_def ValidForwarding_def)
  then have "r \<noteq> Fail ErrIpvsSyscallFailed"
    using r assms(3) by (auto simp: updateBackend_def on_log_def split: prod.splits option.splits) (metis fst_conv option.distinct(1))
  with r show thesis
  proof (cases rule: updateBackend_cases)
    case (ok b' c1)
    then show thesis using that [of c'] r wf' assms(3) by (simp add: logged_to_sel)
  qed (use assms(3) in simp_all)
qed

lemma wf_put_metrics:
  assumes "ctx_wf E c" "gget (cx_backends c) k = Some b" "metrics_ok m"
  shows "ctx_wf E (put_backend k (b\<lparr>b_metrics := m\<rparr>) c)"
  using wf_put_same [OF assms(1,2), of "b\<lparr>b_metrics := m\<rparr>"] wf_backend [OF assms(1,2)] assms(3)
  by (simp add: backend_wf_def metrics_ok_def)

text \<open>The three cases of a message for a backend that is there.\<close>

lemma process_up_idle:
  assumes "gget (cx_backends c) (RsID i) = Some b" "m_Status m = StatusUp" "st i = None"
  shows "processPulseUpdate E \<lparr>up_Source = i, up_Metrics = m\<rparr> st c =
    (st, put_backend (RsID i) (b\<lparr>b_metrics := m\<rparr>) c)"
  using assms by (simp add: processPulseUpdate_def process_locked_def process_reweight_def)

lemma process_down_stashed:
  assumes "gget (cx_backends c) (RsID i) = Some b" "m_Status m = StatusDown" "st i = Some w"
  shows "processPulseUpdate E \<lparr>up_Source = i, up_Metrics = m\<rparr> st c =
    (st, put_backend (RsID i) (b\<lparr>b_metrics := m\<rparr>) c)"
  using assms by (simp add: processPulseUpdate_def process_locked_def process_reweight_def)

lemma process_up_stashed:
  assumes "ctx_wf E c" "accepts_updates E" "gget (cx_backends c) (RsID i) = Some b"
    and "m_Status m = StatusUp" "metrics_ok m" "st i = Some w"
  obtains c' where "processPulseUpdate E \<lparr>up_Source = i, up_Metrics = m\<rparr> st c =
      (if scale_weight w (m_Health m) = w then st(i := None) else st, c')"
    "cx_backends c' = gput (RsID i) (b\<lparr>b_metrics := m, b_options := b_options b\<lparr>bo_Weight := scale_weight w (m_Health m)\<rparr>\<rparr>)
       (gput (RsID i) (b\<lparr>b_metrics := m\<rparr>) (cx_backends c))"
    "ctx_wf E c'"
proof -
  let ?c = "put_backend (RsID i) (b\<lparr>b_metrics := m\<rparr>) c"
  have wf: "ctx_wf E ?c" by (rule wf_put_metrics [OF assms(1,3,5)])
  obtain c' where "updateBackend E (VsID i) (RsID i) (scale_weight w (m_Health m)) ?c =
      (Ok (bo_Weight (b_options (b\<lparr>b_metrics := m\<rparr>))), c')"
    "cx_backends c' = gput (RsID i) (b\<lparr>b_metrics := m, b_options := b_options (b\<lparr>b_metrics := m\<rparr>)
       \<lparr>bo_Weight := scale_weight w (m_Health m)\<rparr>\<rparr>) (cx_backends ?c)" "ctx_wf E c'"
    by (rule updateBackend_accepted [OF wf assms(2), of "RsID i" "b\<lparr>b_metrics := m\<rparr>"]) simp_all
  then show thesis
    by (intro that [of c']) (simp_all add: processPulseUpdate_def process_locked_def process_reweight_def assms)
qed

lemma process_down_fresh:
  assumes "ctx_wf E c" "accepts_updates E" "gget (cx_backends c) (RsID i) = Some b"
    and "m_Status m = StatusDown" "metrics_ok m" "st i = None"
  obtains c' where "processPulseUpdate E \<lparr>up_Source = i, up_Metrics = m\<rparr> st c =
      (st(i \<mapsto> bo_Weight (b_options b)), c')"
    "cx_backends c' = gput (RsID i) (b\<lparr>b_metrics := m, b_options := b_options b\<lparr>bo_Weight := 0\<rparr>\<rparr>)
       (gput (RsID i) (b\<lparr>b_metrics := m\<rparr>) (cx_backends c))"
    "ctx_wf E c'"
proof -
  let ?c = "put_backend (RsID i) (b\<lparr>b_metrics := m\<rparr>) c"
  have wf: "ctx_wf E ?c" by (rule wf_put_metrics [OF assms(1,3,5)])
  obtain c' where "updateBackend E (VsID i) (RsID i) 0 ?c = (Ok (bo_Weight (b_options (b\<lparr>b_metrics := m\<rparr>))), c')"
    "cx_backends c' = gput (RsID i) (b\<lparr>b_metrics := m, b_options := b_options (b\<lparr>b_metrics := m\<rparr>)
       \<lparr>bo_Weight := 0\<rparr>\<rparr>) (cx_backends ?c)" "ctx_wf E c'"
    by (rule updateBackend_accepted [OF wf assms(2), of "RsID i" "b\<lparr>b_metrics := m\<rparr>"]) simp_all
  then show thesis
    by (intro that [of c']) (simp_all add: processPulseUpdate_def process_locked_def process_reweight_def assms)
qed


section \<open>Weights over a run of messages\<close>

text \<open>
  The weight \<open>w\<close> that a backend is to have is remembered: it is the backend's weight while
  nothing is stashed, and otherwise it is stashed and the backend's weight does not exceed it.
\<close>

definition remembers :: "ID \<Rightarrow> u32 \<Rightarrow> stash \<Rightarrow> ctx \<Rightarrow> bool" where
  "remembers i w st c \<longleftrightarrow> (case st i of
       None \<Rightarrow> weight_of (RsID i) c = Some w
     | Some w' \<Rightarrow> w' = w \<and> (\<exists>x \<le> w. weight_of (RsID i) c = Some x))"

lemma remembers_backend: "remembers i w st c \<Longrightarrow> \<exists>b. gget (cx_backends c) (RsID i) = Some b"
  by (auto simp: remembers_def weight_of_def split: option.splits)

lemma process_remembers:
  assumes "ctx_wf E c" "accepts_updates E" "remembers i w st c" "metrics_ok m" "m_Status m \<noteq> StatusRemoved"
    and p: "processPulseUpdate E \<lparr>up_Source = i, up_Metrics = m\<rparr> st c = (st', c')"
  shows "ctx_wf E c' \<and> remembers i w st' c' \<and> (m_Status m = StatusUp \<and> m_Health m = 1 \<longrightarrow> st' i = None)"
proof -
  obtain b where b: "gget (cx_backends c) (RsID i) = Some b" using remembers_backend [OF assms(3)] ..
  have h: "0 \<le> m_Health m" "m_Health m \<le> 1" using assms(4) by (simp_all add: metrics_ok_def)
  note wfm = wf_put_metrics [OF assms(1) b assms(4)]
  show ?thesis
  proof (cases "m_Status m")
    case StatusUp
    show ?thesis
    proof (cases "st i")
      case None
      then show ?thesis
        using process_up_idle [where st = st and i = i and E = E, OF b StatusUp None] p wfm assms(3) b
        by (auto simp: remembers_def weight_of_def)
    next
      case (Some w')
      then have w: "w' = w" using assms(3) by (simp add: remembers_def)
      obtain c1 where "processPulseUpdate E \<lparr>up_Source = i, up_Metrics = m\<rparr> st c =
          (if scale_weight w' (m_Health m) = w' then st(i := None) else st, c1)"
        "cx_backends c1 = gput (RsID i) (b\<lparr>b_metrics := m, b_options := b_options b\<lparr>bo_Weight := scale_weight w' (m_Health m)\<rparr>\<rparr>)
          (gput (RsID i) (b\<lparr>b_metrics := m\<rparr>) (cx_backends c))" "ctx_wf E c1"
        by (rule process_up_stashed [where st = st and i = i, OF assms(1,2) b StatusUp assms(4) Some])
      with p Some w scale_le [OF h] show ?thesis
        by (auto simp: remembers_def weight_of_def split: if_splits)
    qed
  next
    case StatusDown
    show ?thesis
    proof (cases "st i")
      case (Some w')
      then show ?thesis
        using process_down_stashed [where st = st and i = i and E = E, OF b StatusDown Some] p wfm assms(3) b StatusDown
        by (auto simp: remembers_def weight_of_def)
    next
      case None
      then have w: "bo_Weight (b_options b) = w" using assms(3) b by (simp add: remembers_def weight_of_def)
      obtain c1 where "processPulseUpdate E \<lparr>up_Source = i, up_Metrics = m\<rparr> st c = (st(i \<mapsto> bo_Weight (b_options b)), c1)"
        "cx_backends c1 = gput (RsID i) (b\<lparr>b_metrics := m, b_options := b_options b\<lparr>bo_Weight := 0\<rparr>\<rparr>)
          (gput (RsID i) (b\<lparr>b_metrics := m\<rparr>) (cx_backends c))" "ctx_wf E c1"
        by (rule process_down_fresh [where st = st and i = i, OF assms(1,2) b StatusDown assms(4) None])
      with p w StatusDown show ?thesis by (auto simp: remembers_def weight_of_def)
    qed
  qed (use assms(5) in simp)
qed

lemma run_updates_append:
  "run_updates E (us @ vs) st c = (case run_updates E us st c of (st', c') \<Rightarrow> run_updates E vs st' c')"
  by (induction us arbitrary: st c) (auto split: prod.splits)

lemma messages_append: "messages i m (us @ vs) = messages i m us @ messages i (metrics_run m us) vs"
  by (induction us arbitrary: m) (auto simp: metrics_run_def Let_def)

lemma messages_ok:
  assumes "metrics_ok m" "StatusRemoved \<notin> fst ` set us" "u \<in> set (messages i m us)"
  shows "up_Source u = i \<and> metrics_ok (up_Metrics u) \<and> m_Status (up_Metrics u) \<noteq> StatusRemoved"
  using assms
proof (induction us arbitrary: m)
  case (Cons st us)
  obtain s t where st: "st = (s, t)" by force
  have ok: "metrics_ok (metrics_Update m s t)" using Cons.prems st by (intro metrics_ok_Update) auto
  have rest: "StatusRemoved \<notin> fst ` set us" and s: "s \<noteq> StatusRemoved" using Cons.prems(2) st by auto
  from Cons.prems(3) have "u = \<lparr>up_Source = i, up_Metrics = metrics_Update m s t\<rparr> \<or>
      u \<in> set (messages i (metrics_Update m s t) us)" by (simp add: st Let_def)
  then show ?case using Cons.IH [OF ok rest] ok s by auto
qed simp

lemma run_remembers:
  assumes "\<forall>u \<in> set us. up_Source u = i \<and> metrics_ok (up_Metrics u) \<and> m_Status (up_Metrics u) \<noteq> StatusRemoved"
    and "accepts_updates E" "ctx_wf E c" "remembers i w st c" "run_updates E us st c = (st', c')"
  shows "ctx_wf E c' \<and> remembers i w st' c'"
  using assms
proof (induction us arbitrary: st c)
  case (Cons u us)
  obtain st1 c1 where p: "processPulseUpdate E u st c = (st1, c1)" by force
  have u: "u = \<lparr>up_Source = i, up_Metrics = up_Metrics u\<rparr>" using Cons.prems(1) by (cases u) auto
  have "ctx_wf E c1 \<and> remembers i w st1 c1"
    using process_remembers [OF Cons.prems(3,2,4), of "up_Metrics u" st1 c1] Cons.prems(1) p u by auto
  then show ?case using Cons.IH [of c1 st1] Cons.prems p by simp
qed simp

lemma run_recovery:
  assumes "ctx_wf E c" and "accepts_updates E" and "weight_of (RsID i) c = Some w" and "st i = None"
    and "StatusRemoved \<notin> fst ` set us" and "run_updates E (messages i (NewMetrics t0) us) st c = (st', c')"
  shows "(\<exists>x \<le> w. weight_of (RsID i) c' = Some x) \<and> (\<forall>w'. st' i = Some w' \<longrightarrow> w' = w) \<and>
    (100 \<le> length ups \<and> (\<forall>u \<in> set ups. fst u = StatusUp) \<longrightarrow>
       (\<exists>st'' c''. run_updates E (messages i (NewMetrics t0) (us @ ups)) st c = (st'', c'') \<and>
          weight_of (RsID i) c'' = Some w \<and> st'' i = None))"
proof -
  have r0: "remembers i w st c" using assms(3,4) by (simp add: remembers_def)
  have run: "ctx_wf E c1 \<and> remembers i w st1 c1"
    if "run_updates E (messages i (NewMetrics t0) vs) st c = (st1, c1)" "StatusRemoved \<notin> fst ` set vs" for vs st1 c1
    using run_remembers [OF _ assms(2,1) r0 that(1)] messages_ok [OF metrics_ok_New that(2)] by blast
  have "\<exists>st'' c''. run_updates E (messages i (NewMetrics t0) (us @ ups)) st c = (st'', c'') \<and>
          weight_of (RsID i) c'' = Some w \<and> st'' i = None"
    if ups: "100 \<le> length ups" "\<forall>u \<in> set ups. fst u = StatusUp"
  proof -
    obtain vs s t where vs: "ups = vs @ [(s, t)]" using ups(1) by (cases ups rule: rev_cases) auto
    have s: "s = StatusUp" using ups(2) vs by simp
    let ?m = "metrics_run (NewMetrics t0) (us @ ups)"
    have m: "?m = metrics_Update (metrics_run (NewMetrics t0) (us @ vs)) s t"
      using metrics_run_snoc [of "NewMetrics t0" "us @ vs" s t] by (simp add: vs)
    have h: "m_Health ?m = 1" by (rule hundred_ups_window [OF ups, THEN conjunct1])
    have msgs: "messages i (NewMetrics t0) (us @ ups) =
        messages i (NewMetrics t0) (us @ vs) @ [\<lparr>up_Source = i, up_Metrics = ?m\<rparr>]"
      using messages_append [of i "NewMetrics t0" "us @ vs" "[(s, t)]"] by (simp add: m) (simp add: vs Let_def)
    obtain st1 c1 where r1: "run_updates E (messages i (NewMetrics t0) (us @ vs)) st c = (st1, c1)" by force
    have "StatusRemoved \<notin> fst ` set (us @ vs)" using assms(5) ups(2) vs by auto
    note inv1 = run [OF r1 this]
    obtain st2 c2 where p: "processPulseUpdate E \<lparr>up_Source = i, up_Metrics = ?m\<rparr> st1 c1 = (st2, c2)" by force
    have "metrics_ok ?m"
      using messages_ok [of "NewMetrics t0" "us @ ups" "\<lparr>up_Source = i, up_Metrics = ?m\<rparr>" i] assms(5) ups(2)
      unfolding msgs by fastforce
    then have "remembers i w st2 c2 \<and> st2 i = None"
      using process_remembers [OF _ assms(2) _ _ _ p, of w] inv1 h s m by simp
    moreover have "run_updates E (messages i (NewMetrics t0) (us @ ups)) st c = (st2, c2)"
      by (simp add: msgs run_updates_append r1 p)
    ultimately show ?thesis by (auto simp: remembers_def)
  qed
  moreover have "remembers i w st' c'" using run [OF assms(6,5)] by simp
  ultimately show ?thesis by (auto simp: remembers_def split: option.splits)
qed


text \<open>Any number of results that find a backend down, while its weight is stashed.\<close>

lemma run_down_stashed:
  assumes "\<forall>m \<in> set ms. m_Status m = StatusDown" "st i = Some w" "gget (cx_backends c) (RsID i) = Some b"
    and "run_updates E (map (\<lambda>m. \<lparr>up_Source = i, up_Metrics = m\<rparr>) ms) st c = (st', c')"
  shows "st' = st \<and> cx_log c' = cx_log c \<and> gget (cx_backends c') (RsID i) = Some (b\<lparr>b_metrics := last (b_metrics b # ms)\<rparr>)"
  using assms(1,3,4)
proof (induction ms arbitrary: c b)
  case (Cons m ms)
  have p: "processPulseUpdate E \<lparr>up_Source = i, up_Metrics = m\<rparr> st c = (st, put_backend (RsID i) (b\<lparr>b_metrics := m\<rparr>) c)"
    by (rule process_down_stashed [where st = st and i = i, OF Cons.prems(2) _ assms(2)]) (use Cons.prems(1) in simp)
  with Cons.prems have "run_updates E (map (\<lambda>m. \<lparr>up_Source = i, up_Metrics = m\<rparr>) ms) st (put_backend (RsID i) (b\<lparr>b_metrics := m\<rparr>) c) = (st', c')"
    by simp
  from Cons.IH [OF _ _ this] Cons.prems(1) show ?case by simp
qed simp

section \<open>Properties\<close>


lemma accepts_ok_env [simp]: "accepts_updates ok_env"
  by (simp add: accepts_updates_def)

lemma node_ctx_weight: "weight_of ''n1'' node_ctx = Some 10"
  by code_simp

definition n1 :: ID where "n1 = \<lparr>VsID = ''web'', RsID = ''n1''\<rparr>"

definition down_metrics :: Metrics where
  "down_metrics = metrics_Update (NewMetrics 0) StatusDown 5"

lemma down_metrics_ok [simp]: "metrics_ok down_metrics" "m_Status down_metrics = StatusDown"
  by (simp_all add: down_metrics_def metrics_ok_Update)









text \<open>
  While a backend recovers, one successful check after the other, its weight never goes
  down.
\<close>

lemma recovery_monotone:
  assumes "ctx_wf E c" and "accepts_updates E" and "gget (cx_backends c) (RsID i) = Some b" and "st i = Some w"
    and "metrics_ok m" and "m_record m \<noteq> []" and "m_Status m = StatusUp" and "m_Health m = health_of fl64 (m_record m)"
    and "run_updates E [\<lparr>up_Source = i, up_Metrics = m\<rparr>] st c = (st1, c1)"
    and "run_updates E [\<lparr>up_Source = i, up_Metrics = m\<rparr>, \<lparr>up_Source = i, up_Metrics = metrics_Update m StatusUp t\<rparr>] st c
      = (st2, c2)"
  shows "\<exists>x y. weight_of (RsID i) c1 = Some x \<and> weight_of (RsID i) c2 = Some y \<and> x \<le> y"
proof -
  let ?m = "metrics_Update m StatusUp t"
  have ok: "metrics_ok ?m" using assms(5) by (intro metrics_ok_Update) simp_all
  have h: "0 \<le> m_Health m" "m_Health ?m \<le> 1" "m_Health m \<le> m_Health ?m"
    using assms(5,6,8) ok health_push_mono(1) [of "m_record m"] by (simp_all add: metrics_ok_def)
  obtain ca where a: "processPulseUpdate E \<lparr>up_Source = i, up_Metrics = m\<rparr> st c =
      (if scale_weight w (m_Health m) = w then st(i := None) else st, ca)"
    "cx_backends ca = gput (RsID i) (b\<lparr>b_metrics := m, b_options := b_options b\<lparr>bo_Weight := scale_weight w (m_Health m)\<rparr>\<rparr>)
      (gput (RsID i) (b\<lparr>b_metrics := m\<rparr>) (cx_backends c))" "ctx_wf E ca"
    by (rule process_up_stashed [where st = st and i = i, OF assms(1-3,7,5,4)])
  then have c1: "c1 = ca" and w1: "weight_of (RsID i) c1 = Some (scale_weight w (m_Health m))"
    using assms(9) by (auto simp: weight_of_def)
  obtain bx where bx: "gget (cx_backends ca) (RsID i) = Some bx" using a(2) by simp
  show ?thesis
  proof (cases "scale_weight w (m_Health m) = w")
    case True
    then have "processPulseUpdate E \<lparr>up_Source = i, up_Metrics = ?m\<rparr> (st(i := None)) ca =
        (st(i := None), put_backend (RsID i) (bx\<lparr>b_metrics := ?m\<rparr>) ca)"
      by (intro process_up_idle [where i = i] bx) simp_all
    then have "weight_of (RsID i) c2 = weight_of (RsID i) c1"
      using assms(10) a(1) True bx c1 by (auto simp: weight_of_def)
    then show ?thesis using w1 by simp
  next
    case False
    obtain cb where "processPulseUpdate E \<lparr>up_Source = i, up_Metrics = ?m\<rparr> st ca =
        (if scale_weight w (m_Health ?m) = w then st(i := None) else st, cb)"
      "cx_backends cb = gput (RsID i) (bx\<lparr>b_metrics := ?m, b_options := b_options bx\<lparr>bo_Weight := scale_weight w (m_Health ?m)\<rparr>\<rparr>)
        (gput (RsID i) (bx\<lparr>b_metrics := ?m\<rparr>) (cx_backends ca))" "ctx_wf E cb"
      by (rule process_up_stashed [where st = st and i = i and m = ?m, OF a(3) assms(2) bx _ ok assms(4)]) simp
    then have "weight_of (RsID i) c2 = Some (scale_weight w (m_Health ?m))"
      using assms(10) a(1) False by (auto simp: weight_of_def)
    then show ?thesis using w1 scale_mono [OF h(1,3,2)] by blast
  qed
qed

lemma recovery_monotone_witness:
  "\<exists>st2 c2 y. run_updates ok_env [\<lparr>up_Source = n1, up_Metrics = metrics_Update down_metrics StatusUp 6\<rparr>,
       \<lparr>up_Source = n1, up_Metrics = metrics_Update (metrics_Update down_metrics StatusUp 6) StatusUp 9\<rparr>]
     [n1 \<mapsto> 100] node_ctx = (st2, c2) \<and> weight_of ''n1'' c2 = Some y"
proof -
  let ?m = "metrics_Update down_metrics StatusUp 6"
  let ?u = "\<lparr>up_Source = n1, up_Metrics = ?m\<rparr>" and ?v = "\<lparr>up_Source = n1, up_Metrics = metrics_Update ?m StatusUp 9\<rparr>"
  have ok: "metrics_ok ?m" by (intro metrics_ok_Update) simp_all
  have ne: "m_record ?m \<noteq> []" and u: "m_Status ?m = StatusUp" and h: "m_Health ?m = health_of fl64 (m_record ?m)"
    by simp_all
  have s: "[n1 \<mapsto> (100 :: u32)] n1 = Some 100" by simp
  obtain b where b: "gget (cx_backends node_ctx) (RsID n1) = Some b"
    using node_ctx_weight by (auto simp: weight_of_def n1_def)
  obtain st1 c1 where r1: "run_updates ok_env [?u] [n1 \<mapsto> 100] node_ctx = (st1, c1)" by force
  obtain st2 c2 where r2: "run_updates ok_env [?u, ?v] [n1 \<mapsto> 100] node_ctx = (st2, c2)" by force
  from recovery_monotone [OF wf_node_ctx accepts_ok_env b s ok ne u h r1 r2] r2 show ?thesis
    by (auto simp: n1_def)
qed


lemma run_up_idle:
  assumes "gget (cx_backends c) (RsID i) = Some b" "st i = None"
    and "\<forall>u \<in> set us. up_Source u = i \<and> m_Status (up_Metrics u) = StatusUp"
    and "run_updates E us st c = (st', c')"
  shows "st' = st \<and> weight_of (RsID i) c' = Some (bo_Weight (b_options b))"
  using assms
proof (induction us arbitrary: c b)
  case Nil
  then show ?case by (simp add: weight_of_def)
next
  case (Cons u us)
  have us: "up_Source u = i" "m_Status (up_Metrics u) = StatusUp" using Cons.prems(3) by simp_all
  then have u: "\<lparr>up_Source = i, up_Metrics = up_Metrics u\<rparr> = u" by simp
  let ?b = "b\<lparr>b_metrics := up_Metrics u\<rparr>"
  have "processPulseUpdate E \<lparr>up_Source = i, up_Metrics = up_Metrics u\<rparr> st c = (st, put_backend (RsID i) ?b c)"
    by (rule process_up_idle [where i = i and st = st, OF Cons.prems(1) us(2) Cons.prems(2)])
  then have "processPulseUpdate E u st c = (st, put_backend (RsID i) ?b c)" by (simp only: u)
  with Cons.prems(4) have r: "run_updates E us st (put_backend (RsID i) ?b c) = (st', c')" by simp
  have g: "gget (cx_backends (put_backend (RsID i) ?b c)) (RsID i) = Some ?b" by simp
  have "\<forall>u \<in> set us. up_Source u = i \<and> m_Status (up_Metrics u) = StatusUp"
    using Cons.prems(3) by (meson list.set_intros(2))
  from Cons.IH [OF g Cons.prems(2) this r] show ?case by simp
qed

text \<open>
  Claim C40. The stash is keyed by the two ids only, so the last message of a removed backend's
  check, which may arrive after a backend with the same ids was created again, makes the goroutine
  forget the weight stashed for the new one: its later recovery restores nothing, and it keeps the
  weight it had when it was down.
\<close>

theorem stale_removal_strands_weight:
  assumes "gget (cx_backends c) (RsID i) = Some b" and "st i = Some w" and "m_Status m0 = StatusRemoved"
    and "\<forall>u \<in> set us. up_Source u = i \<and> m_Status (up_Metrics u) = StatusUp"
    and "run_updates E (\<lparr>up_Source = i, up_Metrics = m0\<rparr> # us) st c = (st', c')"
  shows "weight_of (RsID i) c' = Some (bo_Weight (b_options b)) \<and> st' i = None"
proof -
  have "processPulseUpdate E \<lparr>up_Source = i, up_Metrics = m0\<rparr> st c = (st(i := None), c)"
    using assms(1,3) by (simp add: processPulseUpdate_def process_locked_def)
  then have "run_updates E us (st(i := None)) c = (st', c')" using assms(5) by simp
  from run_up_idle [where i = i and st = "st(i := None)", OF assms(1) _ assms(4) this] show ?thesis by simp
qed

theorem stale_removal_strands_weight_witness:
  "weight_of ''n1'' (snd (run_updates ok_env
     (\<lparr>up_Source = n1, up_Metrics = metrics_Update down_metrics StatusRemoved 7\<rparr> #
      messages n1 (NewMetrics 0) (replicate 200 (StatusUp, 9))) [n1 \<mapsto> 100] node_ctx)) = Some 10"
proof -
  let ?us = "messages n1 (NewMetrics 0) (replicate 200 (StatusUp, 9))"
  obtain b where b: "gget (cx_backends node_ctx) (RsID n1) = Some b" "bo_Weight (b_options b) = 10"
    using node_ctx_weight by (auto simp: weight_of_def n1_def)
  have up: "\<forall>u \<in> set (messages n1 m (replicate k (StatusUp, 9))). up_Source u = n1 \<and> m_Status (up_Metrics u) = StatusUp" for m k
    by (induction k arbitrary: m) (auto simp: Let_def)
  obtain st' c' where r: "run_updates ok_env (\<lparr>up_Source = n1, up_Metrics = metrics_Update down_metrics StatusRemoved 7\<rparr> # ?us)
      [n1 \<mapsto> 100] node_ctx = (st', c')" by force
  have "[n1 \<mapsto> (100 :: u32)] n1 = Some 100" "m_Status (metrics_Update down_metrics StatusRemoved 7) = StatusRemoved" by simp_all
  from stale_removal_strands_weight [OF b(1) this up r] b(2) r show ?thesis by (simp add: n1_def)
qed

text \<open>
  A weight that a client sets while the backend's weight is stashed takes effect at
  once, also for a backend that is down, and is overwritten by the next message that finds the
  backend up, whatever it was.
\<close>

lemma requested_weight_overwritten:
  assumes "ctx_wf E c" and "accepts_updates E" and "gget (cx_backends c) (RsID i) = Some b" and "st i = Some w"
    and "metrics_ok m" and "m_Status m = StatusUp"
    and "updateBackend E (VsID i) (RsID i) x c = (r, c1)"
    and "processPulseUpdate E \<lparr>up_Source = i, up_Metrics = m\<rparr> st c1 = (st', c')"
  shows "r = Ok (bo_Weight (b_options b)) \<and> weight_of (RsID i) c1 = Some x \<and>
    weight_of (RsID i) c' = Some (scale_weight w (m_Health m))"
proof -
  obtain ca where u: "updateBackend E (VsID i) (RsID i) x c = (Ok (bo_Weight (b_options b)), ca)"
    "cx_backends ca = gput (RsID i) (b\<lparr>b_options := b_options b\<lparr>bo_Weight := x\<rparr>\<rparr>) (cx_backends c)" "ctx_wf E ca"
    by (rule updateBackend_accepted [OF assms(1-3)])
  then have c1: "c1 = ca" "r = Ok (bo_Weight (b_options b))" using assms(7) by auto
  let ?b = "b\<lparr>b_options := b_options b\<lparr>bo_Weight := x\<rparr>\<rparr>"
  have b: "gget (cx_backends c1) (RsID i) = Some ?b" by (simp add: c1 u)
  obtain cb where "processPulseUpdate E \<lparr>up_Source = i, up_Metrics = m\<rparr> st c1 =
      (if scale_weight w (m_Health m) = w then st(i := None) else st, cb)"
    "cx_backends cb = gput (RsID i) (?b\<lparr>b_metrics := m, b_options := b_options ?b\<lparr>bo_Weight := scale_weight w (m_Health m)\<rparr>\<rparr>)
      (gput (RsID i) (?b\<lparr>b_metrics := m\<rparr>) (cx_backends c1))" "ctx_wf E cb"
    by (rule process_up_stashed [where st = st and i = i, OF _ assms(2) b assms(6,5,4)]) (simp add: c1 u)
  then show ?thesis using assms(8) c1(2) b by (auto simp: weight_of_def)
qed

lemma requested_weight_overwritten_witness:
  "\<exists>c1 c' st'. updateBackend ok_env ''web'' ''n1'' 55 node_ctx = (Ok 10, c1) \<and>
     processPulseUpdate ok_env \<lparr>up_Source = n1, up_Metrics = NewMetrics 3\<rparr> [n1 \<mapsto> 100] c1 = (st', c') \<and>
     weight_of ''n1'' c1 = Some 55 \<and> weight_of ''n1'' c' = Some 100"
proof -
  obtain b where b: "gget (cx_backends node_ctx) (RsID n1) = Some b" "bo_Weight (b_options b) = 10"
    using node_ctx_weight by (auto simp: weight_of_def n1_def)
  obtain r c1 where u: "updateBackend ok_env (VsID n1) (RsID n1) 55 node_ctx = (r, c1)" by force
  obtain st' c' where p: "processPulseUpdate ok_env \<lparr>up_Source = n1, up_Metrics = NewMetrics 3\<rparr> [n1 \<mapsto> 100] c1 = (st', c')"
    by force
  have "[n1 \<mapsto> (100 :: u32)] n1 = Some 100" and "m_Status (NewMetrics 3) = StatusUp" by (simp_all add: NewMetrics_def)
  from requested_weight_overwritten [OF wf_node_ctx accepts_ok_env b(1) this(1) metrics_ok_New this(2) u p] b(2) u p
  show ?thesis by (simp add: n1_def NewMetrics_def)
qed

end
