(* ===== verification/Gorb_Locks.thy ===== *)
theory Gorb_Locks
  imports Gorb_Exporter Gorb_Runtime
begin

text \<open>
  The locking of the context: which calls of its \<open>sync.RWMutex\<close> each operation makes, and what can
  happen when several goroutines make theirs.  The mutex is the standard library's: a writer first
  announces itself, which keeps new readers out, and enters when the readers inside have left.
\<close>

section \<open>The mutex\<close>

datatype lock_op = RLock | RUnlock | Lock | Unlock

text \<open>The calls each goroutine still has to make, the readers inside, the announced writer, and whether it is inside.\<close>

record locks =
  lk_progs :: "lock_op list list"
  lk_readers :: nat
  lk_announced :: "nat option"
  lk_writing :: bool

definition advance :: "nat \<Rightarrow> locks \<Rightarrow> locks" where
  "advance i s = s\<lparr>lk_progs := (lk_progs s)[i := tl (lk_progs s ! i)]\<rparr>"

definition next_op :: "locks \<Rightarrow> nat \<Rightarrow> lock_op \<Rightarrow> bool" where
  "next_op s i a \<longleftrightarrow> i < length (lk_progs s) \<and> lk_progs s ! i \<noteq> [] \<and> hd (lk_progs s ! i) = a"

inductive lock_step :: "locks \<Rightarrow> locks \<Rightarrow> bool" where
  rlock: "next_op s i RLock \<Longrightarrow> lk_announced s = None \<Longrightarrow>
    lock_step s ((advance i s)\<lparr>lk_readers := Suc (lk_readers s)\<rparr>)"
| runlock: "next_op s i RUnlock \<Longrightarrow> lk_readers s = Suc n \<Longrightarrow> lock_step s ((advance i s)\<lparr>lk_readers := n\<rparr>)"
| announce: "next_op s i Lock \<Longrightarrow> lk_announced s = None \<Longrightarrow> lock_step s (s\<lparr>lk_announced := Some i\<rparr>)"
| enter: "next_op s i Lock \<Longrightarrow> lk_announced s = Some i \<Longrightarrow> lk_readers s = 0 \<Longrightarrow> \<not> lk_writing s \<Longrightarrow>
    lock_step s ((advance i s)\<lparr>lk_writing := True\<rparr>)"
| unlock: "next_op s i Unlock \<Longrightarrow> lk_announced s = Some i \<Longrightarrow> lk_writing s \<Longrightarrow>
    lock_step s ((advance i s)\<lparr>lk_writing := False, lk_announced := None\<rparr>)"

definition lock_start :: "lock_op list list \<Rightarrow> locks" where
  "lock_start ps = \<lparr>lk_progs = ps, lk_readers = 0, lk_announced = None, lk_writing = False\<rparr>"

definition all_done :: "locks \<Rightarrow> bool" where
  "all_done s \<longleftrightarrow> (\<forall>p \<in> set (lk_progs s). p = [])"

definition stuck :: "locks \<Rightarrow> bool" where
  "stuck s \<longleftrightarrow> \<not> all_done s \<and> (\<nexists>s'. lock_step s s')"

inductive_cases lock_stepE: "lock_step s s'"

section \<open>The calls of the program\<close>

primrec critical_locks :: "'a critical \<Rightarrow> lock_op list" where
  "critical_locks (Exclusive f) = [Lock, Unlock]"
| "critical_locks (Shared f) = [RLock, RUnlock]"

text \<open>The goroutine of \<open>runtime.go\<close>, for one message: the section under the lock, then \<open>UpdateBackend\<close> or nothing.\<close>

definition process_locks :: "env \<Rightarrow> pulse_update \<Rightarrow> stash \<Rightarrow> ctx \<Rightarrow> lock_op list" where
  "process_locks E u st c = [Lock, Unlock] @
     (let i = up_Source u; (go, st1, c1) = process_locked u st c in
      if go \<and> (m_Status (up_Metrics u) = StatusUp \<and> st1 i \<noteq> None \<or> m_Status (up_Metrics u) = StatusDown \<and> st1 i = None)
      then critical_locks (UpdateBackend E (VsID i) (RsID i) 0) else [])"

text \<open>The exporter holds the lock for reading while it calls the status queries, which take it again.\<close>

definition service_locks :: "env \<Rightarrow> ctx \<Rightarrow> string \<Rightarrow> lock_op list" where
  "service_locks E c n = critical_locks (locked_GetService E n) @
     (case GetService E n c of Inl e \<Rightarrow> []
      | Inr info \<Rightarrow> concat (map (\<lambda>k. critical_locks (locked_GetBackend n k)) (si_Backends info)))"

definition exporter_locks :: "env \<Rightarrow> ctx \<Rightarrow> lock_op list" where
  "exporter_locks E c =
     [RLock] @ concat (map (service_locks E c) (range_keys E (cx_log c) (cx_services c))) @ [RUnlock]"

section \<open>Programs that do not nest\<close>

fun flat :: "lock_op list \<Rightarrow> bool" where
  "flat [] = True"
| "flat (RLock # RUnlock # p) = flat p"
| "flat (Lock # Unlock # p) = flat p"
| "flat p = False"

fun_cases flat_ConsE: "flat (a # p)"

lemma flat_critical [simp]: "flat (critical_locks op @ p) = flat p"
  by (cases op) simp_all

lemma flat_process: "flat (process_locks E u st c)"
  by (simp add: process_locks_def split_beta Let_def critical_defs)

text \<open>
  What a goroutine does with the mutex, but for the exporter's: method after method of the context, and
  message after message.  (The mode of a method does not depend on the type of its result.)
\<close>

inductive goroutine :: "lock_op list \<Rightarrow> bool" where
  goroutine_end: "goroutine []"
| goroutine_call: "goroutine p \<Longrightarrow> goroutine (critical_locks (op :: unit critical) @ p)"
| goroutine_message: "goroutine p \<Longrightarrow> goroutine (process_locks E u st c @ p)"

lemma flat_append: "flat p \<Longrightarrow> flat (p @ q) = flat q"
  by (induction p rule: flat.induct) simp_all

lemma goroutine_flat: "goroutine p \<Longrightarrow> flat p"
  by (induction rule: goroutine.induct) (simp_all add: flat_append flat_process)

text \<open>A goroutine between two calls, inside as a reader, or inside as a writer.\<close>

definition midway :: "lock_op list \<Rightarrow> bool" where
  "midway p \<longleftrightarrow> flat p \<or> (\<exists>q. flat q \<and> (p = RUnlock # q \<or> p = Unlock # q))"

definition inside :: "lock_op \<Rightarrow> locks \<Rightarrow> nat set" where
  "inside a s = {i. next_op s i a}"

definition lock_inv :: "locks \<Rightarrow> bool" where
  "lock_inv s \<longleftrightarrow> (\<forall>p \<in> set (lk_progs s). midway p) \<and> card (inside RUnlock s) = lk_readers s \<and>
     (\<forall>i. next_op s i Unlock \<longrightarrow> lk_writing s \<and> lk_announced s = Some i) \<and>
     (lk_writing s \<longrightarrow> lk_readers s = 0) \<and>
     (\<forall>i. lk_announced s = Some i \<longrightarrow> next_op s i (if lk_writing s then Unlock else Lock)) \<and>
     (lk_writing s \<longrightarrow> lk_announced s \<noteq> None)"

lemma flat_not_unlock: "flat p \<Longrightarrow> p \<noteq> [] \<Longrightarrow> hd p \<noteq> RUnlock \<and> hd p \<noteq> Unlock"
  by (cases p) (auto elim: flat_ConsE)

lemma midway_cases:
  assumes "midway p" "p \<noteq> []"
  obtains (r) q where "p = RLock # RUnlock # q" "flat q" | (ru) q where "p = RUnlock # q" "flat q"
    | (w) q where "p = Lock # Unlock # q" "flat q" | (wu) q where "p = Unlock # q" "flat q"
  using assms unfolding midway_def by (cases p rule: flat.cases) auto

lemma next_op_updates [simp]:
  "next_op (s\<lparr>lk_readers := n\<rparr>) = next_op s" "next_op (s\<lparr>lk_announced := a\<rparr>) = next_op s"
  "next_op (s\<lparr>lk_writing := b\<rparr>) = next_op s"
  by (simp_all add: next_op_def fun_eq_iff)

lemma advance_sel [simp]:
  "lk_readers (advance i s) = lk_readers s" "lk_announced (advance i s) = lk_announced s"
  "lk_writing (advance i s) = lk_writing s"
  by (simp_all add: advance_def)

lemma next_op_advance:
  "next_op s i b \<Longrightarrow> next_op (advance i s) j a \<longleftrightarrow>
     (if j = i then tl (lk_progs s ! i) \<noteq> [] \<and> hd (tl (lk_progs s ! i)) = a else next_op s j a)"
  by (auto simp: next_op_def advance_def)

lemma next_op_fun: "next_op s i a \<Longrightarrow> next_op s i b \<Longrightarrow> a = b"
  by (simp add: next_op_def)

lemma finite_inside [simp]: "finite (inside a s)"
  by (rule finite_subset [of _ "{..<length (lk_progs s)}"]) (auto simp: inside_def next_op_def)

lemma midway_advance:
  assumes "\<forall>p \<in> set (lk_progs s). midway p" "next_op s i a"
  shows "\<forall>p \<in> set (lk_progs (advance i s)). midway p"
proof -
  have i: "i < length (lk_progs s)" "lk_progs s ! i \<noteq> []" using assms(2) by (auto simp: next_op_def)
  then have "midway (lk_progs s ! i)" using assms(1) by simp
  then have "midway (tl (lk_progs s ! i))"
    using i(2) by (cases rule: midway_cases) (auto simp: midway_def)
  then show ?thesis using assms(1) by (auto simp: advance_def dest: set_update_subset_insert [THEN subsetD])
qed

text \<open>What a goroutine does next once it has made a call.\<close>

lemma next_after:
  assumes "\<forall>p \<in> set (lk_progs s). midway p" "next_op s i a"
  shows "a = RLock \<Longrightarrow> next_op (advance i s) i b \<longleftrightarrow> b = RUnlock"
    and "a = Lock \<Longrightarrow> next_op (advance i s) i b \<longleftrightarrow> b = Unlock"
    and "a \<in> {RUnlock, Unlock} \<Longrightarrow> \<not> next_op (advance i s) i RUnlock \<and> \<not> next_op (advance i s) i Unlock"
proof -
  have i: "i < length (lk_progs s)" "lk_progs s ! i \<noteq> []" "hd (lk_progs s ! i) = a" using assms(2) by (auto simp: next_op_def)
  then have "midway (lk_progs s ! i)" using assms(1) by simp
  then show "a = RLock \<Longrightarrow> next_op (advance i s) i b \<longleftrightarrow> b = RUnlock"
    and "a = Lock \<Longrightarrow> next_op (advance i s) i b \<longleftrightarrow> b = Unlock"
    and "a \<in> {RUnlock, Unlock} \<Longrightarrow> \<not> next_op (advance i s) i RUnlock \<and> \<not> next_op (advance i s) i Unlock"
    using i(2,3) flat_not_unlock by (cases rule: midway_cases; auto simp: next_op_advance [OF assms(2)])+
qed

lemma lock_inv_start: "\<forall>p \<in> set ps. flat p \<Longrightarrow> lock_inv (lock_start ps)"
proof -
  assume f: "\<forall>p \<in> set ps. flat p"
  have "\<not> next_op (lock_start ps) i a" if "a = RUnlock \<or> a = Unlock" for i a
    using f flat_not_unlock that by (auto simp: next_op_def lock_start_def)
  then show ?thesis using f by (auto simp: lock_inv_def inside_def midway_def lock_start_def)
qed

lemma inside_sel [simp]:
  "inside a (s\<lparr>lk_readers := n\<rparr>) = inside a s" "inside a (s\<lparr>lk_announced := x\<rparr>) = inside a s"
  "inside a (s\<lparr>lk_writing := b\<rparr>) = inside a s"
  by (simp_all add: inside_def)

lemma inside_advance:
  assumes "next_op s i b"
  shows "inside a (advance i s) = (if next_op (advance i s) i a then insert i (inside a s) else inside a s - {i})"
  using next_op_advance [OF assms] by (auto simp: inside_def)

lemma lock_inv_step:
  assumes "lock_step s s'" "lock_inv s"
  shows "lock_inv s'"
proof -
  have m: "\<forall>p \<in> set (lk_progs s). midway p" and c: "card (inside RUnlock s) = lk_readers s"
    and u: "\<And>i. next_op s i Unlock \<Longrightarrow> lk_writing s \<and> lk_announced s = Some i"
    and w: "lk_writing s \<Longrightarrow> lk_readers s = 0" "lk_writing s \<Longrightarrow> lk_announced s \<noteq> None"
    and a: "\<And>i. lk_announced s = Some i \<Longrightarrow> next_op s i (if lk_writing s then Unlock else Lock)"
    using assms(2) unfolding lock_inv_def by blast+
  show ?thesis using assms(1)
  proof (cases rule: lock_step.cases)
    case (rlock i)
    have "i \<notin> inside RUnlock s" using next_op_fun [OF rlock(2)] by (auto simp: inside_def)
    moreover have "\<not> next_op (advance i s) j Unlock" for j
      using next_after(1) [OF m rlock(2) refl, of Unlock] next_op_advance [OF rlock(2), of j Unlock] u [of j] rlock(3)
      by (cases "j = i") auto
    ultimately show ?thesis
      using midway_advance [OF m rlock(2)] next_after(1) [OF m rlock(2) refl] w(2) rlock c
      by (auto simp: lock_inv_def inside_advance)
  next
    case (runlock i n)
    have i: "i \<in> inside RUnlock s" using runlock(2) by (simp add: inside_def)
    have nw: "\<not> lk_writing s" using w(1) runlock(3) by auto
    note n = next_after(3) [OF m runlock(2)]
    have "\<not> next_op (advance i s) j Unlock" for j
      using n next_op_advance [OF runlock(2), of j Unlock] u [of j] nw by (cases "j = i") auto
    moreover have "next_op (advance i s) j Lock" if "lk_announced s = Some j" for j
      using a [OF that] nw next_op_fun [OF runlock(2)] next_op_advance [OF runlock(2)] by (cases "j = i") auto
    ultimately show ?thesis
      using midway_advance [OF m runlock(2)] n i c runlock nw by (auto simp: lock_inv_def inside_advance)
  next
    case (announce i)
    then show ?thesis using assms(2) by (auto simp: lock_inv_def)
  next
    case (enter i)
    note n = next_after(2) [OF m enter(2) refl]
    have "i \<notin> inside RUnlock s" using next_op_fun [OF enter(2)] by (auto simp: inside_def)
    moreover have "j = i" if "next_op (advance i s) j Unlock" for j
      using that next_op_advance [OF enter(2), of j Unlock] u [of j] enter(3,5) by (cases "j = i") auto
    ultimately show ?thesis
      using midway_advance [OF m enter(2)] n c enter by (auto simp: lock_inv_def inside_advance)
  next
    case (unlock i)
    note n = next_after(3) [OF m unlock(2)]
    have "i \<notin> inside RUnlock s" using next_op_fun [OF unlock(2)] by (auto simp: inside_def)
    moreover have "\<not> next_op (advance i s) j Unlock" for j
      using n next_op_advance [OF unlock(2), of j Unlock] u [of j] unlock(3) by (cases "j = i") auto
    ultimately show ?thesis
      using midway_advance [OF m unlock(2)] n c unlock w(1) by (auto simp: lock_inv_def inside_advance)
  qed
qed

lemma lock_inv_not_stuck:
  assumes "lock_inv s"
  shows "\<not> stuck s"
proof
  assume st: "stuck s"
  then have no: "\<not> lock_step s s'" for s' by (simp add: stuck_def)
  from st obtain i where i: "i < length (lk_progs s)" "lk_progs s ! i \<noteq> []"
    by (auto simp: stuck_def all_done_def in_set_conv_nth)
  show False
  proof (cases "lk_announced s")
    case (Some j)
    with assms have j: "next_op s j (if lk_writing s then Unlock else Lock)" by (simp add: lock_inv_def)
    show False
    proof (cases "lk_writing s")
      case True
      then show False using no lock_step.unlock [of s j] j Some by auto
    next
      case False
      then have "lk_readers s \<noteq> 0" using no lock_step.enter [of s j] j Some by auto
      then obtain n where n: "lk_readers s = Suc n" by (cases "lk_readers s") auto
      with assms have "card (inside RUnlock s) \<noteq> 0" by (simp add: lock_inv_def)
      then have "inside RUnlock s \<noteq> {}" by auto
      then obtain k where "next_op s k RUnlock" by (auto simp: inside_def)
      then show False using no lock_step.runlock [OF _ n] by blast
    qed
  next
    case None
    have "next_op s i (hd (lk_progs s ! i))" using i by (simp add: next_op_def)
    moreover have "hd (lk_progs s ! i) \<noteq> Unlock"
      using assms None calculation by (auto simp: lock_inv_def)
    moreover have "\<not> next_op s i RUnlock"
    proof
      assume r: "next_op s i RUnlock"
      then have "i \<in> inside RUnlock s" by (simp add: inside_def)
      then have "card (inside RUnlock s) \<noteq> 0" by auto
      then obtain n where "lk_readers s = Suc n" using assms by (cases "lk_readers s") (auto simp: lock_inv_def)
      then show False using no lock_step.runlock [OF r] by blast
    qed
    ultimately show False
      using no None lock_step.rlock [of s i] lock_step.announce [of s i] by (cases "hd (lk_progs s ! i)") auto
  qed
qed

text \<open>Every step takes a call off a program or announces a writer, so a measure goes down.\<close>

definition lock_measure :: "locks \<Rightarrow> nat" where
  "lock_measure s = 2 * sum_list (map length (lk_progs s)) + (if lk_announced s = None then 1 else 0)"

lemma sum_advance:
  assumes "next_op s i a"
  shows "Suc (sum_list (map length (lk_progs (advance i s)))) = sum_list (map length (lk_progs s))"
proof -
  have i: "i < length (lk_progs s)" "lk_progs s ! i \<noteq> []" using assms by (auto simp: next_op_def)
  let ?ls = "map length (lk_progs s)"
  have "sum_list (?ls[i := length (tl (lk_progs s ! i))]) + ?ls ! i = sum_list ?ls + length (tl (lk_progs s ! i))"
    using i(1) sum_list_update [of i ?ls "length (tl (lk_progs s ! i))"] elem_le_sum_list [of i ?ls] by simp
  moreover have "?ls ! i = Suc (length (tl (lk_progs s ! i)))" using i by simp
  ultimately show ?thesis by (simp add: advance_def map_update)
qed

lemma lock_step_measure:
  assumes "lock_step s s'"
  shows "lock_measure s' < lock_measure s"
  using assms
proof (cases rule: lock_step.cases)
  case (rlock i)
  then show ?thesis using sum_advance [OF rlock(2)] by (simp add: lock_measure_def)
next
  case (runlock i n)
  then show ?thesis using sum_advance [OF runlock(2)] by (simp add: lock_measure_def)
next
  case (enter i)
  then show ?thesis using sum_advance [OF enter(2)] by (simp add: lock_measure_def)
next
  case (unlock i)
  then show ?thesis using sum_advance [OF unlock(2)] by (simp add: lock_measure_def)
qed (simp_all add: lock_measure_def)

section \<open>Properties\<close>

text \<open>
  Claim C20. Goroutines that make the calls of the context's methods and of the message loop, one after the
  other, always finish, in any interleaving: no run has more steps than twice their calls plus one, and a run
  that has stopped has finished every program.
\<close>

theorem methods_terminate:
  assumes "\<forall>p \<in> set ps. goroutine p" and "(lock_step ^^ n) (lock_start ps) s"
  shows "n \<le> 2 * sum_list (map length ps) + 1 \<and> ((\<nexists>s'. lock_step s s') \<longrightarrow> all_done s)"
proof -
  have f: "\<forall>p \<in> set ps. flat p" using assms(1) goroutine_flat by blast
  have "lock_inv s \<and> n + lock_measure s \<le> lock_measure (lock_start ps)"
    using assms(2)
  proof (induction n arbitrary: s)
    case 0
    then show ?case using lock_inv_start [OF f] by simp
  next
    case (Suc n)
    then obtain s0 where "(lock_step ^^ n) (lock_start ps) s0" "lock_step s0 s" by auto
    with Suc.IH [of s0] lock_step_measure [of s0 s] lock_inv_step [of s0 s] show ?case by auto
  qed
  moreover have "lock_measure (lock_start ps) = 2 * sum_list (map length ps) + 1"
    by (simp add: lock_measure_def lock_start_def)
  ultimately show ?thesis using lock_inv_not_stuck [of s] by (auto simp: stuck_def)
qed

theorem methods_terminate_witness:
  "\<nexists>s. (lock_step ^^ 10) (lock_start [critical_locks (CreateService ok_env ''web'' web_opts),
      critical_locks (UpdateService ok_env ''web'' web_opts)]) s"
proof
  let ?ps = "[critical_locks (CreateService ok_env ''web'' web_opts), critical_locks (UpdateService ok_env ''web'' web_opts)]"
  assume "\<exists>s. (lock_step ^^ 10) (lock_start ?ps) s"
  then obtain s where s: "(lock_step ^^ 10) (lock_start ?ps) s" ..
  have "goroutine (critical_locks op @ [])" for op :: "unit critical"
    by (rule goroutine.goroutine_call) (rule goroutine.goroutine_end)
  then have "\<forall>p \<in> set ?ps. goroutine p" by simp
  from methods_terminate [OF this s] show False by (simp add: critical_defs)
qed

text \<open>
  Claim C27. The exporter takes the lock for reading while it holds it for reading; with any writer, and any
  service in the context, it can come to a state in which neither of the two goes on: the writer waits for the
  exporter to leave, and the exporter's inner call waits behind the writer.
\<close>

theorem exporter_can_deadlock:
  assumes "fair_iter E" and "gget (cx_services c) n \<noteq> None"
  shows "\<exists>s. lock_step\<^sup>*\<^sup>* (lock_start [exporter_locks E c, critical_locks (Exclusive f)]) s \<and> stuck s"
proof -
  have "range_keys E (cx_log c) (cx_services c) \<noteq> []"
    using set_range_keys [OF assms(1), of "cx_log c" "cx_services c"] assms(2) by auto
  then obtain p where p: "exporter_locks E c = RLock # RLock # p"
    by (cases "range_keys E (cx_log c) (cx_services c)") (auto simp: exporter_locks_def service_locks_def critical_defs)
  let ?s0 = "lock_start [exporter_locks E c, critical_locks (Exclusive f)]"
  let ?s1 = "(advance 0 ?s0)\<lparr>lk_readers := 1\<rparr>"
  let ?s2 = "?s1\<lparr>lk_announced := Some 1\<rparr>"
  have "lock_step ?s0 ((advance 0 ?s0)\<lparr>lk_readers := Suc (lk_readers ?s0)\<rparr>)"
    by (rule lock_step.rlock) (simp_all add: next_op_def lock_start_def p)
  then have 1: "lock_step ?s0 ?s1" by (simp add: lock_start_def)
  have 2: "lock_step ?s1 ?s2"
    by (rule lock_step.announce) (simp_all add: next_op_def lock_start_def advance_def)
  have progs: "lk_progs ?s2 = [RLock # p, [Lock, Unlock]]" by (simp add: lock_start_def advance_def p)
  have op: "next_op ?s2 i a \<Longrightarrow> i = 0 \<and> a = RLock \<or> i = 1 \<and> a = Lock" for i a
    unfolding next_op_def progs by (auto simp: less_Suc_eq nth_Cons')
  obtain s2 where s2: "s2 = ?s2" by blast
  have sel: "lk_readers s2 = 1" "lk_announced s2 = Some 1" "\<not> lk_writing s2" by (simp_all add: s2 lock_start_def)
  have "\<not> lock_step s2 s'" for s'
  proof
    assume "lock_step s2 s'"
    then show False
      by (cases rule: lock_step.cases) (use sel op [folded s2] in fastforce)+
  qed
  moreover have "\<not> all_done ?s2" unfolding all_done_def progs by simp
  ultimately have "stuck ?s2" unfolding s2 [symmetric] stuck_def by blast
  then show ?thesis using 1 2 by (meson converse_rtranclp_into_rtranclp rtranclp.rtrancl_refl)
qed

theorem exporter_can_deadlock_witness:
  "\<exists>s. lock_step\<^sup>*\<^sup>* (lock_start [exporter_locks ok_env web_ctx, critical_locks (Exclusive (createService ok_env ''a'' web_opts))]) s \<and> stuck s"
proof -
  have "(case gget (cx_services web_ctx) ''web'' of None \<Rightarrow> False | Some s \<Rightarrow> True)" by code_simp
  then have "gget (cx_services web_ctx) ''web'' \<noteq> None" by (auto split: option.splits)
  from exporter_can_deadlock [OF fair_ok_env this] show ?thesis by blast
qed

end
