(* ===== verification/Gorb_System.thy ===== *)
theory Gorb_System
  imports Gorb_Locks
begin

text \<open>
  The running daemon: the context behind its mutex, the goroutine of \<open>src/core/runtime.go\<close> with its
  stash, and one goroutine per check (\<open>src/pulse/pulse.go\<close>).  A step is one critical section or one
  rendezvous on the channel of the context, which has no buffer; the steps of different goroutines
  interleave in any order.
\<close>

section \<open>Operations\<close>

datatype api =
    ApiCreateService string ServiceOptions
  | ApiUpdateService string ServiceOptions
  | ApiCreateBackend string string BackendOptions
  | ApiUpdateBackend string string u32
  | ApiRemoveService string
  | ApiRemoveBackend string string
  | ApiSynchronize "ServiceOptions gomap" "BackendOptions gomap"

text \<open>The context an operation leaves, also when it fails, or panics in a REST handler.\<close>

primrec api_run :: "env \<Rightarrow> api \<Rightarrow> ctx \<Rightarrow> ctx" where
  "api_run E (ApiCreateService i so) c = snd (run_critical (CreateService E i so) c)"
| "api_run E (ApiUpdateService i so) c = snd (run_critical (UpdateService E i so) c)"
| "api_run E (ApiCreateBackend i k bo) c = snd (run_critical (CreateBackend E i k bo) c)"
| "api_run E (ApiUpdateBackend i k w) c = snd (run_critical (UpdateBackend E i k w) c)"
| "api_run E (ApiRemoveService i) c = snd (run_critical (RemoveService E i) c)"
| "api_run E (ApiRemoveBackend i k) c = snd (run_critical (RemoveBackend E i k) c)"
| "api_run E (ApiSynchronize sv bk) c = snd (Synchronize E sv bk c)"

text \<open>
  What it takes for a predicate on contexts to be kept by a synchronization, which creates and removes, and
  by everything a client can do.
\<close>

locale sync_invariant =
  fixes P :: "ctx \<Rightarrow> bool" and E :: env
  assumes keep_createService: "P c \<Longrightarrow> P (snd (createService E i so c))"
    and keep_createBackend: "P c \<Longrightarrow> P (snd (createBackend E i k bo c))"
    and keep_removeService: "P c \<Longrightarrow> P (snd (removeService E i c))"
    and keep_removeBackend: "P c \<Longrightarrow> P (snd (removeBackend E i k c))"
begin

lemma keep_sync_del_services: "P c \<Longrightarrow> P (snd (sync_del_services E ext ks c))"
proof (induction ks arbitrary: c)
  case (Cons k ks)
  then show ?case using keep_removeService [of c k] by (auto simp: split_beta)
qed simp

lemma keep_sync_service: "P c \<Longrightarrow> P (snd (sync_service E k opts c))"
  using keep_removeService [of c k] by (auto simp: sync_service_def split_beta keep_createService split: option.split)

lemma keep_sync_add_services: "P c \<Longrightarrow> P (snd (sync_add_services E ext ks c))"
proof (induction ks arbitrary: c)
  case (Cons k ks)
  then show ?case using keep_sync_service [of c k] by (auto simp: split_beta split: option.split)
qed simp

lemma keep_sync_del_backends: "P c \<Longrightarrow> P (snd (sync_del_backends E ext ks c))"
proof (induction ks arbitrary: c)
  case (Cons k ks)
  then show ?case using keep_removeBackend [of c _ k] by (auto simp: split_beta split: option.split)
qed simp

lemma keep_sync_backend: "P c \<Longrightarrow> P (snd (sync_backend E k opts c))"
  using keep_removeBackend [of c _ k] by (auto simp: sync_backend_def split_beta keep_createBackend split: option.split)

lemma keep_sync_add_backends: "P c \<Longrightarrow> P (snd (sync_add_backends E ext ks c))"
proof (induction ks arbitrary: c)
  case (Cons k ks)
  then show ?case using keep_sync_backend [of c k] by (auto simp: split_beta split: option.split)
qed simp

lemma keep_Synchronize: "P c \<Longrightarrow> P (snd (Synchronize E sv bk c))"
  unfolding Synchronize_def
  by (intro and_then_inv [where P = P] keep_sync_del_services keep_sync_add_services
      keep_sync_del_backends keep_sync_add_backends)

end

locale ctx_invariant = sync_invariant +
  assumes keep_updateService: "P c \<Longrightarrow> P (snd (updateService E i so c))"
    and keep_updateBackend: "P c \<Longrightarrow> P (snd (updateBackend E i k w c))"
begin

lemma keep_api: "P c \<Longrightarrow> P (api_run E a c)"
  by (cases a) (simp_all add: critical_defs keep_createService keep_updateService keep_createBackend
      keep_updateBackend keep_removeService keep_removeBackend keep_Synchronize)

end

interpretation wf: ctx_invariant "ctx_wf E" E for E
  by unfold_locales (rule wf_createService wf_updateService wf_createBackend wf_updateBackend
      wf_removeService wf_removeBackend, assumption)+

section \<open>The check loops a context has started\<close>

definition loops_ok :: "ctx \<Rightarrow> bool" where
  "loops_ok c \<longleftrightarrow> (\<forall>i p. (i, p) \<in> set (cx_loops c) \<longrightarrow>
       driver_made (p_driver p) \<and> metrics_ok (p_metrics p) \<and> p_stopCh p < cx_next c) \<and>
     (\<forall>i p j q. (i, p) \<in> set (cx_loops c) \<longrightarrow> (j, q) \<in> set (cx_loops c) \<longrightarrow> p_stopCh p = p_stopCh q \<longrightarrow> i = j \<and> p = q)"

lemma loops_okD:
  "loops_ok c \<Longrightarrow> (i, p) \<in> set (cx_loops c) \<Longrightarrow>
     driver_made (p_driver p) \<and> metrics_ok (p_metrics p) \<and> p_stopCh p < cx_next c"
  unfolding loops_ok_def by blast

lemma loops_ok_fields [simp]:
  "loops_ok (c\<lparr>cx_stopped := b\<rparr>) = loops_ok c" "loops_ok (put_backend k x c) = loops_ok c"
  by (simp_all add: loops_ok_def)

text \<open>An operation that starts no check.\<close>

definition same_loops :: "ctx \<Rightarrow> ctx \<Rightarrow> bool" where
  "same_loops c c' \<longleftrightarrow> cx_loops c' = cx_loops c \<and> cx_next c \<le> cx_next c'"

lemma loops_ok_same: "loops_ok c \<Longrightarrow> same_loops c c' \<Longrightarrow> loops_ok c'"
  unfolding loops_ok_def same_loops_def by (metis order_less_le_trans)

lemma same_loops_quiet: "quiet c c' \<Longrightarrow> same_loops c c'"
  by (simp add: same_loops_def quiet_sel)

lemma same_createService:
  assumes "createService E i so c = (r, c')"
  shows "same_loops c c'"
  using assms
proof (cases rule: createService_cases)
  case (fail e)
  then show ?thesis by (simp add: same_loops_quiet)
next
  case (ok c1 c2 l2 o1 o2)
  then show ?thesis
    by (simp add: same_loops_def quiet_sel [OF ok(8)] logged_to_sel [OF ok(7)] quiet_sel [OF ok(5)])
qed

lemma same_updateService:
  assumes "updateService E i so c = (r, c')"
  shows "same_loops c c'"
  using assms
proof (cases rule: updateService_cases)
  case (fail e)
  then show ?thesis by (simp add: same_loops_quiet)
next
  case (create c1 o1 l)
  then show ?thesis using same_createService [OF create(4)] by (simp add: same_loops_def quiet_sel [OF create(1)])
next
  case (ok old c1 c2 o1 l)
  then show ?thesis
    by (simp add: same_loops_def quiet_sel [OF ok(8)] logged_to_sel [OF ok(7)] quiet_sel [OF ok(6)])
qed

lemma same_updateBackend:
  assumes "updateBackend E i k w c = (r, c')"
  shows "same_loops c c'"
  using assms
proof (cases rule: updateBackend_cases)
  case none
  then show ?thesis by (simp add: same_loops_def)
next
  case (fail b)
  show ?thesis by (rule same_loops_quiet [OF fail(3)])
next
  case (ok b c1)
  then show ?thesis by (simp add: same_loops_def logged_to_sel)
qed

lemma same_removeBackend:
  assumes "removeBackend E i k c = (r, c')"
  shows "same_loops c c'"
  using assms
proof (cases rule: removeBackend_cases)
  case none
  then show ?thesis by (simp add: same_loops_def)
next
  case (panic b)
  show ?thesis by (rule same_loops_quiet [OF panic(4)])
next
  case (fail b c1)
  show ?thesis by (simp add: same_loops_def quiet_sel [OF fail(5)] quiet_sel [OF fail(4)])
next
  case (ok b c1 c2)
  show ?thesis by (simp add: same_loops_def ok(6) logged_to_sel [OF ok(5)] quiet_sel [OF ok(4)])
qed

lemma same_removeService:
  assumes "removeService E i c = (r, c')"
  shows "same_loops c c'"
  using assms
proof (cases rule: removeService_cases)
  case none
  then show ?thesis by (simp add: same_loops_def)
next
  case (fail vs)
  show ?thesis by (simp add: same_loops_def quiet_sel [OF fail(3)])
next
  case (gone vs c1 c2 K)
  from gone(3) have "cx_loops c2 = cx_loops c1" "cx_next c2 = cx_next c1" by (auto simp: cleaned_def)
  then show ?thesis by (simp add: same_loops_def quiet_sel [OF gone(4)] logged_to_sel [OF gone(2)])
qed

lemma pulse_New_metrics: "pulse_New E l ch h p opts = Ok (x, o') \<Longrightarrow> metrics_ok (p_metrics x)"
  by (auto simp: pulse_New_def Let_def split: sum.splits option.splits outcome.splits)

lemma loops_createBackend:
  assumes "createBackend E i k bo c = (r, c')"
  obtains "same_loops c c'"
  | p where "cx_loops c' = (\<lparr>VsID = i, RsID = k\<rparr>, p) # cx_loops c" "cx_next c' = Suc (cx_next c)"
      "driver_made (p_driver p)" "metrics_ok (p_metrics p)" "p_stopCh p = cx_next c"
  using assms
proof (cases rule: createBackend_cases)
  case (fail e)
  then show thesis using that(1) same_loops_quiet by blast
next
  case panic
  then show thesis using that(1) same_loops_quiet by blast
next
  case (ok vs o1 p c1 c2)
  from ok(4) obtain l host port po po' where n: "pulse_New E l (cx_next c) host port po = Ok (p, po')"
    unfolding new_backend_def by blast
  note m = pulse_New_made [OF n] pulse_New_metrics [OF n]
  show thesis
    by (rule that(2) [of p]) (use m in \<open>simp_all add: ok(8) logged_to_sel [OF ok(7)] quiet_sel [OF ok(5)]\<close>)
qed

lemma loops_ok_createBackend:
  assumes "loops_ok c" "createBackend E i k bo c = (r, c')"
  shows "loops_ok c' \<and> set (cx_loops c) \<subseteq> set (cx_loops c')"
  using assms(2)
proof (cases rule: loops_createBackend)
  case 1
  then show ?thesis using loops_ok_same [OF assms(1)] by (simp add: same_loops_def)
next
  case (2 p)
  have "p_stopCh q \<noteq> cx_next c" if "(j, q) \<in> set (cx_loops c)" for j q
    using assms(1) that unfolding loops_ok_def by (metis less_irrefl)
  then show ?thesis using assms(1) 2 unfolding loops_ok_def by (fastforce simp: less_Suc_eq)
qed

lemma same_loops_ok: "(\<And>r c'. f c = (r, c') \<Longrightarrow> same_loops c c') \<Longrightarrow> loops_ok c \<Longrightarrow> loops_ok (snd (f c))"
  using loops_ok_same by (metis prod.collapse)

interpretation lp: ctx_invariant loops_ok E for E
  by unfold_locales (simp_all add: same_loops_ok same_createService same_updateService same_updateBackend
      same_removeService same_removeBackend, metis loops_ok_createBackend prod.collapse)

definition has_loops :: "(ID \<times> Pulse) set \<Rightarrow> ctx \<Rightarrow> bool" where
  "has_loops L c \<longleftrightarrow> loops_ok c \<and> L \<subseteq> set (cx_loops c)"

lemma same_has_loops: "(\<And>r c'. f c = (r, c') \<Longrightarrow> same_loops c c') \<Longrightarrow> has_loops L c \<Longrightarrow> has_loops L (snd (f c))"
  unfolding has_loops_def using loops_ok_same by (metis prod.collapse same_loops_def)

interpretation hl: ctx_invariant "has_loops L" E for L E
proof unfold_locales
  fix c i k bo
  assume "has_loops L c"
  then show "has_loops L (snd (createBackend E i k bo c))"
    unfolding has_loops_def using loops_ok_createBackend by (metis order_trans prod.collapse)
qed (simp_all add: same_has_loops same_createService same_updateService same_updateBackend
      same_removeService same_removeBackend)

lemma api_loops: "loops_ok c \<Longrightarrow> loops_ok (api_run E a c) \<and> set (cx_loops c) \<subseteq> set (cx_loops (api_run E a c))"
  using hl.keep_api [of "set (cx_loops c)" c E a] by (simp add: has_loops_def)

section \<open>Steps\<close>

text \<open>
  The goroutine of \<open>runtime.go\<close> waits for a message, holds one it has received and not looked at, is between
  the two sections of \<open>processPulseUpdate\<close>, or has ended.  \<open>sy_loop\<close> gives the state of the check with a
  stop channel, \<open>None\<close> before its goroutine has run for the first time.  A step is a request of a client (or
  of the ticker of the store), or one of the daemon's own.
\<close>

datatype phase = Waiting | Received pulse_update | Reweighting pulse_update | Ended

record sys =
  sy_ctx :: ctx
  sy_stash :: stash
  sy_phase :: phase
  sy_loop :: "nat \<Rightarrow> loop_state option"

inductive own_step :: "env \<Rightarrow> sys \<Rightarrow> sys \<Rightarrow> bool" for E where
  close: "\<not> cx_stopped (sy_ctx S) \<Longrightarrow> own_step E S (S\<lparr>sy_ctx := (sy_ctx S)\<lparr>cx_stopped := True\<rparr>\<rparr>)"
| begin_check: "(i, p) \<in> set (cx_loops (sy_ctx S)) \<Longrightarrow> sy_loop S (p_stopCh p) = None \<Longrightarrow> first_interval r p = Ok d \<Longrightarrow>
    own_step E S (S\<lparr>sy_loop := (sy_loop S)(p_stopCh p \<mapsto> loop_start p d)\<rparr>)"
| send: "(i, p) \<in> set (cx_loops (sy_ctx S)) \<Longrightarrow> sy_loop S (p_stopCh p) = Some s \<Longrightarrow> sy_phase S = Waiting \<Longrightarrow>
    loop_step p i s (Some u) s' \<Longrightarrow> (lp_done s' \<longrightarrow> p_stopCh p \<in> set (cx_closed (sy_ctx S))) \<Longrightarrow>
    own_step E S (S\<lparr>sy_phase := Received u, sy_loop := (sy_loop S)(p_stopCh p \<mapsto> s')\<rparr>)"
| drop: "(i, p) \<in> set (cx_loops (sy_ctx S)) \<Longrightarrow> sy_loop S (p_stopCh p) = Some s \<Longrightarrow> cx_stopped (sy_ctx S) \<Longrightarrow>
    loop_step p i s None s' \<Longrightarrow> own_step E S (S\<lparr>sy_loop := (sy_loop S)(p_stopCh p \<mapsto> s')\<rparr>)"
| look: "sy_phase S = Received u \<Longrightarrow> process_locked u (sy_stash S) (sy_ctx S) = (go, st', c') \<Longrightarrow>
    own_step E S (S\<lparr>sy_ctx := c', sy_stash := st', sy_phase := (if go then Reweighting u else Waiting)\<rparr>)"
| reweight: "sy_phase S = Reweighting u \<Longrightarrow> process_reweight E u (sy_stash S) (sy_ctx S) = (st', c') \<Longrightarrow>
    own_step E S (S\<lparr>sy_ctx := c', sy_stash := st', sy_phase := Waiting\<rparr>)"
| halt: "sy_phase S = Waiting \<Longrightarrow> cx_stopped (sy_ctx S) \<Longrightarrow> own_step E S (S\<lparr>sy_phase := Ended\<rparr>)"

inductive sys_step :: "env \<Rightarrow> sys \<Rightarrow> sys \<Rightarrow> bool" for E where
  request: "sys_step E S (S\<lparr>sy_ctx := api_run E a (sy_ctx S)\<rparr>)"
| own: "own_step E S S' \<Longrightarrow> sys_step E S S'"

definition sys_start :: "ctx \<Rightarrow> sys" where
  "sys_start c = \<lparr>sy_ctx = c, sy_stash = (\<lambda>_. None), sy_phase = Waiting, sy_loop = (\<lambda>_. None)\<rparr>"

text \<open>
  The states of a daemon from its start on.  The store, if there is one, is attached before the daemon
  serves; its synchronizations are requests like any other.
\<close>

inductive reachable :: "env \<Rightarrow> sys \<Rightarrow> bool" for E where
  init: "NewContext E options l = (Ok (), c) \<Longrightarrow> reachable E (sys_start (c\<lparr>cx_store := store\<rparr>))"
| step: "reachable E S \<Longrightarrow> sys_step E S S' \<Longrightarrow> reachable E S'"

section \<open>The invariant of the system\<close>

text \<open>A check with the identity that has not ended.\<close>

definition live :: "sys \<Rightarrow> ID \<Rightarrow> bool" where
  "live S i \<longleftrightarrow> (\<exists>p s. (i, p) \<in> set (cx_loops (sy_ctx S)) \<and> sy_loop S (p_stopCh p) = Some s \<and> \<not> lp_done s)"

definition removed_msg :: "pulse_update \<Rightarrow> bool" where
  "removed_msg u \<longleftrightarrow> m_Status (up_Metrics u) = StatusRemoved"

definition msg_ok :: "sys \<Rightarrow> pulse_update \<Rightarrow> bool" where
  "msg_ok S u \<longleftrightarrow> (\<not> removed_msg u \<longrightarrow> metrics_ok (up_Metrics u) \<and> live S (up_Source u))"

definition phase_ok :: "sys \<Rightarrow> bool" where
  "phase_ok S \<longleftrightarrow> (case sy_phase S of Received u \<Rightarrow> msg_ok S u | Reweighting u \<Rightarrow> msg_ok S u \<and> \<not> removed_msg u | _ \<Rightarrow> True)"

definition checks_ok :: "sys \<Rightarrow> bool" where
  "checks_ok S \<longleftrightarrow> (\<forall>ch s. sy_loop S ch = Some s \<longrightarrow> \<not> lp_done s \<longrightarrow> metrics_ok (lp_metrics s))"

definition stash_ok :: "sys \<Rightarrow> bool" where
  "stash_ok S \<longleftrightarrow> (\<forall>i. sy_stash S i \<noteq> None \<longrightarrow> live S i \<or>
     (\<exists>u. sy_phase S = Received u \<and> up_Source u = i \<and> removed_msg u))"

definition sys_inv :: "env \<Rightarrow> sys \<Rightarrow> bool" where
  "sys_inv E S \<longleftrightarrow> ctx_wf E (sy_ctx S) \<and> loops_ok (sy_ctx S) \<and> checks_ok S \<and> phase_ok S \<and> stash_ok S"

text \<open>A step that leaves the checks alone and starts none of them over.\<close>

definition same_checks :: "sys \<Rightarrow> sys \<Rightarrow> bool" where
  "same_checks S S' \<longleftrightarrow> sy_loop S' = sy_loop S \<and> set (cx_loops (sy_ctx S)) \<subseteq> set (cx_loops (sy_ctx S'))"

lemma same_checks_live: "same_checks S S' \<Longrightarrow> live S i \<Longrightarrow> live S' i"
  unfolding same_checks_def live_def by (metis subsetD)

lemma same_checks_ok: "same_checks S S' \<Longrightarrow> checks_ok S' = checks_ok S"
  by (simp add: same_checks_def checks_ok_def)

lemma same_checks_msg: "same_checks S S' \<Longrightarrow> msg_ok S u \<Longrightarrow> msg_ok S' u"
  using same_checks_live unfolding msg_ok_def by blast

lemma inv_same_checks:
  assumes "sys_inv E S" "same_checks S S'" "ctx_wf E (sy_ctx S')" "loops_ok (sy_ctx S')"
    and "sy_phase S' = sy_phase S" "sy_stash S' = sy_stash S"
  shows "sys_inv E S'"
proof -
  have "phase_ok S'"
    using assms(1,5) same_checks_msg [OF assms(2)] unfolding sys_inv_def phase_ok_def by (cases "sy_phase S") auto
  moreover have "stash_ok S'"
    using assms(1) same_checks_live [OF assms(2)] unfolding sys_inv_def stash_ok_def assms(5,6) by blast
  ultimately show ?thesis using assms same_checks_ok [OF assms(2)] by (simp add: sys_inv_def)
qed

text \<open>A step of one check keeps the others alive, and itself unless it ends.\<close>

lemma live_update:
  assumes "loops_ok (sy_ctx S)" "(i, p) \<in> set (cx_loops (sy_ctx S))" "live S j" "j = i \<longrightarrow> \<not> lp_done s'"
  shows "live (S\<lparr>sy_loop := (sy_loop S)(p_stopCh p \<mapsto> s')\<rparr>) j"
proof -
  obtain q s where q: "(j, q) \<in> set (cx_loops (sy_ctx S))" "sy_loop S (p_stopCh q) = Some s" "\<not> lp_done s"
    using assms(3) by (auto simp: live_def)
  show ?thesis
  proof (cases "p_stopCh q = p_stopCh p")
    case True
    then have "j = i" using assms(1,2) q(1) unfolding loops_ok_def by blast
    then show ?thesis using q(1) assms(4) True by (auto simp: live_def)
  next
    case False
    then show ?thesis using q by (auto simp: live_def intro!: exI [of _ q])
  qed
qed

lemma live_phase [simp]:
  "live (S\<lparr>sy_phase := ph\<rparr>) i = live S i" "live (S\<lparr>sy_stash := st\<rparr>) i = live S i"
  "live (S\<lparr>sy_phase := ph, sy_loop := f\<rparr>) i = live (S\<lparr>sy_loop := f\<rparr>) i"
  by (simp_all add: live_def)

lemma inv_check_step:
  assumes inv: "sys_inv E S" and ip: "(i, p) \<in> set (cx_loops (sy_ctx S))"
    and S': "S' = S\<lparr>sy_phase := ph, sy_loop := (sy_loop S)(p_stopCh p \<mapsto> s')\<rparr>"
    and ok: "\<not> lp_done s' \<longrightarrow> metrics_ok (lp_metrics s')"
    and ph: "ph = sy_phase S \<and> \<not> lp_done s' \<or>
      sy_phase S = Waiting \<and> (\<exists>u. ph = Received u \<and> up_Source u = i \<and> (lp_done s' \<longleftrightarrow> removed_msg u) \<and>
        (\<not> removed_msg u \<longrightarrow> metrics_ok (up_Metrics u)))"
  shows "sys_inv E S'"
proof -
  have lo: "loops_ok (sy_ctx S)" using inv by (simp add: sys_inv_def)
  have keep: "live S' j" if "live S j" "j = i \<longrightarrow> \<not> lp_done s'" for j
    using live_update [OF lo ip that] by (simp add: S')
  have self: "live S' i" if "\<not> lp_done s'"
    using ip that by (auto simp: live_def S')
  have "checks_ok S'" using inv ok by (auto simp: sys_inv_def checks_ok_def S')
  moreover have "phase_ok S'"
  proof -
    have "msg_ok S u \<Longrightarrow> msg_ok S' u" if "\<not> lp_done s'" for u using keep that by (simp add: msg_ok_def)
    then show ?thesis
      using ph inv self by (auto simp: sys_inv_def phase_ok_def S' msg_ok_def split: phase.splits)
  qed
  moreover have "stash_ok S'"
    unfolding stash_ok_def
  proof (intro allI impI)
    fix j
    assume j: "sy_stash S' j \<noteq> None"
    then have "live S j \<or> (\<exists>u. sy_phase S = Received u \<and> up_Source u = j \<and> removed_msg u)"
      using inv by (simp add: sys_inv_def stash_ok_def S')
    then show "live S' j \<or> (\<exists>u. sy_phase S' = Received u \<and> up_Source u = j \<and> removed_msg u)"
      using ph keep by (cases "j = i \<and> lp_done s'") (auto simp: S')
  qed
  ultimately show ?thesis using inv by (simp add: sys_inv_def S')
qed

lemma loop_step_facts:
  assumes "loop_step p i s m s'" "driver_made (p_driver p)" "\<not> lp_done s \<longrightarrow> metrics_ok (lp_metrics s)"
  shows "\<not> lp_done s' \<longrightarrow> metrics_ok (lp_metrics s')" and "m = None \<Longrightarrow> \<not> lp_done s'"
    and "m = Some u \<Longrightarrow> up_Source u = i \<and> (lp_done s' \<longleftrightarrow> removed_msg u) \<and> (\<not> removed_msg u \<longrightarrow> metrics_ok (up_Metrics u))"
  using assms by (auto simp: removed_msg_def chk.check_keeps_ok chk.check_not_removed)

lemma process_locked_cases:
  assumes "process_locked u st c = (go, st', c')"
  obtains (skip) "\<not> go" "st' = st(up_Source u := None)" "c' = c"
  | (go) b where "go" "st' = st" "\<not> removed_msg u" "gget (cx_backends c) (RsID (up_Source u)) = Some b"
      "c' = put_backend (RsID (up_Source u)) (b\<lparr>b_metrics := up_Metrics u\<rparr>) c"
  using assms by (auto simp: process_locked_def removed_msg_def Let_def split: option.splits if_splits)

lemma process_reweight_facts:
  assumes "process_reweight E u st c = (st', c')"
  shows "st' i \<noteq> None \<Longrightarrow> st i \<noteq> None \<or> i = up_Source u" and "same_loops c c'" and "ctx_wf E c \<Longrightarrow> ctx_wf E c'"
proof -
  let ?i = "up_Source u"
  have up: "same_loops c (snd (updateBackend E (VsID ?i) (RsID ?i) w c))"
    "ctx_wf E c \<Longrightarrow> ctx_wf E (snd (updateBackend E (VsID ?i) (RsID ?i) w c))" for w
    using same_updateBackend by (metis prod.collapse) (rule wf_updateBackend)
  have refl: "same_loops c c" by (simp add: same_loops_def)
  have "(c' = c \<or> (\<exists>w. c' = snd (updateBackend E (VsID ?i) (RsID ?i) w c))) \<and>
      (st' = st \<or> (\<exists>x. st' = st(?i := x)))"
    using assms unfolding process_reweight_def Let_def
    by (auto split: StatusType.splits option.splits prod.splits outcome.splits if_splits) (metis snd_conv)+
  then show "same_loops c c'" "ctx_wf E c \<Longrightarrow> ctx_wf E c'" "st' i \<noteq> None \<Longrightarrow> st i \<noteq> None \<or> i = up_Source u"
    using up refl by (auto split: if_splits)
qed

lemma sys_inv_own:
  assumes "own_step E S S'" "sys_inv E S"
  shows "sys_inv E S'"
proof -
  note inv = assms(2)
  have wf: "ctx_wf E (sy_ctx S)" and lo: "loops_ok (sy_ctx S)" and ck: "checks_ok S" and ph: "phase_ok S"
    and sk: "stash_ok S" using inv by (simp_all add: sys_inv_def)
  show ?thesis using assms(1)
  proof (cases rule: own_step.cases)
    case close
    then show ?thesis
      using lo wf by (intro inv_same_checks [OF inv]) (auto simp: same_checks_def)
  next
    case (begin_check i p r d)
    have "metrics_ok (lp_metrics (loop_start p d))" "\<not> lp_done (loop_start p d)"
      using loops_okD [OF lo begin_check(2)] by (simp_all add: loop_start_def)
    then show ?thesis
      by (intro inv_check_step [OF inv begin_check(2), where ph = "sy_phase S" and s' = "loop_start p d"])
        (simp_all add: begin_check(1))
  next
    case (send i p s u s')
    have "driver_made (p_driver p)" "\<not> lp_done s \<longrightarrow> metrics_ok (lp_metrics s)"
      using loops_okD [OF lo send(2)] ck send(3) by (auto simp: checks_ok_def)
    note f = loop_step_facts [OF send(5) this]
    show ?thesis
      by (rule inv_check_step [OF inv send(2,1) f(1)]) (use f(3) [OF refl] send(4) in blast)
  next
    case (drop i p s s')
    have "driver_made (p_driver p)" "\<not> lp_done s \<longrightarrow> metrics_ok (lp_metrics s)"
      using loops_okD [OF lo drop(2)] ck drop(3) by (auto simp: checks_ok_def)
    note f = loop_step_facts [OF drop(5) this]
    have "S' = S\<lparr>sy_phase := sy_phase S, sy_loop := (sy_loop S)(p_stopCh p \<mapsto> s')\<rparr>" using drop(1) by simp
    then show ?thesis
      by (rule inv_check_step [OF inv drop(2) _ f(1)]) (use f(2) [OF refl] in blast)
  next
    case (look u go st' c')
    have m: "msg_ok S u" using ph look(2) by (simp add: phase_ok_def)
    from look(3) show ?thesis
    proof (cases rule: process_locked_cases)
      case skip
      have S': "S' = S\<lparr>sy_stash := (sy_stash S)(up_Source u := None), sy_phase := Waiting\<rparr>"
        using look(1) skip by simp
      have "stash_ok S'" using sk look(2) unfolding stash_ok_def S' by (simp add: live_def) metis
      then show ?thesis using wf lo ck by (simp add: sys_inv_def checks_ok_def phase_ok_def S')
    next
      case (go b)
      have "ctx_wf E c'" using wf_put_metrics [OF wf go(4), of "up_Metrics u"] m go(3,5) by (simp add: msg_ok_def)
      moreover have "loops_ok c'" using lo go(5) by simp
      moreover have sc: "same_checks S S'" using go(1,5) look(1) by (simp add: same_checks_def)
      moreover have S': "sy_stash S' = sy_stash S" "sy_phase S' = Reweighting u" "sy_ctx S' = c'"
        using look(1) go(1,2) by simp_all
      moreover have "phase_ok S'" using same_checks_msg [OF sc m] go(3) by (simp add: phase_ok_def S')
      moreover have "stash_ok S'"
        using sk look(2) go(3) same_checks_live [OF sc] by (auto simp: stash_ok_def S')
      ultimately show ?thesis using ck same_checks_ok [OF sc] by (simp add: sys_inv_def)
    qed
  next
    case (reweight u st' c')
    note f = process_reweight_facts [OF reweight(3)]
    have sc: "same_checks S S'" using f(2) reweight(1) by (simp add: same_checks_def same_loops_def)
    have "live S (up_Source u)" using ph reweight(2) by (simp add: phase_ok_def msg_ok_def)
    then have "stash_ok S'"
      using sk f(1) same_checks_live [OF sc] reweight(1,2) by (auto simp: stash_ok_def) (metis option.distinct(1))+
    then show ?thesis
      using f(3) [OF wf] loops_ok_same [OF lo f(2)] ck same_checks_ok [OF sc] reweight(1)
      by (simp add: sys_inv_def phase_ok_def)
  next
    case halt
    have "stash_ok S'" using sk halt(2) unfolding stash_ok_def halt(1) by (simp add: live_def)
    then show ?thesis using wf lo ck by (simp add: sys_inv_def checks_ok_def phase_ok_def halt(1))
  qed
qed

lemma sys_inv_step:
  assumes "sys_step E S S'" "sys_inv E S"
  shows "sys_inv E S'"
  using assms(1)
proof (cases rule: sys_step.cases)
  case (request a)
  have "loops_ok (sy_ctx S)" "ctx_wf E (sy_ctx S)" using assms(2) by (simp_all add: sys_inv_def)
  then show ?thesis
    using request api_loops wf.keep_api by (intro inv_same_checks [OF assms(2)]) (auto simp: same_checks_def)
next
  case own
  then show ?thesis using sys_inv_own assms(2) by blast
qed

lemma loops_NewContext:
  assumes "NewContext E options l = (Ok (), c)"
  shows "cx_loops c = []"
proof -
  have n: "cx_loops (new_announce E options ((new_ctx l)\<lparr>cx_disco := d\<rparr>)) = []" for d
    by (auto simp: new_announce_def on_log_def new_ctx_def split: list.splits prod.splits)
  have lnk: "cx_loops c' = cx_loops c0" if "new_link E options c0 = (Ok (), c')" for c0 c'
    using that by (auto simp: new_link_def close_with_def split: if_splits sum.splits prod.splits outcome.splits)
  show ?thesis
    using assms n lnk unfolding NewContext_def on_log_eq
    by (auto simp: on_log_eq close_with_def split: outcome.splits prod.splits option.splits if_splits)
qed

lemma reachable_inv: "reachable E S \<Longrightarrow> sys_inv E S"
proof (induction rule: reachable.induct)
  case (init options l c store)
  have "ctx_wf E c" using wf_NewContext [of E options l] init by simp
  then show ?case
    using loops_NewContext [OF init]
    by (simp add: sys_inv_def sys_start_def loops_ok_def checks_ok_def phase_ok_def stash_ok_def)
next
  case (step S S')
  then show ?case using sys_inv_step by blast
qed

section \<open>Properties\<close>

text \<open>
  Claim C10. In every state the daemon can come to, in any interleaving of requests, checks, synchronizations and
  the two sections of the message loop: the context is well-formed; a message in processing has a health
  between 0 and 1 and comes from a check that has not ended, unless it says that the check was removed; and the
  stash holds weights only for checks that have not ended, or whose last message is just being processed, so
  it cannot grow without bound.
\<close>

theorem system_invariant:
  assumes "reachable E S"
  shows "ctx_wf E (sy_ctx S) \<and>
    (\<forall>u. sy_phase S = Received u \<or> sy_phase S = Reweighting u \<longrightarrow> removed_msg u \<or>
       0 \<le> m_Health (up_Metrics u) \<and> m_Health (up_Metrics u) \<le> 1 \<and> live S (up_Source u)) \<and>
    (\<forall>i. sy_stash S i \<noteq> None \<longrightarrow> live S i \<or>
       (\<exists>u. sy_phase S = Received u \<and> up_Source u = i \<and> removed_msg u))"
proof -
  have inv: "sys_inv E S" by (rule reachable_inv [OF assms])
  moreover have "msg_ok S u" if "sy_phase S = Received u \<or> sy_phase S = Reweighting u" for u
    using inv that by (auto simp: sys_inv_def phase_ok_def)
  ultimately show ?thesis
    by (auto simp: sys_inv_def stash_ok_def msg_ok_def metrics_ok_def)
qed

definition plain_options :: ContextOptions where
  "plain_options = \<lparr>co_Disco = [], co_Endpoints = [[10, 0, 0, 1]], co_Flush = False, co_ListenPort = 0, co_VipInterface = []\<rparr>"

theorem system_invariant_witness:
  "\<exists>S c. NewContext ok_env plain_options [] = (Ok (), c) \<and>
     reachable ok_env S \<and> sy_ctx S = snd (createService ok_env ''web'' web_opts c) \<and> ctx_wf ok_env (sy_ctx S)"
proof -
  let ?c = "snd (NewContext ok_env plain_options [])"
  have "fst (NewContext ok_env plain_options []) = Ok ()" by code_simp
  then have c: "NewContext ok_env plain_options [] = (Ok (), ?c)" by (metis prod.collapse)
  let ?c1 = "?c\<lparr>cx_store := cx_store ?c\<rparr>"
  have c1: "?c1 = ?c" by simp
  let ?S = "(sys_start ?c1)\<lparr>sy_ctx := api_run ok_env (ApiCreateService ''web'' web_opts) (sy_ctx (sys_start ?c1))\<rparr>"
  have r: "reachable ok_env ?S"
    by (rule reachable.step [OF reachable.init [OF c] sys_step.request])
  have "sy_ctx ?S = snd (createService ok_env ''web'' web_opts ?c)"
    by (simp add: sys_start_def critical_defs)
  then show ?thesis using c r system_invariant [OF r] by blast
qed

text \<open>
  Claim C39. Once the message loop has ended (the context was closed), no check ends any more, whatever is
  removed afterwards: a stopped check wants to send its last message and nobody receives it.
\<close>

theorem ended_consumer_leaks_checks:
  assumes "(sys_step E)\<^sup>*\<^sup>* S S'" and "sy_phase S = Ended" and "sy_loop S ch = Some s" and "\<not> lp_done s"
  shows "sy_phase S' = Ended \<and> (\<exists>s'. sy_loop S' ch = Some s' \<and> \<not> lp_done s')"
  using assms(1)
proof (induction rule: rtranclp_induct)
  case base
  then show ?case using assms(2-4) by simp
next
  case (step T T')
  from step.hyps(2) step.IH show ?case by (cases rule: sys_step.cases) (auto elim!: own_step.cases)
qed

definition ended_sys :: sys where
  "ended_sys = \<lparr>sy_ctx = node_ctx\<lparr>cx_stopped := True\<rparr>, sy_stash = (\<lambda>_. None), sy_phase = Ended,
     sy_loop = (\<lambda>ch. case cx_loops node_ctx of [] \<Rightarrow> None
       | (i, p) # _ \<Rightarrow> if ch = p_stopCh p then Some (loop_start p 1) else None)\<rparr>"

lemma node_removed: "(case cx_loops node_ctx of [] \<Rightarrow> False | (i, p) # _ \<Rightarrow>
    p_stopCh p \<in> set (cx_closed (api_run ok_env (ApiRemoveService ''web'') (node_ctx\<lparr>cx_stopped := True\<rparr>))))"
  by code_simp

theorem ended_consumer_leaks_checks_witness:
  "\<exists>i p ls S'. cx_loops node_ctx = (i, p) # ls \<and> sys_step ok_env ended_sys S' \<and>
     p_stopCh p \<in> set (cx_closed (sy_ctx S')) \<and> (\<exists>s'. sy_loop S' (p_stopCh p) = Some s' \<and> \<not> lp_done s')"
proof -
  let ?S' = "ended_sys\<lparr>sy_ctx := api_run ok_env (ApiRemoveService ''web'') (sy_ctx ended_sys)\<rparr>"
  have st: "sys_step ok_env ended_sys ?S'" by (rule sys_step.request)
  from node_removed obtain i p ls where l: "cx_loops node_ctx = (i, p) # ls"
    and cl: "p_stopCh p \<in> set (cx_closed (sy_ctx ?S'))"
    by (auto simp: ended_sys_def split: list.splits)
  have "sy_phase ended_sys = Ended" "sy_loop ended_sys (p_stopCh p) = Some (loop_start p 1)" "\<not> lp_done (loop_start p 1)"
    by (simp_all add: ended_sys_def l loop_start_def)
  from ended_consumer_leaks_checks [OF r_into_rtranclp [of "sys_step ok_env", OF st] this] l st cl
  show ?thesis by blast
qed

end
