(* ===== verification/Gorb_Kv.thy ===== *)
theory Gorb_Kv
  imports Gorb_Sync
begin

text \<open>
  The external store that the context writes to (\<open>src/core/store.go\<close>), as a table: \<open>kv_table\<close> is the
  content of the store that the accepted requests of a log make.  The methods for one kind of object
  share a contract, the locale \<open>kv_dir\<close>, interpreted for services and for backends; then, for each
  creating and updating operation of the context, what it does to maps and store together.
\<close>

section \<open>The content of the store\<close>

text \<open>The keys of a directory tree: the directory itself and everything after a slash.\<close>

definition below :: "string \<Rightarrow> string \<Rightarrow> bool" where
  "below d k \<longleftrightarrow> k = d \<or> take (Suc (length d)) k = d @ ''/''"

text \<open>A key has no value, a document, or is a directory.\<close>

fun kv_table :: "log \<Rightarrow> string \<Rightarrow> json option option" where
  "kv_table [] = Map.empty"
| "kv_table (EvKv (KvPut k v) True # l) = (kv_table l)(k \<mapsto> v)"
| "kv_table (EvKv (KvDeleteTree d) True # l) = (\<lambda>k. if below d k then None else kv_table l k)"
| "kv_table (_ # l) = kv_table l"

text \<open>
  What the store does by its documentation: \<open>Exists\<close> answers by the content, unless it fails, and
  \<open>DeleteTree\<close> does not fail.  (A failing \<open>Put\<close> is allowed.)
\<close>

definition kv_exact :: "env \<Rightarrow> bool" where
  "kv_exact E \<longleftrightarrow> (\<forall>l k b. kvExists E l k = Inr b \<longrightarrow> b = (kv_table l k \<noteq> None)) \<and>
     (\<forall>l d. kvDo E l (KvDeleteTree d) = None)"

text \<open>A directory of the store that holds the documents of a map of objects, and nothing else.\<close>

definition mirrors :: "string \<Rightarrow> ('o \<Rightarrow> json) \<Rightarrow> (string \<Rightarrow> 'o option) \<Rightarrow> log \<Rightarrow> bool" where
  "mirrors d doc m l \<longleftrightarrow> (\<forall>i. kv_table l (d @ ''/'' @ i) = map_option (\<lambda>x. Some (doc x)) (m i)) \<and>
     (\<forall>i. m i \<noteq> None \<longrightarrow> CHR ''/'' \<notin> set i)"

lemma mirrorsD:
  assumes "mirrors d doc m l"
  shows "kv_table l (d @ ''/'' @ i) = map_option (\<lambda>x. Some (doc x)) (m i)"
    and "m i = Some x \<Longrightarrow> CHR ''/'' \<notin> set i"
  using assms by (auto simp: mirrors_def)

lemma mirrors_cong: "(\<And>i. kv_table l' (d @ ''/'' @ i) = kv_table l (d @ ''/'' @ i)) \<Longrightarrow> mirrors d doc m l \<Longrightarrow> mirrors d doc m l'"
  by (simp add: mirrors_def)

lemma below_child: "CHR ''/'' \<notin> set j \<Longrightarrow> below (d @ ''/'' @ i) (d @ ''/'' @ j) \<longleftrightarrow> i = j"
proof -
  assume j: "CHR ''/'' \<notin> set j"
  have "take (Suc (length i)) j \<noteq> i @ ''/''"
  proof
    assume "take (Suc (length i)) j = i @ ''/''"
    then have "CHR ''/'' \<in> set (take (Suc (length i)) j)" by simp
    with j show False by (meson in_set_takeD)
  qed
  then show ?thesis by (auto simp: below_def)
qed

text \<open>Two directories neither of which lies below the other.\<close>

definition apart :: "string \<Rightarrow> string \<Rightarrow> bool" where
  "apart d e \<longleftrightarrow> \<not> below d e \<and> \<not> below e d"

lemma append_slash_cases:
  assumes "a @ ''/'' @ x = b @ ''/'' @ y"
  shows "below a b \<or> below b a"
proof -
  from assms obtain u where "a = b @ u \<and> u @ ''/'' @ x = ''/'' @ y \<or> a @ u = b \<and> ''/'' @ x = u @ ''/'' @ y"
    unfolding append_eq_append_conv2 by blast
  then show ?thesis by (cases u) (auto simp: below_def)
qed

lemma apart_keys:
  assumes "apart d e"
  shows "d @ ''/'' @ i \<noteq> e @ ''/'' @ j" and "\<not> below (d @ ''/'' @ i) (e @ ''/'' @ j)"
proof -
  show 1: "d @ ''/'' @ i \<noteq> e @ ''/'' @ j" for i j using assms append_slash_cases by (metis apart_def)
  show "\<not> below (d @ ''/'' @ i) (e @ ''/'' @ j)"
  proof
    assume "below (d @ ''/'' @ i) (e @ ''/'' @ j)"
    with not_sym [OF 1 [of i j]] have "take (Suc (length (d @ ''/'' @ i))) (e @ ''/'' @ j) = d @ ''/'' @ i @ ''/''"
      unfolding below_def by (metis append_assoc)
    then have "e @ ''/'' @ j = (d @ ''/'' @ i @ ''/'') @ drop (Suc (length (d @ ''/'' @ i))) (e @ ''/'' @ j)"
      by (metis append_take_drop_id)
    then show False using 1 [of "i @ ''/'' @ drop (Suc (length (d @ ''/'' @ i))) (e @ ''/'' @ j)" j] by simp
  qed
qed

section \<open>The interface to one directory\<close>

text \<open>
  The contract of the methods of \<open>store.go\<close> for one kind of object, as the context uses them.
  \<open>sound\<close> is what the contract needs of the outside.
\<close>

locale kv_dir =
  fixes dir :: string and doc :: "'o \<Rightarrow> json" and sound :: bool
    and create :: "string \<Rightarrow> 'o \<Rightarrow> log \<Rightarrow> error option \<times> log"
    and overwrite :: "string \<Rightarrow> 'o \<Rightarrow> log \<Rightarrow> error option \<times> log"
    and remove :: "string \<Rightarrow> log \<Rightarrow> error option \<times> log"
  assumes create_ok: "sound \<Longrightarrow> create i x l = (None, l') \<Longrightarrow> kv_table l' =
      (if kv_table l (dir @ ''/'' @ i) = None then (kv_table l)(dir @ ''/'' @ i \<mapsto> Some (doc x)) else kv_table l)"
    and create_fail: "create i x l = (Some e, l') \<Longrightarrow> kv_table l' = kv_table l"
    and overwrite_ok: "overwrite i x l = (None, l') \<Longrightarrow> kv_table l' = (kv_table l)(dir @ ''/'' @ i \<mapsto> Some (doc x))"
    and overwrite_fail: "overwrite i x l = (Some e, l') \<Longrightarrow> kv_table l' = kv_table l"
    and remove_ok: "sound \<Longrightarrow> kv_table (snd (remove i l)) = (\<lambda>k. if below (dir @ ''/'' @ i) k then None else kv_table l k)"
begin

lemma create_mirrors:
  assumes "sound" "mirrors dir doc m l" "m i = None" "CHR ''/'' \<notin> set i" "create i x l = (None, l')"
  shows "mirrors dir doc (m(i \<mapsto> x)) l'"
  using create_ok [OF assms(1,5)] mirrorsD [OF assms(2)] assms(3,4) by (auto simp: mirrors_def)

lemma create_present:
  assumes "sound" "mirrors dir doc m l" "m i \<noteq> None" "create i x l = (None, l')"
  shows "kv_table l' = kv_table l"
  using create_ok [OF assms(1,4)] mirrorsD [OF assms(2)] assms(3) by auto

lemma overwrite_mirrors:
  assumes "mirrors dir doc m l" "m i \<noteq> None" "overwrite i x l = (None, l')"
  shows "mirrors dir doc (m(i \<mapsto> x)) l'"
  using overwrite_ok [OF assms(3)] mirrorsD [OF assms(1)] assms(2) by (auto simp: mirrors_def)

lemma remove_mirrors:
  assumes "sound" "mirrors dir doc m l"
  shows "mirrors dir doc (m(i := None)) (snd (remove i l))"
proof -
  note t = remove_ok [OF assms(1), of i l] and d = mirrorsD [OF assms(2)]
  have "kv_table (snd (remove i l)) (dir @ ''/'' @ j) = map_option (\<lambda>x. Some (doc x)) ((m(i := None)) j)" for j
  proof (cases "m j")
    case None
    then show ?thesis using d(1) [of j] by (simp add: t)
  next
    case (Some x)
    then show ?thesis using d(1) [of j] below_child [OF d(2) [OF Some], of dir i] by (auto simp: t)
  qed
  then show ?thesis using d(2) by (auto simp: mirrors_def)
qed

text \<open>What lies in another directory stays.\<close>

lemma other_dir:
  assumes "sound" "apart dir e"
  shows "create i x l = (r, l') \<Longrightarrow> kv_table l' (e @ ''/'' @ j) = kv_table l (e @ ''/'' @ j)"
    and "overwrite i x l = (r, l') \<Longrightarrow> kv_table l' (e @ ''/'' @ j) = kv_table l (e @ ''/'' @ j)"
    and "kv_table (snd (remove i l)) (e @ ''/'' @ j) = kv_table l (e @ ''/'' @ j)"
  using create_ok [OF assms(1), of i x l l'] create_fail [of i x l _ l'] overwrite_ok [of i x l l']
    overwrite_fail [of i x l _ l'] remove_ok [OF assms(1), of i l] apart_keys [OF assms(2), of i j]
  by (cases r; auto)+

end

lemma kv_existsD: "kv_exact E \<Longrightarrow> kvExists E l k = Inr b \<Longrightarrow> b \<longleftrightarrow> kv_table l k \<noteq> None"
  by (auto simp: kv_exact_def)

lemma kv_table_put:
  "kv_exact E \<Longrightarrow> store_put E k v False l = (None, l') \<Longrightarrow>
     kv_table l' = (if kv_table l k = None then (kv_table l)(k \<mapsto> v) else kv_table l)"
  "store_put E k v True l = (None, l') \<Longrightarrow> kv_table l' = (kv_table l)(k \<mapsto> v)"
  "store_put E k v ow l = (Some e, l') \<Longrightarrow> kv_table l' = kv_table l"
  by (auto simp: store_put_def kv_exists_call_def kv_call_def Let_def dest: kv_existsD split: sum.splits if_splits)

lemma kv_table_delete: "kv_exact E \<Longrightarrow> kv_table (snd (kv_call E (KvDeleteTree d) l)) = (\<lambda>k. if below d k then None else kv_table l k)"
  by (simp add: kv_exact_def kv_call_def Let_def)

interpretation sdir: kv_dir "storeServicePath s" service_json "kv_exact E" "store_CreateService E s"
  "store_UpdateService E s" "store_RemoveService E s" for s E
  by unfold_locales (auto simp: store_CreateService_def store_UpdateService_def store_RemoveService_def
      kv_table_put kv_table_delete)

text \<open>The methods for backends, with the options they leave.\<close>

definition put_options :: "string \<Rightarrow> BackendOptions \<Rightarrow> BackendOptions" where
  "put_options vsID opts = opts\<lparr>bo_VsID := vsID\<rparr>"

lemma store_CreateBackend_put:
  "store_CreateBackend E s v k opts l = ((e, opts'), l') \<longleftrightarrow>
     opts' = put_options v opts \<and> store_put E (storeBackendPath s @ ''/'' @ k) (Some (backend_json opts')) False l = (e, l')"
  by (auto simp: store_CreateBackend_def put_options_def Let_def split: prod.splits)

interpretation bdir: kv_dir "storeBackendPath s" backend_json "kv_exact E"
  "\<lambda>k x l. store_put E (storeBackendPath s @ ''/'' @ k) (Some (backend_json x)) False l"
  "\<lambda>k x l. store_put E (storeBackendPath s @ ''/'' @ k) (Some (backend_json x)) True l"
  "store_RemoveBackend E s" for s E
  by unfold_locales (auto simp: store_RemoveBackend_def kv_table_put kv_table_delete)

section \<open>Steps that leave maps and store alone\<close>

definition same_store :: "ctx \<Rightarrow> ctx \<Rightarrow> bool" where
  "same_store c c' \<longleftrightarrow> cx_services c' = cx_services c \<and> cx_backends c' = cx_backends c \<and> cx_store c' = cx_store c \<and>
     cx_endpoint c' = cx_endpoint c \<and> kv_table (cx_log c') = kv_table (cx_log c)"

lemma same_store_refl [simp]: "same_store c c"
  by (simp add: same_store_def)

lemma same_store_trans [trans]: "same_store c c' \<Longrightarrow> same_store c' c'' \<Longrightarrow> same_store c c''"
  by (simp add: same_store_def)

lemma same_store_sel:
  assumes "same_store c c'"
  shows "cx_services c' = cx_services c" "cx_backends c' = cx_backends c" "cx_store c' = cx_store c"
    "cx_endpoint c' = cx_endpoint c" "kv_table (cx_log c') = kv_table (cx_log c)"
  using assms by (simp_all add: same_store_def)

text \<open>Calls of anything but the store.\<close>

lemma kv_table_append: "\<forall>e \<in> set es. \<forall>r b. e \<noteq> EvKv r b \<Longrightarrow> kv_table (es @ l) = kv_table l"
proof (induction es)
  case (Cons e es)
  then show ?case by (cases e) auto
qed simp

lemma kv_table_calls [simp]:
  "kv_table (snd (resolve_call E h l)) = kv_table l" "kv_table (snd (ipvs_call E r l)) = kv_table l"
  "kv_table (snd (addr_call E a l)) = kv_table l"
  by (simp_all add: resolve_call_def ipvs_call_def addr_call_def Let_def)

lemma kv_table_fill [simp]:
  "kv_table (snd (service_Fill E d so l)) = kv_table l" "kv_table (snd (backend_Fill E bo l)) = kv_table l"
  using svc.fill_log [of E d so l] bck.fill_log [of E bo l] by (auto intro!: kv_table_append)

lemma kv_table_http: "list_all is_http es \<Longrightarrow> kv_table (es @ l) = kv_table l"
  by (induction es) (auto simp: is_http_def split: event.splits)

lemma kv_table_disco [simp]:
  "kv_table (snd (disco_Expose E d n h p l)) = kv_table l" "kv_table (snd (disco_Remove E d n l)) = kv_table l"
  using dd.expose_http [of E d n h p l] dd.remove_http [of E d n l] by (auto simp: kv_table_http)

lemma kv_table_shim [simp]:
  "kv_table (snd (ipvs_AddService E v p pr sc fs l)) = kv_table l"
  "kv_table (snd (ipvs_UpdateService E v p pr sc fs l)) = kv_table l"
  "kv_table (snd (ipvs_DelService E v p pr l)) = kv_table l"
  "kv_table (snd (ipvs_AddDestPort E v p r rp pr w f l)) = kv_table l"
  "kv_table (snd (ipvs_UpdateDestPort E v p r rp pr w f l)) = kv_table l"
  "kv_table (snd (ipvs_DelDestPort E v p r rp pr l)) = kv_table l"
  by (simp_all add: shim_defs split: sum.split option.split)

lemma on_log_same: "on_log f c = (r, c') \<Longrightarrow> (\<And>l. kv_table (snd (f l)) = kv_table l) \<Longrightarrow> same_store c c'"
  by (auto simp: on_log_eq same_store_def) (metis snd_conv)

lemma on_log_same_snd: "(\<And>l. kv_table (snd (f l)) = kv_table l) \<Longrightarrow> same_store c (snd (on_log f c))"
  using on_log_same [of f c "fst (on_log f c)" "snd (on_log f c)"] by simp

lemma add_vip_same:
  "add_vip E opts c = (opts', c') \<Longrightarrow> same_store c c' \<and> opts' \<in> {opts, opts\<lparr>so_delIfAddr := True\<rparr>}"
  by (auto simp: add_vip_def intro: on_log_same split: option.splits prod.splits)

lemma del_vip_same: "same_store c (del_vip E opts c)"
  by (auto simp: del_vip_def intro: on_log_same_snd split: option.splits)

section \<open>What the operations do to the store\<close>

lemma Fill_not_ipvs: "service_Fill E d so l = (Inl e, l') \<Longrightarrow> e \<noteq> ErrIpvsSyscallFailed"
  by (auto simp: service_Fill_def service_Fill_rest_def resolve_call_def Let_def split: if_splits sum.splits)

lemma store_put_not_ipvs: "store_put E k v ow l = (Some e, l') \<Longrightarrow> e \<noteq> ErrIpvsSyscallFailed"
  by (auto simp: store_put_def kv_exists_call_def kv_call_def Let_def split: sum.splits if_splits)

lemma createService_store:
  assumes "createService E i opts0 c = (r, c')" "cx_store c = Some s"
  obtains (fail) e where "r = Fail e" "e \<noteq> ErrIpvsSyscallFailed" "same_store c c'"
  | (refused) o1 opts l l1 l' where "r = Fail ErrIpvsSyscallFailed" "gget (cx_services c) i = None"
      "service_Fill E (cx_endpoint c) opts0 (cx_log c) = (Inr o1, l)" "opts \<in> {o1, o1\<lparr>so_delIfAddr := True\<rparr>}"
      "kv_table l1 = kv_table (cx_log c)" "store_CreateService E s i opts l1 = (None, l')" "same_store (c\<lparr>cx_log := l'\<rparr>) c'"
      "fst (ipvs_AddService E (ip_String (so_host opts)) (so_Port opts) (so_Protocol opts) (so_Method opts)
         (service_flags opts) l') \<noteq> None"
  | (ok) o1 opts l l1 l' where "r = Ok ()" "gget (cx_services c) i = None"
      "service_Fill E (cx_endpoint c) opts0 (cx_log c) = (Inr o1, l)" "opts \<in> {o1, o1\<lparr>so_delIfAddr := True\<rparr>}"
      "kv_table l1 = kv_table (cx_log c)" "store_CreateService E s i opts l1 = (None, l')"
      "same_store (put_service i opts (c\<lparr>cx_log := l'\<rparr>)) c'"
proof -
  obtain f c1 where f: "on_log (service_Fill E (cx_endpoint c) opts0) c = (f, c1)" by force
  then have q1: "same_store c c1" by (rule on_log_same) simp
  show thesis
  proof (cases f)
    case (Inl e)
    then have "e \<noteq> ErrIpvsSyscallFailed" using f by (auto simp: on_log_eq dest: Fill_not_ipvs)
    with Inl assms f q1 fail show thesis by (auto simp: createService_def)
  next
    case (Inr o1)
    have next1: "cx_next c1 = cx_next c" using f by (auto simp: on_log_eq)
    obtain opts c2 where v: "add_vip E o1 c1 = (opts, c2)" by force
    note v' = add_vip_same [OF v]
    have next2: "cx_next c2 = cx_next c1" using v
      by (auto simp: add_vip_def on_log_eq split: option.splits prod.splits)
    note q2 = same_store_trans [OF q1 conjunct1 [OF v']]
    have st2: "cx_store c2 = Some s" using assms(2) q2 by (simp add: same_store_def)
    obtain es l' where s: "store_CreateService E s i opts (cx_log c2) = (es, l')" by force
    then have s': "with_store (\<lambda>s. store_CreateService E s i opts) c2 = (es, c2\<lparr>cx_log := l'\<rparr>)"
      by (simp add: with_store_def st2 on_log_def)
    let ?c3 = "c2\<lparr>cx_log := l'\<rparr>"
    obtain ea c4 where a: "on_log (ipvs_AddService E (ip_String (so_host opts)) (so_Port opts)
        (so_Protocol opts) (so_Method opts) (service_flags opts)) ?c3 = (ea, c4)" by force
    show thesis
    proof (cases "gget (cx_services c1) i = None \<and> es = None")
      case False
      have "r = Fail ErrObjectExists \<and> c' = c1 \<or> (\<exists>e. r = Fail e \<and> c' = ?c3 \<and> es = Some e)"
        using assms(1) f Inr v s' False by (auto simp: createService_def split: if_splits)
      moreover have "same_store c ?c3 \<and> e \<noteq> ErrIpvsSyscallFailed" if "es = Some e" for e
        using q2 sdir.create_fail [OF s [unfolded that]] s that store_put_not_ipvs
        by (auto simp: same_store_def store_CreateService_def)
      ultimately show thesis using fail q1 by blast
    next
      case True
      show thesis
      proof (cases ea)
        case (Some e)
        then have r: "r = Fail ErrIpvsSyscallFailed" "c' = c4"
          using assms(1) f Inr v s' a True by (auto simp: createService_def)
        have "same_store (c\<lparr>cx_log := l'\<rparr>) c'"
          using q2 on_log_same [OF a] by (simp add: same_store_def r)
        moreover have "fst (ipvs_AddService E (ip_String (so_host opts)) (so_Port opts) (so_Protocol opts) (so_Method opts)
         (service_flags opts) l') \<noteq> None" using a Some by (auto simp: on_log_eq)
        moreover have "service_Fill E (cx_endpoint c) opts0 (cx_log c) = (Inr o1, cx_log c1)"
          using f Inr by (auto simp: on_log_eq)
        moreover have "gget (cx_services c) i = None" using True q1 by (simp add: same_store_def)
        moreover have "kv_table (cx_log c2) = kv_table (cx_log c)" using q2 by (simp add: same_store_def)
        ultimately show thesis using refused r(1) v' s True by blast
      next
        case None
        have q4: "same_store ?c3 c4" and n4: "cx_next c4 = cx_next c2"
          using on_log_same [OF a] a by (auto simp: on_log_eq)
        obtain x c6 where d: "on_log (disco_Expose E (cx_disco (put_service i opts c4)) i
          (ip_String (so_host opts)) (so_Port opts)) (put_service i opts c4) = (x, c6)" by force
        then have q6: "same_store (put_service i opts c4) c6" by (rule on_log_same) simp
        have r: "r = Ok ()" "c' = c6" using assms(1) f Inr v s' a d True None by (auto simp: createService_def)
        have "same_store (put_service i opts (c\<lparr>cx_log := l'\<rparr>)) c'"
          using q2 q4 q6 n4 next1 next2 by (simp add: same_store_def r)
        moreover have "service_Fill E (cx_endpoint c) opts0 (cx_log c) = (Inr o1, cx_log c1)"
          using f Inr by (auto simp: on_log_eq)
        moreover have "gget (cx_services c) i = None" using True q1 by (simp add: same_store_def)
        moreover have "kv_table (cx_log c2) = kv_table (cx_log c)" using q2 by (simp add: same_store_def)
        ultimately show thesis using ok r(1) v' s True by blast
      qed
    qed
  qed
qed

lemma updateService_store:
  assumes "updateService E i opts0 c = (r, c')" "cx_store c = Some s"
  obtains (fail) e where "r = Fail e" "same_store c c'"
  | (refused) "r = Fail ErrIpvsSyscallFailed"
  | (create) c1 opts l where "same_store c c1" "gget (cx_services c) i = None" "quiet c c1"
      "service_Fill E (cx_endpoint c) opts0 (cx_log c) = (Inr opts, l)" "createService E i opts c1 = (r, c')"
  | (ok) old opts l l1 l' where "r = Ok ()" "gget (cx_services c) i = Some old"
      "service_Fill E (cx_endpoint c) opts0 (cx_log c) = (Inr opts, l)"
      "kv_table l1 = kv_table (cx_log c)" "store_UpdateService E s i opts l1 = (None, l')"
      "same_store (put_service i opts (c\<lparr>cx_log := l'\<rparr>)) c'"
proof -
  obtain f c1 where f: "on_log (service_Fill E (cx_endpoint c) opts0) c = (f, c1)" by force
  then have q1: "same_store c c1" and qt: "quiet c c1" by (rule on_log_same, simp) (rule on_log_quiet [OF f], simp)
  then have n1: "cx_next c1 = cx_next c" by (simp add: quiet_sel)
  note sel = same_store_sel [OF q1]
  show thesis
  proof (cases f)
    case (Inl e)
    with assms f q1 fail show thesis by (auto simp: updateService_def)
  next
    case (Inr opts)
    have fill: "service_Fill E (cx_endpoint c) opts0 (cx_log c) = (Inr opts, cx_log c1)"
      using f Inr by (auto simp: on_log_eq)
    show thesis
    proof (cases "gget (cx_services c) i")
      case None
      with assms f Inr sel have "createService E i opts c1 = (r, c')" by (auto simp: updateService_def)
      with create q1 qt None fill show thesis by blast
    next
      case (Some old)
      let ?same = "ip_String (so_host (s_options old)) = ip_String (so_host opts) \<and>
        so_Port (s_options old) = so_Port opts \<and> so_Protocol (s_options old) = so_Protocol opts"
      have st1: "cx_store c1 = Some s" using assms(2) sel by simp
      obtain es l' where s: "store_UpdateService E s i opts (cx_log c1) = (es, l')" by force
      then have s': "with_store (\<lambda>s. store_UpdateService E s i opts) c1 = (es, c1\<lparr>cx_log := l'\<rparr>)"
        by (simp add: with_store_def st1 on_log_def)
      let ?c2 = "c1\<lparr>cx_log := l'\<rparr>"
      obtain ea c3 where a: "on_log (ipvs_UpdateService E (ip_String (so_host opts)) (so_Port opts)
        (so_Protocol opts) (so_Method opts) (service_flags opts)) ?c2 = (ea, c3)" by force
      show thesis
      proof (cases "?same \<and> es = None")
        case False
        have "(\<exists>e. r = Fail e) \<and> c' = c1 \<or> (\<exists>e. r = Fail e \<and> c' = ?c2 \<and> es = Some e)"
          using assms(1) f Inr s' Some sel False by (auto simp: updateService_def split: if_splits)
        moreover have "same_store c ?c2" if "es = Some e" for e
          using q1 sdir.overwrite_fail [OF s [unfolded that]] by (simp add: same_store_def)
        ultimately show thesis using fail q1 by blast
      next
        case True
        show thesis
        proof (cases ea)
          case (Some e)
          then have "r = Fail ErrIpvsSyscallFailed"
            using assms(1) f Inr s' a True \<open>gget (cx_services c) i = Some old\<close> sel by (auto simp: updateService_def)
          then show thesis by (rule refused)
        next
          case None
          have q3: "same_store ?c2 c3" and n3: "cx_next c3 = cx_next c1"
            using on_log_same [OF a] a by (auto simp: on_log_eq)
          obtain x c5 where d: "on_log (disco_Expose E (cx_disco (put_service i opts c3)) i
            (ip_String (so_host opts)) (so_Port opts)) (put_service i opts c3) = (x, c5)" by force
          then have q5: "same_store (put_service i opts c3) c5" by (rule on_log_same) simp
          have r: "r = Ok ()" "c' = c5"
            using assms(1) f Inr s' a d True None Some sel by (auto simp: updateService_def)
          have "same_store (put_service i opts (c\<lparr>cx_log := l'\<rparr>)) c'"
            using q1 q3 q5 n1 n3 by (simp add: same_store_def r)
          then show thesis using ok r(1) Some fill s True sel by blast
        qed
      qed
    qed
  qed
qed

lemma createBackend_store:
  assumes "createBackend E v k opts0 c = (r, c')" "cx_store c = Some s"
  obtains (fail) "r \<noteq> Ok ()" "same_store c c'"
  | (refused) vs o1 opts l l1 po where "r = Fail ErrIpvsSyscallFailed" "gget (cx_services c) v = Some vs"
      "backend_Fill E opts0 (cx_log c) = (Inr o1, l)" "opts = put_options v (o1\<lparr>bo_Pulse := Some po\<rparr>)"
      "fst (ipvs_AddDestPort E (ip_String (so_host (s_options vs))) (so_Port (s_options vs))
         (ip_String (bo_host opts)) (bo_Port opts) (so_Protocol (s_options vs)) (bo_Weight opts) (bo_Method opts) l1) \<noteq> None"
  | (ok) vs o1 opts p po l l1 l' ch where "r = Ok ()" "gget (cx_backends c) k = None" "gget (cx_services c) v = Some vs"
      "backend_Fill E opts0 (cx_log c) = (Inr o1, l)"
      "pulse_New E l ch (ip_String (bo_host o1)) (bo_Port o1)
         (case bo_Pulse o1 of None \<Rightarrow> zero_PulseOptions | Some po \<Rightarrow> po) = Ok (p, po)"
      "opts = put_options v (o1\<lparr>bo_Pulse := Some po\<rparr>)" "kv_table l1 = kv_table (cx_log c)"
      "store_put E (storeBackendPath s @ ''/'' @ k) (Some (backend_json opts)) False l1 = (None, l')"
      "same_store (put_backend k \<lparr>b_options = opts, b_service = vs, b_monitor = p, b_metrics = zero_Metrics\<rparr> (c\<lparr>cx_log := l'\<rparr>)) c'"
proof -
  obtain f c1 where f: "on_log (backend_Fill E opts0) c = (f, c1)" by force
  then have q1: "same_store c c1" by (rule on_log_same) simp
  note sel = same_store_sel [OF q1]
  show thesis
  proof (cases f)
    case (Inl e)
    with assms f q1 fail show thesis by (auto simp: createBackend_def)
  next
    case (Inr o1)
    let ?n = "pulse_New E (cx_log c1) (cx_next c1) (ip_String (bo_host o1)) (bo_Port o1)
              (case bo_Pulse o1 of None \<Rightarrow> zero_PulseOptions | Some po \<Rightarrow> po)"
    show thesis
    proof (cases "\<exists>p po vs. ?n = Ok (p, po) \<and> gget (cx_backends c1) k = None \<and>
        gget (cx_services c1) v = Some vs \<and> AddrFamily (bo_host o1) = AddrFamily (so_host (s_options vs))")
      case False
      then have "r \<noteq> Ok () \<and> c' = c1"
        using assms(1) f Inr by (auto simp: createBackend_def split: outcome.splits option.splits if_splits)
      then show thesis using fail q1 by blast
    next
      case True
      then obtain p po vs where n: "?n = Ok (p, po)" and k: "gget (cx_backends c1) k = None"
        and vs: "gget (cx_services c1) v = Some vs"
        and af: "AddrFamily (bo_host o1) = AddrFamily (so_host (s_options vs))" by blast
      let ?opts = "put_options v (o1\<lparr>bo_Pulse := Some po\<rparr>)"
      have st1: "cx_store c1 = Some s" using assms(2) sel by simp
      obtain es l' where p: "store_put E (storeBackendPath s @ ''/'' @ k) (Some (backend_json ?opts)) False (cx_log c1) = (es, l')"
        by force
      then have s': "store_backend E v k (o1\<lparr>bo_Pulse := Some po\<rparr>) c1 = ((es, ?opts), c1\<lparr>cx_log := l'\<rparr>)"
        by (simp add: store_backend_def st1 on_log_def store_CreateBackend_def put_options_def)
      let ?c2 = "c1\<lparr>cx_log := l'\<rparr>"
      obtain ea c3 where a: "on_log (ipvs_AddDestPort E (ip_String (so_host (s_options vs))) (so_Port (s_options vs))
         (ip_String (bo_host ?opts)) (bo_Port ?opts) (so_Protocol (s_options vs)) (bo_Weight ?opts)
         (bo_Method ?opts)) ?c2 = (ea, c3)" by force
      show thesis
      proof (cases es)
        case (Some e)
        then have "r = Fail e \<and> c' = ?c2" using assms(1) f Inr n k vs af s' by (auto simp: createBackend_def)
        moreover have "same_store c ?c2"
          using q1 bdir.create_fail [OF p [unfolded Some]] by (simp add: same_store_def)
        ultimately show thesis using fail by blast
      next
        case None
        show thesis
        proof (cases ea)
          case (Some e)
          then have "r = Fail ErrIpvsSyscallFailed"
            using assms(1) f Inr n k vs af s' a None by (auto simp: createBackend_def)
          moreover have "backend_Fill E opts0 (cx_log c) = (Inr o1, cx_log c1)" using f Inr by (auto simp: on_log_eq)
          moreover have "fst (ipvs_AddDestPort E (ip_String (so_host (s_options vs))) (so_Port (s_options vs))
             (ip_String (bo_host ?opts)) (bo_Port ?opts) (so_Protocol (s_options vs)) (bo_Weight ?opts) (bo_Method ?opts) l') \<noteq> None"
            using a Some by (auto simp: on_log_eq)
          ultimately show thesis using refused vs sel by metis
        next
          case None
          let ?b = "\<lparr>b_options = ?opts, b_service = vs, b_monitor = p, b_metrics = zero_Metrics\<rparr>"
          have "r = Ok ()" "c' = start_loop \<lparr>VsID = v, RsID = k\<rparr> p (put_backend k ?b c3)"
            using assms(1) f Inr n k vs af s' a None \<open>es = None\<close> by (auto simp: createBackend_def)
          moreover have "same_store ?c2 c3" by (rule on_log_same [OF a]) simp
          ultimately have "r = Ok ()" "same_store (put_backend k ?b (c\<lparr>cx_log := l'\<rparr>)) c'"
            using q1 by (auto simp: same_store_def)
          moreover have "backend_Fill E opts0 (cx_log c) = (Inr o1, cx_log c1)" using f Inr by (auto simp: on_log_eq)
          ultimately show thesis using ok k vs n p \<open>es = None\<close> sel by metis
        qed
      qed
    qed
  qed
qed

end
