(* ===== verification/Gorb_Mirror.thy ===== *)
theory Gorb_Mirror
  imports Gorb_Kv
begin

text \<open>
  The external store as a copy of the context: a context is \<open>mirrored\<close> when the two directories of the
  store hold exactly the documents of its services and its backends, and a document is such that reading
  it back and creating the object again gives the same options (\<open>reloadable\<close>).  The operations keep
  this relation unless the kernel refuses them half way.
\<close>

section \<open>Documents that can be read back\<close>

text \<open>The resolver answers a name with the same address every time.\<close>

definition resolver_stable :: "env \<Rightarrow> bool" where
  "resolver_stable E \<longleftrightarrow> (\<forall>l l' h. resolveIP E l h = resolveIP E l' h)"

text \<open>
  What decoding a document of the options gives, and that \<open>Fill\<close> (and \<open>New\<close> of the check) make
  the same options of it again.
\<close>

definition service_doc :: "ServiceOptions \<Rightarrow> ServiceOptions" where
  "service_doc so = so\<lparr>so_host := [], so_delIfAddr := False\<rparr>"

definition backend_doc :: "BackendOptions \<Rightarrow> BackendOptions" where
  "backend_doc bo = bo\<lparr>bo_Pulse := map_option (\<lambda>p. p\<lparr>po_interval := 0\<rparr>) (bo_Pulse bo), bo_host := []\<rparr>"

definition service_reloads :: "env \<Rightarrow> ip \<Rightarrow> ServiceOptions \<Rightarrow> bool" where
  "service_reloads E ep so \<longleftrightarrow> (\<forall>l. fst (service_Fill E ep (service_doc so) l) = Inr (so\<lparr>so_delIfAddr := False\<rparr>))"

definition pulse_reloads :: "env \<Rightarrow> BackendOptions \<Rightarrow> bool" where
  "pulse_reloads E bo \<longleftrightarrow> (\<exists>po. bo_Pulse bo = Some po \<and>
     (\<forall>k v. gget (po_Args po) k = Some v \<longrightarrow> iface_value v = v) \<and>
     (\<forall>l ch. \<exists>p. pulse_New E l ch (ip_String (bo_host bo)) (bo_Port bo) (po\<lparr>po_interval := 0\<rparr>) = Ok (p, po)))"

definition backend_reloads :: "env \<Rightarrow> BackendOptions \<Rightarrow> bool" where
  "backend_reloads E bo \<longleftrightarrow> pulse_reloads E bo \<and>
     (\<forall>w l. w \<noteq> 0 \<longrightarrow> fst (backend_Fill E (backend_doc (bo\<lparr>bo_Weight := w\<rparr>)) l) =
        Inr ((backend_doc (bo\<lparr>bo_Weight := w\<rparr>))\<lparr>bo_host := bo_host bo\<rparr>))"

lemma resolve_stable:
  "resolver_stable E \<Longrightarrow> resolve_call E h l = (Inr a, l') \<Longrightarrow> fst (resolve_call E h l2) = Inr a"
  unfolding resolver_stable_def resolve_call_def by (drule spec [of _ l], drule spec [of _ l2], drule spec [of _ h]) simp

lemma Fill_reloads:
  assumes "resolver_stable E" "service_Fill E ep o0 l = (Inr o1, l')"
  shows "service_reloads E ep (o1\<lparr>so_delIfAddr := x\<rparr>)"
proof -
  note e = service_Fill_eqs [OF assms(2)]
  obtain a where p: "so_Port o0 \<noteq> 0" and r: "service_Fill_rest E (o0\<lparr>so_host := a\<rparr>) = Inr o1"
    and h: "if so_Host o0 = [] then ep \<noteq> [] \<and> a = ep \<and> l' = l else resolve_call E (so_Host o0) l = (Inr a, l')"
    using service_Fill_Inr [OF assms(2)] by blast
  have a: "so_host o1 = a" by (subst r [unfolded service_Fill_rest_Inr, THEN conjunct2, THEN conjunct2]) simp
  have valid: "ValidProtocol (so_Protocol o1)" "list_all (ValidFlag (libconsts E)) (service_flags o1)" "so_Method o1 \<noteq> []"
    using e(1) by (simp_all add: service_filled_def)
  have pr: "so_Protocol o1 \<noteq> []" "to_lower (so_Protocol o1) = so_Protocol o1"
    using valid(1) by (auto simp: e(7) ValidProtocol_iff)
  have rest: "service_Fill_rest E ((service_doc (o1\<lparr>so_delIfAddr := x\<rparr>))\<lparr>so_host := a\<rparr>) = Inr (o1\<lparr>so_delIfAddr := False\<rparr>)"
    unfolding service_Fill_rest_Inr using valid pr a by (auto simp: service_doc_def service_flags_def)
  show ?thesis
    unfolding service_reloads_def
  proof
    fix l2
    show "fst (service_Fill E ep (service_doc (o1\<lparr>so_delIfAddr := x\<rparr>)) l2) = Inr (o1\<lparr>so_delIfAddr := x, so_delIfAddr := False\<rparr>)"
    proof (cases "so_Host o0 = []")
      case True
      with h rest p show ?thesis by (simp add: service_Fill_def service_doc_def e)
    next
      case False
      with h have "fst (resolve_call E (so_Host o0) l2) = Inr a" using resolve_stable [OF assms(1)] by simp
      with False rest p show ?thesis
        by (cases "resolve_call E (so_Host o0) l2") (simp add: service_Fill_def service_doc_def e)
    qed
  qed
qed

lemma Validate_again:
  assumes "pulse_Validate o0 = Inr o1"
  shows "pulse_Validate (o1\<lparr>po_interval := i\<rparr>) = Inr o1"
proof -
  have t: "po_Type o1 \<noteq> []" "po_Interval o1 \<noteq> []" "to_lower (po_Type o1) = po_Type o1"
    using assms by (auto simp: pulse_Validate_def Let_def to_lower_idem split: if_splits option.splits sum.splits)
  have v: "driver_get (po_Type o1) \<noteq> None" "0 < sint (po_interval o1)" "ParseInterval (po_Interval o1) = Inr (po_interval o1)"
    using Validate_Ok [OF assms] by simp_all
  show ?thesis using t v by (auto simp: pulse_Validate_def Let_def split: option.split)
qed

lemma New_again:
  assumes "pulse_New E l ch h p o0 = Ok (x, o1)"
  shows "\<exists>y. pulse_New E l2 ch2 h p (o1\<lparr>po_interval := i\<rparr>) = Ok (y, o1)"
proof -
  have "pulse_Validate o0 = Inr o1" using assms by (auto simp: pulse_New_def split: sum.splits option.splits outcome.splits)
  from Validate_again [OF this, of i] this assms show ?thesis
    by (auto simp: pulse_New_def split: sum.splits option.splits outcome.splits)
qed

lemma New_args: "pulse_New E l ch h p o0 = Ok (x, o1) \<Longrightarrow> po_Args o1 = po_Args o0"
  by (auto simp: pulse_New_def dest: Validate_Ok split: sum.splits option.splits outcome.splits)

text \<open>Options of a client come from a document, and so do their arguments.\<close>

definition decoded_args :: "BackendOptions \<Rightarrow> bool" where
  "decoded_args bo \<longleftrightarrow> (\<forall>po. bo_Pulse bo = Some po \<longrightarrow> (\<forall>k v. gget (po_Args po) k = Some v \<longrightarrow> iface_value v = v))"

lemma backend_Fill_reloads:
  assumes "resolver_stable E" "backend_Fill E o0 l = (Inr o1, l')" "decoded_args o0"
    and "pulse_New E l2 ch (ip_String (bo_host o1)) (bo_Port o1)
         (case bo_Pulse o1 of None \<Rightarrow> zero_PulseOptions | Some po \<Rightarrow> po) = Ok (p, po)"
  shows "backend_reloads E (put_options v (o1\<lparr>bo_Pulse := Some po\<rparr>))"
proof -
  obtain a where f: "bo_Host o0 \<noteq> []" "bo_Port o0 \<noteq> 0" "ValidForwarding (libconsts E) (bo_Method o1)"
    and r: "resolve_call E (bo_Host o0) l = (Inr a, l')"
    and o1: "o1 = o0\<lparr>bo_Weight := (if bo_Weight o0 = 0 then 100 else bo_Weight o0),
             bo_Method := to_lower (if bo_Method o0 = [] then ''nat'' else bo_Method o0),
             bo_Pulse := Some (case bo_Pulse o0 of None \<Rightarrow> zero_PulseOptions | Some p \<Rightarrow> p), bo_host := a\<rparr>"
    using backend_Fill_Inr [OF assms(2)] by blast
  let ?o = "put_options v (o1\<lparr>bo_Pulse := Some po\<rparr>)"
  have args: "gget (po_Args po) k = Some x \<Longrightarrow> iface_value x = x" for k x
    using New_args [OF assms(4)] assms(3)
    by (cases "bo_Pulse o0") (auto simp: o1 decoded_args_def zero_PulseOptions_def)
  then have "pulse_reloads E ?o"
    using New_again [OF assms(4)] by (auto simp: pulse_reloads_def put_options_def)
  moreover have "fst (backend_Fill E (backend_doc (?o\<lparr>bo_Weight := w\<rparr>)) l2) =
      Inr ((backend_doc (?o\<lparr>bo_Weight := w\<rparr>))\<lparr>bo_host := bo_host ?o\<rparr>)" if "w \<noteq> 0" for w l2
  proof -
    have m: "bo_Method o1 \<noteq> []" "to_lower (bo_Method o1) = bo_Method o1"
      by (auto simp: o1 to_lower_idem)
    have rs: "fst (resolve_call E (bo_Host o0) l2) = Inr a" by (rule resolve_stable [OF assms(1) r])
    have sel: "bo_Host ?o = bo_Host o0" "bo_Port ?o = bo_Port o0" "bo_Method ?o = bo_Method o1" "bo_host ?o = a"
      "bo_Pulse ?o = Some po" by (simp_all add: put_options_def o1)
    have "w > 0" using that by (simp add: word_neq_0_conv)
    then show ?thesis using f m rs sel
      by (cases "resolve_call E (bo_Host o0) l2")
        (simp add: backend_Fill_def backend_Fill_rest_def backend_doc_def Let_def)
  qed
  ultimately show ?thesis by (simp add: backend_reloads_def)
qed

section \<open>Mirrored contexts\<close>

text \<open>
  The document of a backend carries the weight it was created with: changes of the weight are not
  written to the store.
\<close>

definition stored_as :: "BackendOptions \<Rightarrow> BackendOptions \<Rightarrow> bool" where
  "stored_as d bo \<longleftrightarrow> bo_Weight d \<noteq> 0 \<and> d = bo\<lparr>bo_Weight := bo_Weight d\<rparr>"

definition service_mirror :: "Store \<Rightarrow> service gomap \<Rightarrow> log \<Rightarrow> bool" where
  "service_mirror s sv = mirrors (storeServicePath s) service_json (\<lambda>i. map_option s_options (gget sv i))"

definition backend_mirror :: "Store \<Rightarrow> backend gomap \<Rightarrow> log \<Rightarrow> bool" where
  "backend_mirror s bk l \<longleftrightarrow> (\<exists>sb. mirrors (storeBackendPath s) backend_json sb l \<and>
     (\<forall>k. rel_option stored_as (sb k) (map_option b_options (gget bk k))))"

definition reloadable :: "env \<Rightarrow> ctx \<Rightarrow> bool" where
  "reloadable E c \<longleftrightarrow> (\<forall>i vs. gget (cx_services c) i = Some vs \<longrightarrow> service_reloads E (cx_endpoint c) (s_options vs)) \<and>
     (\<forall>k b. gget (cx_backends c) k = Some b \<longrightarrow> backend_reloads E (b_options b)) \<and>
     (\<forall>i k vs b. gget (cx_services c) i = Some vs \<longrightarrow> gget (cx_backends c) k = Some b \<longrightarrow> attached vs b \<longrightarrow>
        bo_VsID (b_options b) = i)"

definition mirrored :: "env \<Rightarrow> Store \<Rightarrow> ctx \<Rightarrow> bool" where
  "mirrored E s c \<longleftrightarrow> cx_store c = Some s \<and> apart (storeServicePath s) (storeBackendPath s) \<and>
     service_mirror s (cx_services c) (cx_log c) \<and> backend_mirror s (cx_backends c) (cx_log c) \<and> reloadable E c"

lemma service_mirrorD:
  "service_mirror s sv l \<Longrightarrow> kv_table l (storeServicePath s @ ''/'' @ i) =
     map_option (\<lambda>v. Some (service_json (s_options v))) (gget sv i)"
  using mirrorsD(1) [of "storeServicePath s" service_json "\<lambda>i. map_option s_options (gget sv i)" l i]
  by (simp add: service_mirror_def option.map_comp o_def)

lemma apart_sym: "apart d e \<Longrightarrow> apart e d"
  by (simp add: apart_def)

lemma mirror_cong:
  "(\<And>i. kv_table l' (storeServicePath s @ ''/'' @ i) = kv_table l (storeServicePath s @ ''/'' @ i)) \<Longrightarrow>
     service_mirror s sv l \<Longrightarrow> service_mirror s sv l'"
  "(\<And>i. kv_table l' (storeBackendPath s @ ''/'' @ i) = kv_table l (storeBackendPath s @ ''/'' @ i)) \<Longrightarrow>
     backend_mirror s bk l \<Longrightarrow> backend_mirror s bk l'"
  unfolding service_mirror_def backend_mirror_def by (blast intro: mirrors_cong)+

lemma mirrored_same: "same_store c c' \<Longrightarrow> mirrored E s c \<Longrightarrow> mirrored E s c'"
  using mirror_cong [of "cx_log c'" s "cx_log c"]
  by (auto simp: mirrored_def reloadable_def same_store_sel)

lemma mirror_get: "(\<lambda>j. map_option f (gget (gput i x m) j)) = (\<lambda>j. map_option f (gget m j))(i \<mapsto> f x)"
  "(\<lambda>j. map_option f (gget (gdel i m) j)) = (\<lambda>j. map_option f (gget m j))(i := None)"
  by auto

lemma service_mirror_remove:
  assumes "kv_exact E" "service_mirror s sv l"
  shows "service_mirror s (gdel i sv) (snd (store_RemoveService E s i l))"
  using sdir.remove_mirrors [OF assms(1) assms(2) [unfolded service_mirror_def], of i]
  by (simp only: service_mirror_def mirror_get)

lemma backend_mirror_remove:
  assumes "kv_exact E" "backend_mirror s bk l"
  shows "backend_mirror s (gdel k bk) (snd (store_RemoveBackend E s k l))"
proof -
  from assms(2) obtain sb where m: "mirrors (storeBackendPath s) backend_json sb l"
    and r: "\<And>k. rel_option stored_as (sb k) (map_option b_options (gget bk k))" unfolding backend_mirror_def by blast
  have "rel_option stored_as ((sb(k := None)) j) (map_option b_options (gget (gdel k bk) j))" for j
    using r [of j] by auto
  with bdir.remove_mirrors [OF assms(1) m, of k] show ?thesis unfolding backend_mirror_def by blast
qed

lemma backend_mirror_reweight:
  assumes "backend_mirror s bk l" "gget bk k = Some b"
  shows "backend_mirror s (gput k (b\<lparr>b_options := b_options b\<lparr>bo_Weight := w\<rparr>\<rparr>) bk) l"
proof -
  from assms(1) obtain sb where m: "mirrors (storeBackendPath s) backend_json sb l"
    and r: "\<And>k. rel_option stored_as (sb k) (map_option b_options (gget bk k))" unfolding backend_mirror_def by blast
  have "rel_option stored_as (sb j) (map_option b_options (gget (gput k (b\<lparr>b_options := b_options b\<lparr>bo_Weight := w\<rparr>\<rparr>) bk) j))" for j
    using r [of j] assms(2) by (cases "sb k") (auto simp: stored_as_def)
  with m show ?thesis unfolding backend_mirror_def by blast
qed

lemma fresh_service:
  assumes "ctx_wf E c" "gget (cx_backends c) k = Some b"
  shows "s_addr (b_service b) \<noteq> cx_next c"
  using wf_backend [OF assms] by (auto simp: backend_wf_def service_wf_def)

lemma reloadable_put_service:
  assumes "reloadable E c" "ctx_wf E c" "service_reloads E (cx_endpoint c) opts" 
  shows "reloadable E (put_service i opts (c\<lparr>cx_log := l\<rparr>))"
  using assms fresh_service [OF assms(2)] unfolding reloadable_def by (auto simp: attached_def split: if_splits)

text \<open>A kernel that takes every request; then no operation on a well-formed context is refused.\<close>

definition accepts_all :: "env \<Rightarrow> bool" where
  "accepts_all E \<longleftrightarrow> (\<forall>l r. ipvsDo E l r = None)"

lemma shim_accepted:
  assumes "accepts_all E" "ValidProtocol pr"
  shows "fst (ipvs_AddService E v p pr sc fs l) = None" "fst (ipvs_UpdateService E v p pr sc fs l) = None"
    "fst (ipvs_DelService E v p pr l) = None" "fst (ipvs_DelDestPort E v p x y pr l) = None"
    "ValidForwarding (libconsts E) f \<Longrightarrow> fst (ipvs_AddDestPort E v p x y pr w f l) = None"
  using assms createSvcKey_valid [of pr v p]
  by (auto simp: accepts_all_def shim_defs ipvs_call_def ValidForwarding_def Let_def split: sum.splits option.splits)

lemma mirrored_createService:
  assumes "kv_exact E" "resolver_stable E" "ctx_wf E c" "mirrored E s c" "CHR ''/'' \<notin> set i"
    and "createService E i opts0 c = (r, c')" "r \<noteq> Fail ErrIpvsSyscallFailed \<or> accepts_all E"
  shows "mirrored E s c'"
proof -
  have m: "cx_store c = Some s" "apart (storeServicePath s) (storeBackendPath s)" "service_mirror s (cx_services c) (cx_log c)"
    "backend_mirror s (cx_backends c) (cx_log c)" "reloadable E c" using assms(4) by (simp_all add: mirrored_def)
  show ?thesis using assms(6) m(1)
  proof (cases rule: createService_store)
    case (fail e)
    with mirrored_same assms(4) show ?thesis by blast
  next
    case (refused o1 opts l l1 l')
    have v: "ValidProtocol (so_Protocol opts)"
      using svc.fill_filled [OF refused(3)] refused(4) by (auto simp: service_filled_def)
    show ?thesis using refused(1,8) assms(7) shim_accepted(1) [OF _ v] by auto
  next
    case (ok o1 opts l l1 l')
    have "service_mirror s (cx_services c) l1" by (rule mirror_cong(1) [OF _ m(3)]) (simp add: ok(5))
    from sdir.create_mirrors [OF assms(1) this [unfolded service_mirror_def] _ assms(5) ok(6)] ok(2)
    have s: "service_mirror s (gput i \<lparr>s_addr = cx_next c, s_options = opts\<rparr> (cx_services c)) l'"
      by (simp only: service_mirror_def mirror_get service.simps option.map)
    have b: "backend_mirror s (cx_backends c) l'"
      by (rule mirror_cong(2) [OF _ m(4)]) (use sdir.other_dir(1) [OF assms(1) m(2) ok(6)] ok(5) in simp)
    have rl: "service_reloads E (cx_endpoint c) opts"
      using Fill_reloads [OF assms(2) ok(3), of "so_delIfAddr o1"] Fill_reloads [OF assms(2) ok(3), of True] ok(4) by auto
    have "mirrored E s (put_service i opts (c\<lparr>cx_log := l'\<rparr>))"
      using m s b reloadable_put_service [OF m(5) assms(3) rl] by (simp add: mirrored_def)
    then show ?thesis by (rule mirrored_same [OF ok(7)])
  qed
qed

lemma mirrored_updateService:
  assumes "kv_exact E" "resolver_stable E" "ctx_wf E c" "mirrored E s c" "CHR ''/'' \<notin> set i"
    and "updateService E i opts0 c = (r, c')" "r \<noteq> Fail ErrIpvsSyscallFailed"
  shows "mirrored E s c'"
proof -
  have m: "cx_store c = Some s" "apart (storeServicePath s) (storeBackendPath s)" "service_mirror s (cx_services c) (cx_log c)"
    "backend_mirror s (cx_backends c) (cx_log c)" "reloadable E c" using assms(4) by (simp_all add: mirrored_def)
  show ?thesis using assms(6) m(1)
  proof (cases rule: updateService_store)
    case (fail e)
    with mirrored_same assms(4) show ?thesis by blast
  next
    case refused
    with assms(7) show ?thesis by simp
  next
    case (create c1 opts l)
    have "ctx_wf E c1" using assms(3) create(3) by (simp add: wf_quiet)
    then show ?thesis
      by (rule mirrored_createService [OF assms(1,2) _ mirrored_same [OF create(1) assms(4)] assms(5) create(5) disjI1 [OF assms(7)]])
  next
    case (ok old opts l l1 l')
    have "service_mirror s (cx_services c) l1" by (rule mirror_cong(1) [OF _ m(3)]) (simp add: ok(4))
    from sdir.overwrite_mirrors [OF this [unfolded service_mirror_def] _ ok(5)] ok(2)
    have s: "service_mirror s (gput i \<lparr>s_addr = cx_next c, s_options = opts\<rparr> (cx_services c)) l'"
      by (simp only: service_mirror_def mirror_get service.simps option.simps simp_thms)
    have b: "backend_mirror s (cx_backends c) l'"
      by (rule mirror_cong(2) [OF _ m(4)]) (use sdir.other_dir(2) [OF assms(1) m(2) ok(5)] ok(4) in simp)
    have rl: "service_reloads E (cx_endpoint c) opts"
      using Fill_reloads [OF assms(2) ok(3), of "so_delIfAddr opts"] by simp
    have "mirrored E s (put_service i opts (c\<lparr>cx_log := l'\<rparr>))"
      using m s b reloadable_put_service [OF m(5) assms(3) rl] by (simp add: mirrored_def)
    then show ?thesis by (rule mirrored_same [OF ok(6)])
  qed
qed

lemma mirrored_createBackend:
  assumes "kv_exact E" "resolver_stable E" "ctx_wf E c" "mirrored E s c" "CHR ''/'' \<notin> set k" "decoded_args opts0"
    and "createBackend E v k opts0 c = (r, c')" "r \<noteq> Fail ErrIpvsSyscallFailed \<or> accepts_all E"
  shows "mirrored E s c'"
proof -
  have m: "cx_store c = Some s" "apart (storeServicePath s) (storeBackendPath s)" "service_mirror s (cx_services c) (cx_log c)"
    "backend_mirror s (cx_backends c) (cx_log c)" "reloadable E c" using assms(4) by (simp_all add: mirrored_def)
  show ?thesis using assms(7) m(1)
  proof (cases rule: createBackend_store)
    case fail
    with mirrored_same assms(4) show ?thesis by blast
  next
    case (refused vs o1 opts l l1 po)
    have v: "ValidProtocol (so_Protocol (s_options vs))"
      using wf_service [OF assms(3) refused(2)] by (simp add: service_wf_def service_filled_def)
    have f: "ValidForwarding (libconsts E) (bo_Method opts)"
      using bck.fill_filled [OF refused(3)] by (simp add: refused(4) put_options_def backend_filled_def)
    show ?thesis using refused(1,5) assms(8) shim_accepted(5) [OF _ v f] by auto
  next
    case (ok vs o1 opts p po l l1 l' ch)
    let ?b = "\<lparr>b_options = opts, b_service = vs, b_monitor = p, b_metrics = zero_Metrics\<rparr>"
    have s: "service_mirror s (cx_services c) l'"
      by (rule mirror_cong(1) [OF _ m(3)]) (use bdir.other_dir(1) [OF assms(1) apart_sym [OF m(2)] ok(8)] ok(7) in simp)
    have "backend_mirror s (cx_backends c) l1" by (rule mirror_cong(2) [OF _ m(4)]) (simp add: ok(7))
    then obtain sb where sb: "mirrors (storeBackendPath s) backend_json sb l1"
      and r: "\<And>k. rel_option stored_as (sb k) (map_option b_options (gget (cx_backends c) k))"
      unfolding backend_mirror_def by blast
    have none: "sb k = None" using r [of k] ok(2) by simp
    have "bo_Weight opts \<noteq> 0"
      using bck.fill_filled [OF ok(4)] by (simp add: ok(6) put_options_def backend_filled_def)
    then have "rel_option stored_as ((sb(k \<mapsto> opts)) j) (map_option b_options (gget (gput k ?b (cx_backends c)) j))" for j
      using r [of j] by (simp add: stored_as_def)
    with bdir.create_mirrors [OF assms(1) sb none assms(5) ok(8)]
    have b: "backend_mirror s (gput k ?b (cx_backends c)) l'" unfolding backend_mirror_def by blast
    have rl: "backend_reloads E opts"
      unfolding ok(6) by (rule backend_Fill_reloads [OF assms(2) ok(4) assms(6) ok(5)])
    have id: "i = v" if "gget (cx_services c) i = Some vs'" "s_addr vs = s_addr vs'" for i vs'
      using wf_mapsD(2) [OF assms(3) [unfolded ctx_wf_def] that(1) ok(3)] that(2) by simp
    have "reloadable E (put_backend k ?b (c\<lparr>cx_log := l'\<rparr>))"
      using m(5) rl id unfolding reloadable_def
      by (auto simp: attached_def ok(6) put_options_def split: if_splits)
    then have "mirrored E s (put_backend k ?b (c\<lparr>cx_log := l'\<rparr>))"
      using m s b by (simp add: mirrored_def)
    then show ?thesis by (rule mirrored_same [OF ok(9)])
  qed
qed

lemma mirrored_updateBackend:
  assumes "mirrored E s c"
  shows "mirrored E s (snd (updateBackend E v k w c))"
proof -
  obtain r c' where r: "updateBackend E v k w c = (r, c')" by force
  have kv: "kv_table (cx_log c') = kv_table (cx_log c)"
    using r by (auto simp: updateBackend_def dest: on_log_same [OF _ kv_table_shim(5), THEN same_store_sel(5)]
        split: option.splits prod.splits)
  show ?thesis using r
  proof (cases rule: updateBackend_cases)
    case none
    with assms r show ?thesis by simp
  next
    case fail
    then have "same_store c c'" using kv by (simp add: same_store_def quiet_sel)
    with mirrored_same assms r show ?thesis by simp
  next
    case (ok b c1)
    note q = logged_to_sel [OF ok(3)]
    have m: "service_mirror s (cx_services c) (cx_log c')" "backend_mirror s (cx_backends c) (cx_log c')"
      using mirror_cong [of "cx_log c'" s "cx_log c"] kv assms by (simp_all add: mirrored_def)
    have f: "cx_services c' = cx_services c" "cx_store c' = cx_store c" "cx_endpoint c' = cx_endpoint c"
      "cx_backends c' = gput k (b\<lparr>b_options := b_options b\<lparr>bo_Weight := w\<rparr>\<rparr>) (cx_backends c)"
      using ok(4) by (simp_all add: q)
    have "backend_reloads E (b_options b\<lparr>bo_Weight := w\<rparr>)" if "backend_reloads E (b_options b)"
      using that by (simp add: backend_reloads_def pulse_reloads_def)
    then have "reloadable E c'"
      using assms ok(1) unfolding mirrored_def reloadable_def f by (auto simp: attached_def split: if_splits)
    then show ?thesis
      using assms m(1) backend_mirror_reweight [OF m(2) ok(1), of w] by (simp add: mirrored_def f r)
  qed
qed

lemma reloadable_sub:
  assumes "reloadable E c" "cx_endpoint c' = cx_endpoint c"
    and "\<And>i vs. gget (cx_services c') i = Some vs \<Longrightarrow> gget (cx_services c) i = Some vs"
    and "\<And>k b. gget (cx_backends c') k = Some b \<Longrightarrow> gget (cx_backends c) k = Some b"
  shows "reloadable E c'"
  using assms unfolding reloadable_def by metis

text \<open>Taking one backend out of the map and of the store.\<close>

lemma mirrored_drop_backend:
  assumes "kv_exact E" "mirrored E s c" "cx_log c' = snd (store_RemoveBackend E s k (cx_log c))"
    and "cx_services c' = cx_services c" "cx_backends c' = gdel k (cx_backends c)" "cx_store c' = cx_store c"
      "cx_endpoint c' = cx_endpoint c"
  shows "mirrored E s c'"
proof -
  have m: "apart (storeServicePath s) (storeBackendPath s)" "service_mirror s (cx_services c) (cx_log c)"
    "backend_mirror s (cx_backends c) (cx_log c)" "reloadable E c" using assms(2) by (simp_all add: mirrored_def)
  have "service_mirror s (cx_services c') (cx_log c')"
    unfolding assms(3,4)
    by (rule mirror_cong(1) [OF _ m(2)]) (use bdir.other_dir(3) [OF assms(1) apart_sym [OF m(1)]] in simp)
  moreover have "backend_mirror s (cx_backends c') (cx_log c')"
    unfolding assms(3,5) by (rule backend_mirror_remove [OF assms(1) m(3)])
  moreover have "reloadable E c'" by (rule reloadable_sub [OF m(4)]) (auto simp: assms split: if_splits)
  ultimately show ?thesis using assms(2,6) by (simp add: mirrored_def)
qed

lemma mirrored_clean_backends:
  assumes "kv_exact E" "mirrored E s c" "clean_backends E vs ks c = (r, c')" "r \<noteq> Panic"
  shows "mirrored E s c'"
  using assms(2,3)
proof (induction ks arbitrary: c)
  case (Cons k ks)
  show ?case
  proof (cases "\<exists>b. gget (cx_backends c) k = Some b \<and> s_addr (b_service b) = s_addr vs")
    case False
    with Cons.prems have "clean_backends E vs ks c = (r, c')" by (auto split: option.splits)
    with Cons.IH Cons.prems(1) show ?thesis by blast
  next
    case True
    then obtain b where b: "gget (cx_backends c) k = Some b" "s_addr (b_service b) = s_addr vs" by blast
    have run: "p_stopCh (b_monitor b) \<notin> set (cx_closed c)"
      using Cons.prems(2) b assms(4) by (auto simp: pulse_Stop_def)
    let ?c1 = "snd (with_store (\<lambda>s. store_RemoveBackend E s k) (del_backend k (stop_backend b c)))"
    have st: "cx_store c = Some s" using Cons.prems(1) by (simp add: mirrored_def)
    have "mirrored E s ?c1"
      by (rule mirrored_drop_backend [OF assms(1) Cons.prems(1)])
        (simp_all add: with_store_def st on_log_def split_beta)
    moreover have "clean_backends E vs ks ?c1 = (r, c')"
      using Cons.prems(2) b run by (simp add: pulse_Stop_def stop_backend_def)
    ultimately show ?thesis by (rule Cons.IH)
  qed
qed simp

lemma mirrored_removeBackend:
  assumes "kv_exact E" "mirrored E s c" "removeBackend E v k c = (r, c')" "r \<noteq> Fail ErrIpvsSyscallFailed" "r \<noteq> Panic"
  shows "mirrored E s c'"
proof (cases "gget (cx_backends c) k")
  case None
  with assms(2,3) show ?thesis by (simp add: removeBackend_def)
next
  case (Some b)
  have st: "cx_store c = Some s" using assms(2) by (simp add: mirrored_def)
  let ?c1 = "c\<lparr>cx_log := snd (store_RemoveBackend E s k (cx_log c))\<rparr>"
  have w: "with_store (\<lambda>s. store_RemoveBackend E s k) c = (fst (store_RemoveBackend E s k (cx_log c)), ?c1)"
    by (simp add: with_store_def st on_log_def split_beta)
  have run: "p_stopCh (b_monitor b) \<notin> set (cx_closed c)"
    using assms(3,5) Some w by (auto simp: removeBackend_def pulse_Stop_def)
  let ?d = "ipvs_DelDestPort E (ip_String (so_host (s_options (b_service b)))) (so_Port (s_options (b_service b)))
     (ip_String (bo_host (b_options b))) (bo_Port (b_options b)) (so_Protocol (s_options (b_service b)))"
  obtain e c3 where a: "on_log ?d (stop_backend b ?c1) = (e, c3)" by force
  then have q: "same_store (stop_backend b ?c1) c3" by (rule on_log_same) simp
  have "e = None" "c' = del_backend k c3"
    using assms(3,4) Some w run a by (auto simp: removeBackend_def pulse_Stop_def stop_backend_def split: option.splits)
  then have "same_store (del_backend k ?c1) c'" using q by (simp add: same_store_def)
  moreover have "mirrored E s (del_backend k ?c1)"
    by (rule mirrored_drop_backend [OF assms(1,2)]) simp_all
  ultimately show ?thesis by (rule mirrored_same)
qed

lemma mirrored_removeService:
  assumes "kv_exact E" "mirrored E s c" "removeService E i c = (r, c')" "r \<noteq> Fail ErrIpvsSyscallFailed" "r \<noteq> Panic"
  shows "mirrored E s c'"
proof (cases "gget (cx_services c) i")
  case None
  with assms(2,3) show ?thesis by (simp add: removeService_def)
next
  case (Some vs)
  have m: "cx_store c = Some s" "apart (storeServicePath s) (storeBackendPath s)" "service_mirror s (cx_services c) (cx_log c)"
    "backend_mirror s (cx_backends c) (cx_log c)" "reloadable E c" using assms(2) by (simp_all add: mirrored_def)
  let ?d = "ipvs_DelService E (ip_String (so_host (s_options vs))) (so_Port (s_options vs)) (so_Protocol (s_options vs))"
  let ?c2 = "del_vip E (s_options vs) (drop_service i c)"
  obtain e c3 where a: "on_log ?d ?c2 = (e, c3)" by force
  have q3: "same_store (drop_service i c) c3"
    using del_vip_same on_log_same [OF a] by (rule same_store_trans) simp
  have e: "e = None"
    using assms(3,4) Some a by (cases e) (simp_all add: removeService_def drop_service_def)
  let ?c4 = "c3\<lparr>cx_log := snd (store_RemoveService E s i (cx_log c3))\<rparr>"
  have st3: "cx_store c3 = Some s" using q3 m(1) by (simp add: same_store_def)
  have w: "with_store (\<lambda>s. store_RemoveService E s i) c3 = (fst (store_RemoveService E s i (cx_log c3)), ?c4)"
    by (simp add: with_store_def st3 on_log_def split_beta)
  have "service_mirror s (cx_services c) (cx_log c3)"
    by (rule mirror_cong(1) [OF _ m(3)]) (simp add: same_store_sel [OF q3])
  then have s4: "service_mirror s (cx_services ?c4) (cx_log ?c4)"
    using service_mirror_remove [OF assms(1)] q3 by (simp add: same_store_def)
  have "backend_mirror s (cx_backends c) (cx_log ?c4)"
    by (rule mirror_cong(2) [OF _ m(4)]) (use sdir.other_dir(3) [OF assms(1) m(2)] same_store_sel [OF q3] in simp)
  then have b4: "backend_mirror s (cx_backends ?c4) (cx_log ?c4)" using q3 by (simp add: same_store_def)
  have "reloadable E ?c4"
    by (rule reloadable_sub [OF m(5)]) (use same_store_sel [OF q3] in \<open>auto split: if_splits\<close>)
  then have "mirrored E s ?c4" using m s4 b4 st3 by (simp add: mirrored_def)
  moreover obtain q c5 where k: "clean_backends E vs (range_keys E (cx_log ?c4) (cx_backends ?c4)) ?c4 = (q, c5)" by force
  moreover have body: "q \<noteq> Panic \<and> (q = Ok () \<longrightarrow> c' = snd (on_log (disco_Remove E (cx_disco c5) i) c5)) \<and> (\<forall>x. q = Fail x \<longrightarrow> c' = c5)"
    using assms(3,5) Some a e w k by (auto simp: removeService_def drop_service_def split: outcome.splits)
  ultimately have "mirrored E s c5" using mirrored_clean_backends [OF assms(1)] by blast
  then show ?thesis
    using body on_log_same_snd [of "disco_Remove E (cx_disco c5) i" c5] mirrored_same
    by (cases q) auto
qed

section \<open>Synchronization\<close>

lemma removeService_accepted:
  assumes "accepts_all E" "ctx_wf E c" "removeService E i c = (r, c')"
  shows "r \<noteq> Fail ErrIpvsSyscallFailed"
proof
  assume r: "r = Fail ErrIpvsSyscallFailed"
  then obtain vs where vs: "gget (cx_services c) i = Some vs"
    using assms(3) by (cases "gget (cx_services c) i") (auto simp: removeService_def)
  have v: "ValidProtocol (so_Protocol (s_options vs))"
    using wf_service [OF assms(2) vs] by (simp add: service_wf_def service_filled_def)
  let ?d = "ipvs_DelService E (ip_String (so_host (s_options vs))) (so_Port (s_options vs)) (so_Protocol (s_options vs))"
  obtain e c3 where a: "on_log ?d (del_vip E (s_options vs) (drop_service i c)) = (e, c3)" by force
  have "e = None" using a shim_accepted(3) [OF assms(1) v] by (auto simp: on_log_eq) (metis fst_conv)
  then show False
    using assms(3) vs a r clean_backends_effect
    by (auto simp: removeService_def drop_service_def split: outcome.splits prod.splits)
      (metis clean_backends_effect outcome.distinct(1) outcome.distinct(5))
qed

lemma removeBackend_accepted:
  assumes "accepts_all E" "ctx_wf E c" "removeBackend E v k c = (r, c')"
  shows "r \<noteq> Fail ErrIpvsSyscallFailed"
proof (cases "gget (cx_backends c) k")
  case None
  with assms(3) show ?thesis by (auto simp: removeBackend_def)
next
  case (Some b)
  have v: "ValidProtocol (so_Protocol (s_options (b_service b)))"
    using wf_backend [OF assms(2) Some] by (simp add: backend_wf_def service_wf_def service_filled_def)
  show ?thesis
    using assms(3) Some shim_accepted(4) [OF assms(1) v]
    by (auto simp: removeBackend_def pulse_Stop_def on_log_def split: if_splits prod.splits option.splits) (metis fst_conv option.distinct(1))
qed

text \<open>What the entries read from the store satisfy.\<close>

definition plain_keys :: "'a gomap \<Rightarrow> bool" where
  "plain_keys m \<longleftrightarrow> (\<forall>k. gget m k \<noteq> None \<longrightarrow> CHR ''/'' \<notin> set k)"

definition decoded_map :: "BackendOptions gomap \<Rightarrow> bool" where
  "decoded_map m \<longleftrightarrow> plain_keys m \<and> (\<forall>k bo. gget m k = Some bo \<longrightarrow> decoded_args bo)"

definition mirror_inv :: "env \<Rightarrow> Store \<Rightarrow> ctx \<Rightarrow> bool" where
  "mirror_inv E s c \<longleftrightarrow> ctx_wf E c \<and> mirrored E s c"

text \<open>
  Every operation of a synchronization, on a kernel and a store that do as asked.
\<close>

definition mirror_env :: "env \<Rightarrow> bool" where
  "mirror_env E \<longleftrightarrow> kv_exact E \<and> resolver_stable E \<and> accepts_all E"

lemma mirror_steps:
  assumes "mirror_env E" "mirror_inv E s c"
  shows "createService E i so c = (r, c') \<Longrightarrow> CHR ''/'' \<notin> set i \<Longrightarrow> mirror_inv E s c'"
    and "createBackend E v k bo c = (x, c') \<Longrightarrow> CHR ''/'' \<notin> set k \<Longrightarrow> decoded_args bo \<Longrightarrow> mirror_inv E s c'"
    and "removeService E i c = (y, c') \<Longrightarrow> y \<noteq> Panic \<Longrightarrow> mirror_inv E s c'"
    and "removeBackend E v k c = (z, c') \<Longrightarrow> z \<noteq> Panic \<Longrightarrow> mirror_inv E s c'"
proof -
  have e: "kv_exact E" "resolver_stable E" "accepts_all E" and c: "ctx_wf E c" "mirrored E s c"
    using assms by (simp_all add: mirror_env_def mirror_inv_def)
  show "mirror_inv E s c'" if "createService E i so c = (r, c')" "CHR ''/'' \<notin> set i"
    using mirrored_createService [OF e(1,2) c that(2,1)] wf_createService [OF c(1), of i so] that e(3) by (simp add: mirror_inv_def)
  show "mirror_inv E s c'" if "createBackend E v k bo c = (x, c')" "CHR ''/'' \<notin> set k" "decoded_args bo"
    using mirrored_createBackend [OF e(1,2) c that(2,3,1)] wf_createBackend [OF c(1), of v k bo] that e(3) by (simp add: mirror_inv_def)
  show "mirror_inv E s c'" if "removeService E i c = (y, c')" "y \<noteq> Panic"
    using mirrored_removeService [OF e(1) c(2) that(1) removeService_accepted [OF e(3) c(1) that(1)] that(2)]
      wf_removeService [OF c(1), of i] that by (simp add: mirror_inv_def)
  show "mirror_inv E s c'" if "removeBackend E v k c = (z, c')" "z \<noteq> Panic"
    using mirrored_removeBackend [OF e(1) c(2) that(1) removeBackend_accepted [OF e(3) c(1) that(1)] that(2)]
      wf_removeBackend [OF c(1), of v k] that by (simp add: mirror_inv_def)
qed

lemma mirror_sync_del_services:
  assumes "mirror_env E" "mirror_inv E s c" "sync_del_services E ext ks c = (r, c')" "r \<noteq> Panic"
  shows "mirror_inv E s c'"
  using assms(2,3)
proof (induction ks arbitrary: c)
  case (Cons k ks)
  obtain y c1 where r1: "removeService E k c = (y, c1)" by force
  with Cons mirror_steps(3) [OF assms(1) Cons.prems(1) r1] assms(4) show ?case by (auto split: if_splits)
qed simp

lemma mirror_sync_service:
  assumes "mirror_env E" "mirror_inv E s c" "sync_service E k opts c = (r, c')" "r \<noteq> Panic" "CHR ''/'' \<notin> set k"
  shows "mirror_inv E s c'"
proof -
  obtain y c1 where r1: "removeService E k c = (y, c1)" by force
  note m1 = mirror_steps(3) [OF assms(1,2) r1]
  show ?thesis
    using assms(2-5) r1 mirror_steps(1) [OF assms(1,2), of k opts r c'] mirror_steps(1) [OF assms(1) m1, of k opts r c']
    by (auto simp: sync_service_def split: option.splits if_splits)
qed

lemma mirror_sync_add_services:
  assumes "mirror_env E" "mirror_inv E s c" "sync_add_services E ext ks c = (r, c')" "r \<noteq> Panic" "plain_keys ext"
  shows "mirror_inv E s c'"
  using assms(2,3)
proof (induction ks arbitrary: c)
  case (Cons k ks)
  show ?case
  proof (cases "gget ext k")
    case (Some opts)
    obtain y c1 where r1: "sync_service E k opts c = (y, c1)" by force
    have "CHR ''/'' \<notin> set k" using assms(5) Some by (auto simp: plain_keys_def)
    with mirror_sync_service [OF assms(1) Cons.prems(1) r1] Cons Some r1 assms(4) show ?thesis by (auto split: if_splits)
  qed (use Cons in simp)
qed simp

lemma mirror_sync_del_backends:
  assumes "mirror_env E" "mirror_inv E s c" "sync_del_backends E ext ks c = (r, c')" "r \<noteq> Panic"
  shows "mirror_inv E s c'"
  using assms(2,3)
proof (induction ks arbitrary: c)
  case (Cons k ks)
  show ?case
  proof (cases "gget (cx_backends c) k")
    case (Some b)
    let ?v = "if 0 < length (bo_VsID (b_options b)) then bo_VsID (b_options b) else ''(unknown)''"
    obtain y c1 where r1: "removeBackend E ?v k c = (y, c1)" by force
    with Cons Some mirror_steps(4) [OF assms(1) Cons.prems(1) r1] assms(4) show ?thesis
      by (cases "gget ext k") (auto split: if_splits)
  qed (use Cons in simp)
qed simp

lemma mirror_sync_backend:
  assumes "mirror_env E" "mirror_inv E s c" "sync_backend E k opts c = (r, c')" "r \<noteq> Panic" "CHR ''/'' \<notin> set k" "decoded_args opts"
  shows "mirror_inv E s c'"
proof -
  obtain y c1 where r1: "removeBackend E (bo_VsID opts) k c = (y, c1)" by force
  note m1 = mirror_steps(4) [OF assms(1,2) r1]
  show ?thesis
    using assms(2-6) r1 mirror_steps(2) [OF assms(1,2), of "bo_VsID opts" k opts r c']
      mirror_steps(2) [OF assms(1) m1, of "bo_VsID opts" k opts r c']
    by (auto simp: sync_backend_def split: option.splits if_splits)
qed

lemma mirror_sync_add_backends:
  assumes "mirror_env E" "mirror_inv E s c" "sync_add_backends E ext ks c = (r, c')" "r \<noteq> Panic" "decoded_map ext"
  shows "mirror_inv E s c'"
  using assms(2,3)
proof (induction ks arbitrary: c)
  case (Cons k ks)
  show ?case
  proof (cases "gget ext k")
    case (Some opts)
    obtain y c1 where r1: "sync_backend E k opts c = (y, c1)" by force
    have "CHR ''/'' \<notin> set k" "decoded_args opts" using assms(5) Some by (auto simp: decoded_map_def plain_keys_def)
    with mirror_sync_backend [OF assms(1) Cons.prems(1) r1] Cons Some r1 assms(4) show ?thesis by (auto split: if_splits)
  qed (use Cons in simp)
qed simp

lemma mirror_Synchronize:
  assumes "mirror_env E" "mirror_inv E s c" "Synchronize E sv bk c = (r, c')" "r \<noteq> Panic" "plain_keys sv" "decoded_map bk"
  shows "mirror_inv E s c'"
proof -
  from assms(3,4) obtain r1 c1 r2 c2 r3 c3 where
    1: "sync_del_services E sv (range_keys E (cx_log c) (cx_services c)) c = (r1, c1)" "r1 \<noteq> Panic" and
    2: "sync_add_services E sv (range_keys E (cx_log c1) sv) c1 = (r2, c2)" "r2 \<noteq> Panic" and
    3: "sync_del_backends E bk (range_keys E (cx_log c2) (cx_backends c2)) c2 = (r3, c3)" "r3 \<noteq> Panic" and
    4: "sync_add_backends E bk (range_keys E (cx_log c3) bk) c3 = (r, c')"
    by (rule Synchronize_loops)
  note m1 = mirror_sync_del_services [OF assms(1,2) 1]
  note m2 = mirror_sync_add_services [OF assms(1) m1 2 assms(5)]
  note m3 = mirror_sync_del_backends [OF assms(1) m2 3]
  show ?thesis by (rule mirror_sync_add_backends [OF assms(1) m3 4 assms(4,6)])
qed

section \<open>Properties\<close>


text \<open>A world whose store keeps what is put there.\<close>

definition store_env :: env where
  "store_env = kernel_env\<lparr>kvExists := (\<lambda>l k. Inr (kv_table l k \<noteq> None))\<rparr>"

definition the_store :: Store where
  "the_store = \<lparr>storeServicePath = ''gorb/services'', storeBackendPath = ''gorb/backends''\<rparr>"

definition stored_ctx :: ctx where
  "stored_ctx = (new_ctx [])\<lparr>cx_store := Some the_store\<rparr>"

definition sweb_ctx :: ctx where
  "sweb_ctx = snd (createService store_env ''web'' web_opts stored_ctx)"

definition snode_ctx :: ctx where
  "snode_ctx = snd (createBackend store_env ''web'' ''n1'' node_opts sweb_ctx)"

lemma store_env_ok [simp]: "kv_exact store_env" "resolver_stable store_env" "kernel_ok store_env" "fair_iter store_env"
proof -
  show "kv_exact store_env" "resolver_stable store_env"
    by (auto simp: kv_exact_def resolver_stable_def store_env_def kernel_env_def)
  show "kernel_ok store_env" using kernel_ok_env(1) by (simp add: kernel_ok_def store_env_def)
  show "fair_iter store_env" using kernel_ok_env(2) by (simp add: fair_iter_def store_env_def)
qed

lemma stored_ctx_ok: "ctx_wf store_env stored_ctx" "mirrored store_env the_store stored_ctx" "consistent store_env stored_ctx"
proof -
  have "apart (storeServicePath the_store) (storeBackendPath the_store)" by code_simp
  moreover have "rel_option stored_as None None" by simp
  ultimately show "mirrored store_env the_store stored_ctx"
    by (auto simp: mirrored_def stored_ctx_def service_mirror_def backend_mirror_def mirrors_def reloadable_def
        intro!: exI [of _ Map.empty])
  show "consistent store_env stored_ctx"
    by (simp add: stored_ctx_def consistent_def agree_def linked_def running_def gget_gempty_fun tabled_empty ctx_wf_def wf_maps_def)
  then show "ctx_wf store_env stored_ctx" by (simp add: consistent_def)
qed



definition willing_env :: env where
  "willing_env = ok_env\<lparr>kvExists := (\<lambda>l k. Inr (kv_table l k \<noteq> None))\<rparr>"

lemma willing_env_ok [simp]: "kv_exact willing_env" "resolver_stable willing_env" "accepts_all willing_env" "fair_iter willing_env"
  using fair_ok_env by (auto simp: kv_exact_def resolver_stable_def accepts_all_def fair_iter_def willing_env_def)

lemma stored_ctx_willing: "ctx_wf willing_env stored_ctx" "mirrored willing_env the_store stored_ctx"
  using stored_ctx_ok(2)
  by (simp_all add: mirrored_def reloadable_def stored_ctx_def ctx_wf_def wf_maps_def)


text \<open>
  Claim C37. A creation that the kernel refuses has written its document already, and nothing takes it back;
  a creation under the same name that then succeeds leaves that document, since it does not overwrite: the
  context has the options of the second request and the store those of the first, until a synchronization
  puts the refused ones in place.
\<close>

theorem refused_creation_stays_in_store:
  assumes "kv_exact E" and "mirrored E s c"
    and "createService E i so c = (Fail ErrIpvsSyscallFailed, c1)" and "createService E i so2 c1 = (Ok (), c2)"
  shows "gget (cx_services c1) i = None \<and>
    (\<exists>o1 o2 vs. fst (service_Fill E (cx_endpoint c) so (cx_log c)) = Inr o1 \<and>
      fst (service_Fill E (cx_endpoint c) so2 (cx_log c1)) = Inr o2 \<and>
      gget (cx_services c2) i = Some vs \<and> service_doc (s_options vs) = service_doc o2 \<and>
      kv_table (cx_log c2) (storeServicePath s @ ''/'' @ i) = Some (Some (service_json o1)))"
proof -
  have m: "cx_store c = Some s" "service_mirror s (cx_services c) (cx_log c)" using assms(2) by (simp_all add: mirrored_def)
  let ?k = "storeServicePath s @ ''/'' @ i"
  have js: "service_json (x\<lparr>so_delIfAddr := y\<rparr>) = service_json x" for x y by (simp add: service_json_def)
  from assms(3) m(1) show ?thesis
  proof (cases rule: createService_store)
    case (refused o1 opts l l1 l')
    have "kv_table l' ?k = Some (Some (service_json opts))"
      using sdir.create_ok [OF assms(1) refused(6)] refused(5) service_mirrorD [OF m(2), of i] refused(2) by simp
    then have t1: "kv_table (cx_log c1) ?k = Some (Some (service_json o1))"
      using same_store_sel(5) [OF refused(7)] refused(4) js by auto
    have f1: "cx_store c1 = Some s" "cx_services c1 = cx_services c" "cx_endpoint c1 = cx_endpoint c"
      using same_store_sel [OF refused(7)] m(1) by simp_all
    from assms(4) f1(1) show ?thesis
    proof (cases rule: createService_store)
      case (ok o2 opts2 m2 m1 m')
      have "kv_table m' ?k = kv_table (cx_log c1) ?k"
        using sdir.create_ok [OF assms(1) ok(6)] ok(5) t1 by simp
      then have "kv_table (cx_log c2) ?k = Some (Some (service_json o1))"
        using same_store_sel(5) [OF ok(7)] t1 by simp
      moreover have "gget (cx_services c2) i = Some \<lparr>s_addr = cx_next c1, s_options = opts2\<rparr>"
        using same_store_sel(1) [OF ok(7)] by simp
      moreover have "service_doc opts2 = service_doc o2" using ok(4) by (auto simp: service_doc_def)
      ultimately show ?thesis using refused(2,3) ok(3) f1 by auto
    qed simp_all
  qed simp_all
qed

text \<open>A kernel that is out of memory for the first request.\<close>

definition busy_env :: env where
  "busy_env = store_env\<lparr>ipvsDo := (\<lambda>l r. if list_ex (\<lambda>e. case e of EvIpvs _ _ \<Rightarrow> True | _ \<Rightarrow> False) l then kernel_do l r else Some ''ENOMEM'')\<rparr>"

theorem refused_creation_stays_in_store_witness:
  "\<exists>c1 c2 vs. createService busy_env ''web'' web_opts stored_ctx = (Fail ErrIpvsSyscallFailed, c1) \<and>
     createService busy_env ''web'' (web_opts\<lparr>so_Method := ''rr''\<rparr>) c1 = (Ok (), c2) \<and>
     gget (cx_services c2) ''web'' = Some vs \<and> so_Method (s_options vs) = ''rr'' \<and>
     (\<exists>o1. so_Method o1 = ''wrr'' \<and> kv_table (cx_log c2) ''gorb/services/web'' = Some (Some (service_json o1)))"
proof -
  let ?o2 = "web_opts\<lparr>so_Method := ''rr''\<rparr>"
  let ?c1 = "snd (createService busy_env ''web'' web_opts stored_ctx)"
  let ?c2 = "snd (createService busy_env ''web'' ?o2 ?c1)"
  have "fst (createService busy_env ''web'' web_opts stored_ctx) = Fail ErrIpvsSyscallFailed" by code_simp
  then have c: "createService busy_env ''web'' web_opts stored_ctx = (Fail ErrIpvsSyscallFailed, ?c1)" by (simp add: prod_eq_iff)
  have "fst (createService busy_env ''web'' ?o2 ?c1) = Ok ()" by code_simp
  then have d: "createService busy_env ''web'' ?o2 ?c1 = (Ok (), ?c2)" by (simp add: prod_eq_iff)
  have e: "kv_exact busy_env" using store_env_ok(1) by (simp add: kv_exact_def busy_env_def)
  have "mirrored busy_env the_store stored_ctx"
    using stored_ctx_ok(2) by (simp add: mirrored_def reloadable_def stored_ctx_def)
  from refused_creation_stays_in_store [OF e this c d] obtain o1 o2 vs where
    f: "fst (service_Fill busy_env (cx_endpoint stored_ctx) web_opts (cx_log stored_ctx)) = Inr o1"
    "fst (service_Fill busy_env (cx_endpoint stored_ctx) ?o2 (cx_log ?c1)) = Inr o2"
    and v: "gget (cx_services ?c2) ''web'' = Some vs" "service_doc (s_options vs) = service_doc o2"
    "kv_table (cx_log ?c2) ''gorb/services/web'' = Some (Some (service_json o1))" by (auto simp: the_store_def)
  have "so_Method o1 = ''wrr''" "so_Method o2 = ''rr''"
    using service_Fill_eqs(8) [OF prod_eqI [of "service_Fill busy_env (cx_endpoint stored_ctx) web_opts (cx_log stored_ctx)" "(Inr o1, _)"]]
      service_Fill_eqs(8) [OF prod_eqI [of "service_Fill busy_env (cx_endpoint stored_ctx) ?o2 (cx_log ?c1)" "(Inr o2, _)"]] f
    by (simp_all add: web_opts_def)
  moreover have "so_Method (s_options vs) = so_Method (service_doc (s_options vs))" "so_Method o2 = so_Method (service_doc o2)"
    by (simp_all add: service_doc_def)
  ultimately show ?thesis using c d v by metis
qed

end
