(* ===== verification/Gorb_Restart.thy ===== *)
theory Gorb_Restart
  imports Gorb_Mirror
begin

text \<open>
  A daemon that is started again on the store of an earlier one: \<open>NewContext\<close> and \<open>NewStore\<close> run with the
  log of the earlier daemon, so the kernel and the store have what it left there.  When the kernel's
  table is flushed, everything comes back; when it is not, nothing does.
\<close>

section \<open>Reading the store\<close>

text \<open>\<open>List\<close> gives every key below the directory once, with its value, and does not fail.\<close>

definition kv_listed :: "env \<Rightarrow> bool" where
  "kv_listed E \<longleftrightarrow> (\<forall>l d. case kvList E l d of
       KvKeyNotFound \<Rightarrow> (\<forall>i. kv_table l (d @ ''/'' @ i) = None)
     | KvPairs kvs \<Rightarrow> distinct (map fst kvs) \<and>
         (\<forall>k v. (k, v) \<in> set kvs \<longleftrightarrow> (\<exists>i. k = d @ ''/'' @ i) \<and> kv_table l k = Some v)
     | KvError e \<Rightarrow> False)"

lemma kv_listedD:
  assumes "kv_listed E"
  shows "kvList E l d = KvPairs kvs \<Longrightarrow> (k, v) \<in> set kvs \<longleftrightarrow> (\<exists>i. k = d @ ''/'' @ i) \<and> kv_table l k = Some v"
    and "kvList E l d = KvKeyNotFound \<Longrightarrow> kv_table l (d @ ''/'' @ i) = None"
    and "kvList E l d \<noteq> KvError e"
  using assms [unfolded kv_listed_def, rule_format, where l = l and d = d] by (auto split: kv_listing.splits)

lemma read_pairs_step:
  assumes "\<forall>(k, v) \<in> set kvs. \<exists>i x. k = d @ ''/'' @ i \<and> CHR ''/'' \<notin> set i \<and> m i = Some x \<and> dec v = Inr (f x)" and "d \<noteq> []"
  shows "\<exists>ext. fold_sum (\<lambda>(key, val) m. map_sum id (\<lambda>opts. gput (store_getID key) opts m) (dec val)) kvs acc = Inr ext \<and>
    (\<forall>i. gget ext i = (if d @ ''/'' @ i \<in> fst ` set kvs then map_option f (m i) else gget acc i))"
  using assms(1)
proof (induction kvs arbitrary: acc)
  case (Cons kv kvs)
  obtain k v where kv: "kv = (k, v)" by force
  with Cons.prems obtain i x where i: "k = d @ ''/'' @ i" "CHR ''/'' \<notin> set i" "m i = Some x" "dec v = Inr (f x)" by auto
  have "store_getID k = i" unfolding i(1) by (rule getID_path [OF i(2) assms(2)])
  with Cons.IH [of "gput i (f x) acc"] Cons.prems kv i show ?case by auto
qed simp

lemma read_mirror:
  assumes "mirrors d doc m l" "d \<noteq> []" "kv_listed E" "\<And>i x. m i = Some x \<Longrightarrow> dec (Some (doc x)) = Inr (f x)"
  obtains ext where "(case kvList E l d of KvKeyNotFound \<Rightarrow> Inr gempty | KvError e \<Rightarrow> Inl (ErrExternal e)
      | KvPairs kvs \<Rightarrow> read_pairs dec kvs) = Inr ext" "\<And>i. gget ext i = map_option f (m i)"
proof (cases "kvList E l d")
  case (KvPairs kvs)
  note kvs = kv_listedD(1) [OF assms(3) KvPairs]
  have "\<exists>i x. k = d @ ''/'' @ i \<and> CHR ''/'' \<notin> set i \<and> m i = Some x \<and> dec v = Inr (f x)" if kv: "(k, v) \<in> set kvs" for k v
  proof -
    from kv obtain i where i: "k = d @ ''/'' @ i" "kv_table l (d @ ''/'' @ i) = Some v" unfolding kvs by auto
    then obtain x where x: "m i = Some x" "v = Some (doc x)" using mirrorsD(1) [OF assms(1), of i] by (cases "m i") auto
    with i mirrorsD(2) [OF assms(1) x(1)] assms(4) [OF x(1)] show ?thesis by blast
  qed
  then have "\<forall>(k, v) \<in> set kvs. \<exists>i x. k = d @ ''/'' @ i \<and> CHR ''/'' \<notin> set i \<and> m i = Some x \<and> dec v = Inr (f x)" by blast
  from read_pairs_step [OF this assms(2), of gempty] obtain ext where e: "read_pairs dec kvs = Inr ext"
    "\<And>i. gget ext i = (if d @ ''/'' @ i \<in> fst ` set kvs then map_option f (m i) else None)"
    unfolding read_pairs_def by auto
  have "d @ ''/'' @ i \<in> fst ` set kvs \<longleftrightarrow> m i \<noteq> None" for i
    using kvs [of "d @ ''/'' @ i"] mirrorsD(1) [OF assms(1), of i] by (force simp: image_iff)
  with that [of ext] e KvPairs show thesis by auto
next
  case KvKeyNotFound
  then have "m i = None" for i
    using kv_listedD(2) [OF assms(3) KvKeyNotFound, of i] mirrorsD(1) [OF assms(1), of i] by (cases "m i") auto
  with that [of gempty] KvKeyNotFound show thesis by auto
next
  case (KvError e)
  with kv_listedD(3) [OF assms(3)] show thesis by blast
qed

lemma read_services:
  assumes "service_mirror s sv l" "storeServicePath s \<noteq> []" "kv_listed E"
  obtains ext where "getExternalServices E s l = Inr ext" "\<And>i. gget ext i = map_option (\<lambda>v. service_doc (s_options v)) (gget sv i)"
  by (rule read_mirror [OF assms(1) [unfolded service_mirror_def] assms(2,3), of service_unmarshal service_doc])
    (auto simp: service_document service_doc_def getExternalServices_def option.map_comp o_def)

lemma read_backends:
  assumes "backend_mirror s bk l" "storeBackendPath s \<noteq> []" "kv_listed E"
    and "\<And>k b. gget bk k = Some b \<Longrightarrow> backend_reloads E (b_options b)"
  obtains ext where "getExternalBackends E s l = Inr ext"
    "\<And>k. rel_option (\<lambda>d b. \<exists>w. w \<noteq> 0 \<and> d = backend_doc (b_options b\<lparr>bo_Weight := w\<rparr>)) (gget ext k) (gget bk k)"
proof -
  obtain sb where m: "mirrors (storeBackendPath s) backend_json sb l"
    and r: "\<And>k. rel_option stored_as (sb k) (map_option b_options (gget bk k))"
    using assms(1) unfolding backend_mirror_def by blast
  have dec: "backend_unmarshal (Some (backend_json x)) = Inr (backend_doc x)" if k: "sb k = Some x" for k x
  proof -
    from r [of k] k obtain b where b: "gget bk k = Some b" "stored_as x (b_options b)"
      by (cases "gget bk k") auto
    have "bo_Pulse x = bo_Pulse (b_options b)" using b(2) unfolding stored_as_def by (metis BackendOptions.select_convs(5) BackendOptions.surjective BackendOptions.update_convs(3))
    with assms(4) [OF b(1)] show ?thesis
      unfolding backend_doc_def by (intro backend_document) (auto simp: backend_reloads_def pulse_reloads_def)
  qed
  obtain ext where e: "getExternalBackends E s l = Inr ext" "\<And>i. gget ext i = map_option backend_doc (sb i)"
    by (rule read_mirror [OF m assms(2,3), of backend_unmarshal backend_doc]) (auto simp: dec getExternalBackends_def)
  have "rel_option (\<lambda>d b. \<exists>w. w \<noteq> 0 \<and> d = backend_doc (b_options b\<lparr>bo_Weight := w\<rparr>)) (gget ext k) (gget bk k)" for k
    using r [of k] by (cases "sb k"; cases "gget bk k") (auto simp: e(2) stored_as_def)
  with that e(1) show thesis by blast
qed


section \<open>Creations that succeed\<close>

text \<open>A store that answers, and a kernel that refuses only what its documentation says.\<close>

definition kv_up :: "env \<Rightarrow> bool" where
  "kv_up E \<longleftrightarrow> (\<forall>l k. kvExists E l k = Inr (kv_table l k \<noteq> None))"

definition kernel_exact :: "env \<Rightarrow> bool" where
  "kernel_exact E \<longleftrightarrow> kernel_ok E \<and>
     (\<forall>l s. ipvs_table l (svc_key s) = None \<longrightarrow> ipvsDo E l (NewService s) = None) \<and>
     (\<forall>l s d x. ipvs_table l (svc_key s) = Some x \<longrightarrow> vs_dests x (dest_key d) = None \<longrightarrow>
        ipvsDo E l (NewDestination s d) = None)"

lemma kernel_takes_service:
  assumes "kernel_exact E" "ValidProtocol pr" "ipvs_table l (vkey_of v p pr) = None"
  shows "fst (ipvs_AddService E v p pr sc fs l) = None"
proof -
  obtain svc where svc: "createSvcKey v pr p = Inr svc" "svc_key svc = vkey_of v p pr"
    using createSvcKey_valid [OF assms(2)] by blast
  have "svc_key (svc\<lparr>sv_SchedName := sc, sv_Flags := createFlagbits (libconsts E) fs, sv_Mask := NOT 0\<rparr>) = vkey_of v p pr"
    using svc(2) by (simp add: svc_key_def)
  then show ?thesis using assms(1,3) svc by (simp add: ipvs_AddService_def ipvs_call_def kernel_exact_def Let_def)
qed

lemma kernel_takes_dest:
  assumes "kernel_exact E" "ValidProtocol pr" "ValidForwarding (libconsts E) f"
    and "ipvs_table l (vkey_of v p pr) = Some x" "vs_dests x (rkey_of r rp) = None"
  shows "fst (ipvs_AddDestPort E v p r rp pr w f l) = None"
proof -
  obtain svc where svc: "createSvcKey v pr p = Inr svc" "svc_key svc = vkey_of v p pr"
    using createSvcKey_valid [OF assms(2)] by blast
  obtain fwd where "backendForwarding (libconsts E) f = Some fwd" using assms(3) by (auto simp: ValidForwarding_def)
  moreover have "dest_key (createDest r rp fwd w) = rkey_of r rp" by (simp add: dest_key_def createDest_def rkey_of_def)
  ultimately show ?thesis using assms(1,4,5) svc by (simp add: ipvs_AddDestPort_def ipvs_call_def kernel_exact_def Let_def)
qed

lemma store_put_present: "kv_up E \<Longrightarrow> kv_table l k \<noteq> None \<Longrightarrow> fst (store_put E k v False l) = None"
  by (auto simp: store_put_def kv_up_def kv_exists_call_def)

lemma createService_succeeds:
  assumes "kv_up E" "kernel_exact E" "cx_store c = Some s" "gget (cx_services c) i = None"
    and "fst (service_Fill E (cx_endpoint c) opts0 (cx_log c)) = Inr o1"
    and "kv_table (cx_log c) (storeServicePath s @ ''/'' @ i) \<noteq> None" "ipvs_table (cx_log c) (opts_vkey o1) = None"
  shows "fst (createService E i opts0 c) = Ok ()"
proof -
  obtain l where fill: "service_Fill E (cx_endpoint c) opts0 (cx_log c) = (Inr o1, l)" using assms(5) by (metis prod.collapse)
  have l: "kv_table l = kv_table (cx_log c)" "ipvs_table l = ipvs_table (cx_log c)"
    using kv_table_fill(1) [of E "cx_endpoint c" opts0 "cx_log c"] svc.fill_table [of E "cx_endpoint c" opts0 "cx_log c"] fill by simp_all
  let ?c1 = "c\<lparr>cx_log := l\<rparr>"
  obtain opts c2 where v: "add_vip E o1 ?c1 = (opts, c2)" by force
  note v' = add_vip_same [OF v] add_vip_quiet [OF v]
  have c2: "cx_store c2 = Some s" "kv_table (cx_log c2) = kv_table (cx_log c)" "ipvs_table (cx_log c2) = ipvs_table (cx_log c)"
    "opts_vkey opts = opts_vkey o1" "so_Protocol opts = so_Protocol o1"
    using v' assms(3) l by (auto simp: same_store_def quiet_sel(11))
  obtain e l3 where st: "store_CreateService E s i opts (cx_log c2) = (e, l3)" by force
  have "e = None" using store_put_present [OF assms(1)] st assms(6) c2(2) by (metis store_CreateService_def fst_conv)
  then have w: "with_store (\<lambda>s. store_CreateService E s i opts) c2 = (None, c2\<lparr>cx_log := l3\<rparr>)"
    by (simp add: with_store_def c2(1) on_log_def st)
  have t3: "ipvs_table l3 (opts_vkey opts) = None" using store_tables(1) [of E s i opts "cx_log c2"] st c2(3,4) assms(7) by simp
  have "ValidProtocol (so_Protocol opts)" using svc.fill_filled [OF fill] c2(5) by (simp add: service_filled_def)
  from kernel_takes_service [OF assms(2) this, of l3] t3
  obtain l4 where a: "ipvs_AddService E (ip_String (so_host opts)) (so_Port opts)
      (so_Protocol opts) (so_Method opts) (service_flags opts) l3 = (None, l4)"
    unfolding opts_vkey_def by (metis prod.collapse)
  show ?thesis
    using assms(4) by (simp add: createService_def on_log_def fill v w a split_beta Let_def)
qed

lemma createBackend_succeeds:
  assumes "kv_up E" "kernel_exact E" "cx_store c = Some s" "gget (cx_backends c) k = None" "gget (cx_services c) v = Some vs"
    and "service_filled E (s_options vs)" "fst (backend_Fill E opts0 (cx_log c)) = Inr o1"
    and "\<And>l ch. \<exists>p. pulse_New E l ch (ip_String (bo_host o1)) (bo_Port o1)
         (case bo_Pulse o1 of None \<Rightarrow> zero_PulseOptions | Some po \<Rightarrow> po) = Ok (p, po)"
    and "AddrFamily (bo_host o1) = AddrFamily (so_host (s_options vs))"
    and "kv_table (cx_log c) (storeBackendPath s @ ''/'' @ k) \<noteq> None"
    and "ipvs_table (cx_log c) (svc_vkey vs) = Some x" "vs_dests x (bck_rkey o1) = None"
  shows "fst (createBackend E v k opts0 c) = Ok ()"
proof -
  obtain l where fill: "backend_Fill E opts0 (cx_log c) = (Inr o1, l)" using assms(7) by (metis prod.collapse)
  have l: "kv_table l = kv_table (cx_log c)" "ipvs_table l = ipvs_table (cx_log c)"
    using kv_table_fill(2) [of E opts0 "cx_log c"] bck.fill_table [of E opts0 "cx_log c"] fill by simp_all
  obtain p where p: "pulse_New E l (cx_next c) (ip_String (bo_host o1)) (bo_Port o1)
         (case bo_Pulse o1 of None \<Rightarrow> zero_PulseOptions | Some po \<Rightarrow> po) = Ok (p, po)" using assms(8) by blast
  let ?o = "o1\<lparr>bo_Pulse := Some po, bo_VsID := v\<rparr>"
  obtain e l2 where st: "store_put E (storeBackendPath s @ ''/'' @ k) (Some (backend_json ?o)) False l = (e, l2)" by force
  have "e = None" using store_put_present [OF assms(1)] st assms(10) l(1) by (metis fst_conv)
  then have b: "store_backend E v k (o1\<lparr>bo_Pulse := Some po\<rparr>) (c\<lparr>cx_log := l\<rparr>) = ((None, ?o), c\<lparr>cx_log := l2\<rparr>)"
    using st by (simp add: store_backend_def assms(3) on_log_def store_CreateBackend_def)
  have t: "ipvs_table l2 = ipvs_table (cx_log c)" using store_put_table [of E _ _ False l] st l(2) by (metis snd_conv)
  have pv: "ValidProtocol (so_Protocol (s_options vs))" using assms(6) by (simp add: service_filled_def)
  have fv: "ValidForwarding (libconsts E) (bo_Method ?o)" using bck.fill_filled [OF fill] by (simp add: backend_filled_def)
  have "fst (ipvs_AddDestPort E (ip_String (so_host (s_options vs))) (so_Port (s_options vs))
      (ip_String (bo_host ?o)) (bo_Port ?o) (so_Protocol (s_options vs)) (bo_Weight ?o) (bo_Method ?o) l2) = None"
    by (rule kernel_takes_dest [OF assms(2) pv fv, where x = x])
      (use assms(11,12) t in \<open>simp_all add: svc_vkey_def bck_rkey_def\<close>)
  then obtain l3 where a: "ipvs_AddDestPort E (ip_String (so_host (s_options vs))) (so_Port (s_options vs))
      (ip_String (bo_host ?o)) (bo_Port ?o) (so_Protocol (s_options vs)) (bo_Weight ?o) (bo_Method ?o) l2 = (None, l3)"
    by (metis prod.collapse)
  show ?thesis
    using assms(4,5,9) a by (simp add: createBackend_def on_log_def fill p b)
qed


section \<open>Coming back\<close>

text \<open>
  Options that came back: a service may have got or lost the duty to remove its address, a backend has the
  weight that was stored.
\<close>

definition restored_service :: "service \<Rightarrow> service \<Rightarrow> bool" where
  "restored_service new old \<longleftrightarrow> (\<exists>x. s_options new = s_options old\<lparr>so_delIfAddr := x\<rparr>)"

definition restored_backend :: "backend \<Rightarrow> backend \<Rightarrow> bool" where
  "restored_backend new old \<longleftrightarrow> (\<exists>w. w \<noteq> 0 \<and> b_options new = b_options old\<lparr>bo_Weight := w\<rparr>) \<and>
     restored_service (b_service new) (b_service old)"

lemma restored_keys:
  "restored_service v' v \<Longrightarrow> svc_vkey v' = svc_vkey v" "restored_backend b' b \<Longrightarrow> bck_key b' = bck_key b"
  by (auto simp: restored_service_def restored_backend_def svc_vkey_def bck_key_def bck_rkey_def)

text \<open>The new context has some of the objects of the old one, and the store is as it was.\<close>

definition coming_back :: "env \<Rightarrow> Store \<Rightarrow> ctx \<Rightarrow> ctx \<Rightarrow> bool" where
  "coming_back E s c n \<longleftrightarrow> consistent E n \<and> cx_store n = Some s \<and> cx_endpoint n = cx_endpoint c \<and>
     (\<forall>i. kv_table (cx_log n) (storeServicePath s @ ''/'' @ i) = kv_table (cx_log c) (storeServicePath s @ ''/'' @ i)) \<and>
     (\<forall>k. kv_table (cx_log n) (storeBackendPath s @ ''/'' @ k) = kv_table (cx_log c) (storeBackendPath s @ ''/'' @ k)) \<and>
     (\<forall>i v'. gget (cx_services n) i = Some v' \<longrightarrow> (\<exists>v. gget (cx_services c) i = Some v \<and> restored_service v' v)) \<and>
     (\<forall>k b'. gget (cx_backends n) k = Some b' \<longrightarrow> (\<exists>b. gget (cx_backends c) k = Some b \<and> restored_backend b' b))"

definition restart_env :: "env \<Rightarrow> bool" where
  "restart_env E \<longleftrightarrow> kv_exact E \<and> kv_up E \<and> kv_listed E \<and> kernel_exact E \<and> fair_iter E"

lemma restart_envD:
  assumes "restart_env E"
  shows "kv_exact E" "kv_up E" "kv_listed E" "kernel_exact E" "kernel_ok E" "fair_iter E"
  using assms by (simp_all add: restart_env_def kernel_exact_def)

lemma mirroredD:
  assumes "mirrored E s c"
  shows "apart (storeServicePath s) (storeBackendPath s)" "service_mirror s (cx_services c) (cx_log c)"
    "backend_mirror s (cx_backends c) (cx_log c)" "reloadable E c" "cx_store c = Some s"
  using assms by (simp_all add: mirrored_def)

lemma coming_backD:
  assumes "coming_back E s c n"
  shows "consistent E n" "cx_store n = Some s" "cx_endpoint n = cx_endpoint c"
    "kv_table (cx_log n) (storeServicePath s @ ''/'' @ i) = kv_table (cx_log c) (storeServicePath s @ ''/'' @ i)"
    "kv_table (cx_log n) (storeBackendPath s @ ''/'' @ i) = kv_table (cx_log c) (storeBackendPath s @ ''/'' @ i)"
    "gget (cx_services n) i = Some v' \<Longrightarrow> \<exists>v. gget (cx_services c) i = Some v \<and> restored_service v' v"
    "gget (cx_backends n) i = Some b' \<Longrightarrow> \<exists>b. gget (cx_backends c) i = Some b \<and> restored_backend b' b"
  using assms unfolding coming_back_def by blast+

lemma restore_service:
  assumes e: "restart_env E" and c: "consistent E c" "mirrored E s c" and n: "coming_back E s c n"
    and v: "gget (cx_services c) i = Some v" and i: "gget (cx_services n) i = None"
    and cr: "createService E i (service_doc (s_options v)) n = (r, n')"
  shows "coming_back E s c n'" "gget (cx_services n') i \<noteq> None"
    "gget (cx_services n) j \<noteq> None \<Longrightarrow> gget (cx_services n') j \<noteq> None" "cx_backends n' = cx_backends n" "r = Ok ()"
proof -
  note e = restart_envD [OF e] and c' = mirroredD [OF c(2)] and n' = coming_backD [OF n]
  let ?o = "s_options v\<lparr>so_delIfAddr := False\<rparr>"
  have doc: "kv_table (cx_log n) (storeServicePath s @ ''/'' @ i) \<noteq> None"
    using service_mirrorD [OF c'(2), of i] v n'(4) by simp
  have fill: "fst (service_Fill E (cx_endpoint n) (service_doc (s_options v)) (cx_log n)) = Inr ?o"
    using c'(4) v n'(3) by (simp add: reloadable_def service_reloads_def)
  have new: "ipvs_table (cx_log n) (opts_vkey ?o) = None"
  proof (rule ccontr)
    assume "ipvs_table (cx_log n) (opts_vkey ?o) \<noteq> None"
    then obtain x where x: "svc_part (ipvs_table (cx_log n)) (svc_vkey v) = Some x"
      by (auto simp: svc_part_def svc_vkey_opts)
    have "tabled (svc_part (ipvs_table (cx_log n))) (gget (cx_services n)) svc_vkey (svc_attr E)"
      using n'(1) by (simp add: consistent_def agree_def)
    from tabledD(2) [OF this x] obtain j v' where j: "gget (cx_services n) j = Some v'" "svc_vkey v' = svc_vkey v" by blast
    from n'(6) [OF j(1)] obtain u where u: "gget (cx_services c) j = Some u" "restored_service v' u" by blast
    with restored_keys(1) j(2) consistentD(5) [OF c(1) u(1) v] j(1) i show False by simp
  qed
  have "r = Ok ()"
    using createService_succeeds [OF e(2,4) n'(2) i fill doc new] cr by simp
  from cr n'(2) have "coming_back E s c n' \<and> gget (cx_services n') i \<noteq> None \<and>
      (gget (cx_services n) j \<noteq> None \<longrightarrow> gget (cx_services n') j \<noteq> None) \<and> cx_backends n' = cx_backends n"
  proof (cases rule: createService_store)
    case (ok o1 opts l l1 l')
    note f = same_store_sel [OF ok(7)]
    have "o1 = ?o" using fill ok(3) by simp
    then have rs: "restored_service \<lparr>s_addr = cx_next n, s_options = opts\<rparr> v"
      using ok(4) by (auto simp: restored_service_def)
    have kv: "kv_table (cx_log n') = kv_table (cx_log n)"
      using sdir.create_ok [OF e(1) ok(6)] doc f(5) ok(5) by auto
    have "consistent E n'" using consistent_createService [OF e(5) n'(1), of i "service_doc (s_options v)"] cr by simp
    moreover have "\<exists>u. gget (cx_services c) j = Some u \<and> restored_service v' u"
      if "gget (cx_services n') j = Some v'" for j v'
      using that rs v n'(6) by (cases "j = i") (auto simp: f)
    ultimately have "coming_back E s c n'"
      using n'(2-5,7) kv by (simp add: coming_back_def f)
    then show "coming_back E s c n' \<and> gget (cx_services n') i \<noteq> None \<and>
      (gget (cx_services n) j \<noteq> None \<longrightarrow> gget (cx_services n') j \<noteq> None) \<and> cx_backends n' = cx_backends n"
      by (simp add: f)
  qed (use \<open>r = Ok ()\<close> in simp_all)
  then show "coming_back E s c n'" "gget (cx_services n') i \<noteq> None"
    "gget (cx_services n) j \<noteq> None \<Longrightarrow> gget (cx_services n') j \<noteq> None" "cx_backends n' = cx_backends n" "r = Ok ()"
    using \<open>r = Ok ()\<close> by blast+
qed


lemma restore_backend:
  assumes e: "restart_env E" and c: "consistent E c" "mirrored E s c" and n: "coming_back E s c n"
    and b: "gget (cx_backends c) k = Some b" and k: "gget (cx_backends n) k = None"
    and all: "\<And>i. gget (cx_services c) i \<noteq> None \<Longrightarrow> gget (cx_services n) i \<noteq> None"
    and w: "w \<noteq> 0" and d: "d = backend_doc (b_options b\<lparr>bo_Weight := w\<rparr>)"
    and cr: "createBackend E (bo_VsID d) k d n = (r, n')"
  shows "coming_back E s c n'" "gget (cx_backends n') k \<noteq> None"
    "gget (cx_backends n) j \<noteq> None \<Longrightarrow> gget (cx_backends n') j \<noteq> None" "cx_services n' = cx_services n" "r = Ok ()"
proof -
  note e = restart_envD [OF e] and c' = mirroredD [OF c(2)] and n' = coming_backD [OF n]
  let ?w = "b_options b\<lparr>bo_Weight := w\<rparr>"
  have wf: "backend_wf E (cx_next c) b" by (rule wf_backend [OF consistentD(1) [OF c(1)] b])
  obtain i where i: "gget (cx_services c) i = Some (b_service b)" using consistentD(3) [OF c(1) b] ..
  have id: "bo_VsID (b_options b) = i"
    using c'(4) i b unfolding reloadable_def by (simp add: attached_def)
  obtain v' where v': "gget (cx_services n) i = Some v'" using all [of i] i by auto
  with n'(6) [OF v'] i have rs: "restored_service v' (b_service b)" by auto
  have rl: "backend_reloads E (b_options b)" using c'(4) b by (simp add: reloadable_def)
  then obtain po where po: "bo_Pulse (b_options b) = Some po"
    "\<And>l ch. \<exists>p. pulse_New E l ch (ip_String (bo_host (b_options b))) (bo_Port (b_options b)) (po\<lparr>po_interval := 0\<rparr>) = Ok (p, po)"
    unfolding backend_reloads_def pulse_reloads_def by blast
  let ?o1 = "d\<lparr>bo_host := bo_host (b_options b)\<rparr>"
  have fill: "fst (backend_Fill E d (cx_log n)) = Inr ?o1"
    using rl w by (simp add: d backend_reloads_def)
  have sel: "bo_VsID d = i" "bo_host ?o1 = bo_host (b_options b)" "bo_Port ?o1 = bo_Port (b_options b)"
    "bo_Pulse ?o1 = Some (po\<lparr>po_interval := 0\<rparr>)" "bck_rkey ?o1 = bck_rkey (b_options b)"
    by (simp_all add: d backend_doc_def id po(1) bck_rkey_def)
  have pn: "\<exists>p. pulse_New E l ch (ip_String (bo_host ?o1)) (bo_Port ?o1)
      (case bo_Pulse ?o1 of None \<Rightarrow> zero_PulseOptions | Some po \<Rightarrow> po) = Ok (p, po)" for l ch
    using po(2) sel by simp
  have sf: "service_filled E (s_options v')"
    using wf_service [OF consistentD(1) [OF n'(1)] v'] by (simp add: service_wf_def)
  have host: "so_host (s_options v') = so_host (s_options (b_service b))" using rs by (auto simp: restored_service_def)
  have af: "AddrFamily (bo_host ?o1) = AddrFamily (so_host (s_options v'))"
    using wf host by (simp add: backend_wf_def)
  from c'(3) obtain sb where sb: "mirrors (storeBackendPath s) backend_json sb (cx_log c)"
    and ry: "\<And>k. rel_option stored_as (sb k) (map_option b_options (gget (cx_backends c) k))"
    unfolding backend_mirror_def by blast
  have doc: "kv_table (cx_log n) (storeBackendPath s @ ''/'' @ k) \<noteq> None"
    using mirrorsD(1) [OF sb, of k] ry [of k] b n'(5) by (cases "sb k") auto
  have tn: "tabled (dest_part (ipvs_table (cx_log n))) (gget (cx_backends n)) bck_key (bck_attr E)"
    and tc: "tabled (dest_part (ipvs_table (cx_log c))) (gget (cx_backends c)) bck_key (bck_attr E)"
    using n'(1) c(1) by (simp_all add: consistent_def agree_def)
  obtain x where x: "ipvs_table (cx_log n) (svc_vkey v') = Some x" using consistentD(6) [OF n'(1) v'] by blast
  have free: "vs_dests x (bck_rkey ?o1) = None"
  proof (rule ccontr)
    assume "vs_dests x (bck_rkey ?o1) \<noteq> None"
    then obtain y where "dest_part (ipvs_table (cx_log n)) (bck_key b) = Some y"
      using x restored_keys(1) [OF rs] unfolding sel by (auto simp: dest_part_def bck_key_def)
    from tabledD(2) [OF tn this] obtain j b' where j: "gget (cx_backends n) j = Some b'" "bck_key b' = bck_key b" by blast
    from n'(7) [OF j(1)] obtain a where a: "gget (cx_backends c) j = Some a" "restored_backend b' a" by blast
    from tabledD(3) [OF tc a(1) b] restored_keys(2) [OF a(2)] j k show False by simp
  qed
  have ok': "r = Ok ()"
    using createBackend_succeeds [OF e(2,4) n'(2) k _ sf fill pn af doc x free, of i] v' cr sel(1) by simp
  from cr n'(2) have "coming_back E s c n' \<and> gget (cx_backends n') k \<noteq> None \<and>
      (gget (cx_backends n) j \<noteq> None \<longrightarrow> gget (cx_backends n') j \<noteq> None) \<and> cx_services n' = cx_services n"
  proof (cases rule: createBackend_store)
    case (ok vs o1 opts p po1 l l1 l' ch)
    note f = same_store_sel [OF ok(9)]
    have o1: "o1 = ?o1" and vs: "vs = v'" using fill ok(3,4) v' sel(1) by simp_all
    have "po1 = po" using ok(5) po(2) [of l ch] sel unfolding o1 by (auto simp: pulse_New_def split: sum.splits option.splits outcome.splits)
    then have "opts = b_options b\<lparr>bo_Weight := w\<rparr>"
      using po(1) id unfolding ok(6) o1 put_options_def d backend_doc_def by simp
    then have rb: "restored_backend \<lparr>b_options = opts, b_service = vs, b_monitor = p, b_metrics = zero_Metrics\<rparr> b"
      using w rs vs by (auto simp: restored_backend_def)
    have kv: "kv_table (cx_log n') = kv_table (cx_log n)"
      using bdir.create_ok [OF e(1) ok(8)] doc f(5) ok(7) by auto
    have "consistent E n'" using consistent_createBackend [OF e(5) n'(1), of "bo_VsID d" k d] cr by simp
    moreover have "\<exists>a. gget (cx_backends c) j = Some a \<and> restored_backend b' a"
      if "gget (cx_backends n') j = Some b'" for j b'
      using that rb b n'(7) by (cases "j = k") (auto simp: f)
    ultimately have "coming_back E s c n'"
      using n'(2-6) kv by (simp add: coming_back_def f)
    then show "coming_back E s c n' \<and> gget (cx_backends n') k \<noteq> None \<and>
      (gget (cx_backends n) j \<noteq> None \<longrightarrow> gget (cx_backends n') j \<noteq> None) \<and> cx_services n' = cx_services n"
      by (simp add: f)
  qed (use ok' in simp_all)
  then show "coming_back E s c n'" "gget (cx_backends n') k \<noteq> None"
    "gget (cx_backends n) j \<noteq> None \<Longrightarrow> gget (cx_backends n') j \<noteq> None" "cx_services n' = cx_services n" "r = Ok ()"
    using ok' by blast+
qed


section \<open>The two loops over a fresh context\<close>

lemma restore_services:
  assumes e: "restart_env E" and c: "consistent E c" "mirrored E s c"
    and ext: "\<And>i. gget ext i = map_option (\<lambda>v. service_doc (s_options v)) (gget (cx_services c) i)"
    and "coming_back E s c n" "distinct ks" "\<forall>i \<in> set ks. gget (cx_services n) i = None"
    and "sync_add_services E ext ks n = (r, n')"
  shows "r = Ok () \<and> coming_back E s c n' \<and> cx_backends n' = cx_backends n \<and>
    (\<forall>i. i \<in> set ks \<and> gget ext i \<noteq> None \<or> gget (cx_services n) i \<noteq> None \<longrightarrow> gget (cx_services n') i \<noteq> None)"
  using assms(5-)
proof (induction ks arbitrary: n)
  case (Cons k ks)
  show ?case
  proof (cases "gget (cx_services c) k")
    case None
    then have "gget ext k = None" by (simp add: ext)
    with Cons.prems Cons.IH [OF Cons.prems(1)] show ?thesis by auto
  next
    case (Some v)
    have kn: "gget (cx_services n) k = None" using Cons.prems(3) by simp
    obtain x n1 where cr: "createService E k (service_doc (s_options v)) n = (x, n1)" by force
    note st = restore_service [OF e c Cons.prems(1) Some kn cr]
    have s: "sync_service E k (service_doc (s_options v)) n = (Ok (), n1)" using cr st(5) kn by (simp add: sync_service_def)
    have rest: "sync_add_services E ext ks n1 = (r, n')" using Cons.prems(4) s Some by (simp add: ext)
    have fresh: "\<forall>i \<in> set ks. gget (cx_services n1) i = None"
      using Cons.prems(2,3) createService_at(1) [OF cr] by (metis distinct.simps(2) list.set_intros(2))
    from Cons.IH [OF st(1) _ fresh rest] Cons.prems(2) st(2-4) show ?thesis by auto
  qed
qed simp

lemma restore_backends:
  assumes e: "restart_env E" and c: "consistent E c" "mirrored E s c"
    and ext: "\<And>k. rel_option (\<lambda>d b. \<exists>w. w \<noteq> 0 \<and> d = backend_doc (b_options b\<lparr>bo_Weight := w\<rparr>)) (gget ext k) (gget (cx_backends c) k)"
    and "coming_back E s c n" "\<forall>i. gget (cx_services c) i \<noteq> None \<longrightarrow> gget (cx_services n) i \<noteq> None"
    and "distinct ks" "\<forall>k \<in> set ks. gget (cx_backends n) k = None"
    and "sync_add_backends E ext ks n = (r, n')"
  shows "r = Ok () \<and> coming_back E s c n' \<and> cx_services n' = cx_services n \<and>
    (\<forall>k. k \<in> set ks \<and> gget ext k \<noteq> None \<or> gget (cx_backends n) k \<noteq> None \<longrightarrow> gget (cx_backends n') k \<noteq> None)"
  using assms(5-)
proof (induction ks arbitrary: n)
  case (Cons k ks)
  show ?case
  proof (cases "gget (cx_backends c) k")
    case None
    then have "gget ext k = None" using ext [of k] by (cases "gget ext k") auto
    with Cons.prems Cons.IH [OF Cons.prems(1,2)] show ?thesis by auto
  next
    case (Some b)
    then obtain d w where d: "gget ext k = Some d" and w: "w \<noteq> 0" "d = backend_doc (b_options b\<lparr>bo_Weight := w\<rparr>)"
      using ext [of k] by (cases "gget ext k") auto
    have kn: "gget (cx_backends n) k = None" using Cons.prems(4) by simp
    obtain x n1 where cr: "createBackend E (bo_VsID d) k d n = (x, n1)" by force
    note st = restore_backend [OF e c Cons.prems(1) Some kn Cons.prems(2) [rule_format] w cr]
    have s: "sync_backend E k d n = (Ok (), n1)" using cr st(5) kn by (simp add: sync_backend_def)
    have rest: "sync_add_backends E ext ks n1 = (r, n')" using Cons.prems(5) s d by simp
    have fresh: "\<forall>i \<in> set ks. gget (cx_backends n1) i = None"
      using Cons.prems(3,4) createBackend_at(1) [OF cr] by (metis distinct.simps(2) list.set_intros(2))
    from Cons.IH [OF st(1) _ _ fresh rest] Cons.prems(2,3) st(2-4) show ?thesis by auto
  qed
qed simp

section \<open>The new daemon\<close>

lemma new_announce_fresh:
  assumes "c = new_announce E options ((new_ctx l)\<lparr>cx_disco := d\<rparr>)"
  shows "cx_services c = gempty" "cx_backends c = gempty" "cx_closed c = []" "cx_store c = None"
    "kv_table (cx_log c) = kv_table l" "ipvs_table (cx_log c) = ipvs_table l"
  by (auto simp: assms new_announce_def new_ctx_def on_log_def split_beta split: list.split)

lemma NewContext_fresh:
  assumes "NewContext E options l = (Ok (), c)"
  shows "cx_services c = gempty" "cx_backends c = gempty" "cx_closed c = []" "cx_store c = None"
    "kv_table (cx_log c) = kv_table l"
    "ipvs_table (cx_log c) = (if co_Flush options then Map.empty else ipvs_table l)"
proof -
  obtain d where d: "new_disco E options = Ok d" using assms by (auto simp: NewContext_def split: outcome.splits)
  let ?a = "new_announce E options ((new_ctx l)\<lparr>cx_disco := d\<rparr>)"
  have link: "\<exists>i. c = b\<lparr>cx_vipInterface := i\<rparr>" if "new_link E options b = (Ok (), c)" for b
  proof (cases "c = b")
    case True
    then have "c = b\<lparr>cx_vipInterface := cx_vipInterface b\<rparr>" by simp
    then show ?thesis ..
  next
    case False
    with that show ?thesis
      by (auto simp: new_link_def close_with_def split: if_splits sum.splits prod.splits outcome.splits)
  qed
  have "\<exists>i. c = ?a\<lparr>cx_log := (if co_Flush options then [EvIpvs IpvsFlush True] else []) @ EvIpvs IpvsInit True # cx_log ?a,
      cx_vipInterface := i\<rparr>"
    using assms d unfolding NewContext_def
    by (auto simp: on_log_eq ipvs_Init_def ipvs_Flush_def ipvs_call_def Let_def close_with_def split: if_splits option.splits
        outcome.splits prod.splits dest!: link)
  then show "cx_services c = gempty" "cx_backends c = gempty" "cx_closed c = []" "cx_store c = None"
    "kv_table (cx_log c) = kv_table l"
    "ipvs_table (cx_log c) = (if co_Flush options then Map.empty else ipvs_table l)"
    by (auto simp: new_announce_fresh [OF refl])
qed


lemma range_keys_gempty [simp]: "fair_iter E \<Longrightarrow> range_keys E l gempty = []"
  using set_range_keys [of E l gempty] by simp

lemma coming_back_fresh:
  assumes "cx_services n = gempty" "cx_backends n = gempty" "cx_closed n = []" "ctx_wf E n" "cx_store n = Some s"
    and "cx_endpoint n = cx_endpoint c" "kv_table (cx_log n) = kv_table (cx_log c)" "ipvs_table (cx_log n) = Map.empty"
  shows "coming_back E s c n"
  using assms by (simp add: coming_back_def consistent_def agree_def linked_def running_def gget_gempty_fun tabled_empty)

lemma mirrors_same: "kv_table l' = kv_table l \<Longrightarrow> mirrors d doc m l' = mirrors d doc m l"
  by (simp add: mirrors_def)

lemma mirrored_reads:
  assumes "kv_listed E" "mirrored E s c" "storeServicePath s \<noteq> []" "storeBackendPath s \<noteq> []" "kv_table l = kv_table (cx_log c)"
  obtains sv bk where "getExternalServices E s l = Inr sv" "getExternalBackends E s l = Inr bk"
    "\<And>i. gget sv i = map_option (\<lambda>v. service_doc (s_options v)) (gget (cx_services c) i)"
    "\<And>k. rel_option (\<lambda>d b. \<exists>w. w \<noteq> 0 \<and> d = backend_doc (b_options b\<lparr>bo_Weight := w\<rparr>)) (gget bk k) (gget (cx_backends c) k)"
proof -
  note c' = mirroredD [OF assms(2)]
  have m: "service_mirror s (cx_services c) l" "backend_mirror s (cx_backends c) l"
    using c'(2,3) by (simp_all add: service_mirror_def backend_mirror_def mirrors_same [OF assms(5)])
  have rl: "\<And>k b. gget (cx_backends c) k = Some b \<Longrightarrow> backend_reloads E (b_options b)"
    using c'(4) by (simp add: reloadable_def)
  obtain sv where sv: "getExternalServices E s l = Inr sv"
    "\<And>i. gget sv i = map_option (\<lambda>v. service_doc (s_options v)) (gget (cx_services c) i)"
    using read_services [OF m(1) assms(3,1)] by blast
  obtain bk where bk: "getExternalBackends E s l = Inr bk"
    "\<And>k. rel_option (\<lambda>d b. \<exists>w. w \<noteq> 0 \<and> d = backend_doc (b_options b\<lparr>bo_Weight := w\<rparr>)) (gget bk k) (gget (cx_backends c) k)"
    by (rule read_backends [OF m(2) assms(4,1)]) (erule rl, blast)
  show thesis by (rule that [OF sv(1) bk(1) sv(2) bk(2)])
qed

lemma restart_Sync:
  assumes e: "restart_env E" and c: "consistent E c" "mirrored E s c"
    and p: "storeServicePath s \<noteq> []" "storeBackendPath s \<noteq> []"
    and n: "coming_back E s c n" "cx_services n = gempty" "cx_backends n = gempty" "kv_table (cx_log n) = kv_table (cx_log c)"
    and y: "store_Sync E s n = (r, n')"
  shows "r = Ok ()" "coming_back E s c n'"
    "\<And>i. gget (cx_services c) i \<noteq> None \<Longrightarrow> gget (cx_services n') i \<noteq> None"
    "\<And>k. gget (cx_backends c) k \<noteq> None \<Longrightarrow> gget (cx_backends n') k \<noteq> None"
proof -
  note e' = restart_envD [OF e]
  obtain sv bk where sv: "getExternalServices E s (cx_log n) = Inr sv"
    "\<And>i. gget sv i = map_option (\<lambda>v. service_doc (s_options v)) (gget (cx_services c) i)"
    and bk: "getExternalBackends E s (cx_log n) = Inr bk"
    "\<And>k. rel_option (\<lambda>d b. \<exists>w. w \<noteq> 0 \<and> d = backend_doc (b_options b\<lparr>bo_Weight := w\<rparr>)) (gget bk k) (gget (cx_backends c) k)"
    by (rule mirrored_reads [OF e'(3) c(2) p n(4)]) blast
  have bk': "gget bk k = None \<longleftrightarrow> gget (cx_backends c) k = None" for k using bk(2) [of k] by (cases "gget bk k"; cases "gget (cx_backends c) k") auto
  note keys = set_range_keys [OF e'(6)] distinct_range_keys [OF e'(6)]
  obtain r1 n1 where 1: "sync_add_services E sv (range_keys E (cx_log n) sv) n = (r1, n1)" by force
  have s1: "r1 = Ok () \<and> coming_back E s c n1 \<and> cx_backends n1 = cx_backends n \<and>
    (\<forall>i. i \<in> set (range_keys E (cx_log n) sv) \<and> gget sv i \<noteq> None \<or> gget (cx_services n) i \<noteq> None \<longrightarrow> gget (cx_services n1) i \<noteq> None)"
    by (rule restore_services [OF e c sv(2) n(1) keys(2) _ 1]) (simp add: n(2))
  then have all: "\<forall>i. gget (cx_services c) i \<noteq> None \<longrightarrow> gget (cx_services n1) i \<noteq> None" by (simp add: keys(1) sv(2))
  obtain r2 n2 where 2: "sync_add_backends E bk (range_keys E (cx_log n1) bk) n1 = (r2, n2)" by force
  have s2: "r2 = Ok () \<and> coming_back E s c n2 \<and> cx_services n2 = cx_services n1 \<and>
    (\<forall>k. k \<in> set (range_keys E (cx_log n1) bk) \<and> gget bk k \<noteq> None \<or> gget (cx_backends n1) k \<noteq> None \<longrightarrow> gget (cx_backends n2) k \<noteq> None)"
    by (rule restore_backends [OF e c bk(2) _ all keys(2) _ 2]) (use s1 n(3) in simp_all)
  have "(r, n') = (r2, n2)"
    using y s1 by (simp add: store_Sync_def sv(1) bk(1) Synchronize_def and_then_def n(2,3) e'(6) 1 2)
  then show "r = Ok ()" "coming_back E s c n'"
    "\<And>i. gget (cx_services c) i \<noteq> None \<Longrightarrow> gget (cx_services n') i \<noteq> None"
    "\<And>k. gget (cx_backends c) k \<noteq> None \<Longrightarrow> gget (cx_backends n') k \<noteq> None"
    using s2 all by (auto simp: keys(1) bk')
qed

text \<open>The flags of the new daemon name the store \<open>s\<close>, and it can be opened.\<close>

definition opens :: "env \<Rightarrow> string list \<Rightarrow> string \<Rightarrow> string \<Rightarrow> i64 \<Rightarrow> Store \<Rightarrow> bool" where
  "opens E urls sp bp t s \<longleftrightarrow> (case store_urls E urls ([], [], []) of Inl e \<Rightarrow> False
     | Inr (scheme, path, hosts) \<Rightarrow> (case store_backend_name scheme of None \<Rightarrow> False
         | Some kv \<Rightarrow> newKV E kv hosts = None) \<and>
         s = \<lparr>storeServicePath = path_Join [path, sp], storeBackendPath = path_Join [path, bp]\<rparr>) \<and>
     0 < sint (t * word_of_int second)"

lemma NewStore_opens:
  assumes "opens E urls sp bp t s"
  shows "NewStore E urls sp bp t c = (case store_Sync E s (SetStore s c) of (Panic, c') \<Rightarrow> (Panic, c') | (_, c') \<Rightarrow> (Ok s, c'))"
  using assms by (auto simp: opens_def NewStore_def Let_def not_le [symmetric] split: sum.splits option.splits outcome.splits prod.splits)

lemma coming_back_all:
  assumes "coming_back E s c n" "\<And>i. gget (cx_services c) i \<noteq> None \<Longrightarrow> gget (cx_services n) i \<noteq> None"
    "\<And>k. gget (cx_backends c) k \<noteq> None \<Longrightarrow> gget (cx_backends n) k \<noteq> None"
  shows "rel_option restored_service (gget (cx_services n) i) (gget (cx_services c) i)"
    and "rel_option restored_backend (gget (cx_backends n) k) (gget (cx_backends c) k)"
proof -
  show "rel_option restored_service (gget (cx_services n) i) (gget (cx_services c) i)"
    using coming_backD(6) [OF assms(1), of i] assms(2) [of i]
    by (cases "gget (cx_services n) i"; cases "gget (cx_services c) i") auto
  show "rel_option restored_backend (gget (cx_backends n) k) (gget (cx_backends c) k)"
    using coming_backD(7) [OF assms(1), of k] assms(3) [of k]
    by (cases "gget (cx_backends n) k"; cases "gget (cx_backends c) k") auto
qed

section \<open>Without flushing\<close>

text \<open>The kernel still has what the earlier daemon put there, and refuses it.\<close>

definition still_empty :: "ctx \<Rightarrow> ctx \<Rightarrow> bool" where
  "still_empty c n \<longleftrightarrow> (\<forall>i. gget (cx_services n) i = None) \<and> (\<forall>k. gget (cx_backends n) k = None) \<and>
     cx_endpoint n = cx_endpoint c \<and> ipvs_table (cx_log n) = ipvs_table (cx_log c)"

lemma still_empty_quiet: "still_empty c n \<Longrightarrow> quiet n n' \<Longrightarrow> still_empty c n'"
  by (simp add: still_empty_def quiet_sel)

lemma refused_again:
  assumes "kernel_ok E" "consistent E c" "reloadable E c" "gget (cx_services c) i = Some v" "still_empty c n"
    and "createService E i (service_doc (s_options v)) n = (r, n')"
  shows "r \<noteq> Panic" "still_empty c n'"
proof -
  have "r \<noteq> Panic \<and> quiet n n'"
    using assms(6)
  proof (cases rule: createService_cases)
    case (ok c1 c2 l2 opts1 opts)
    have "opts1 = s_options v\<lparr>so_delIfAddr := False\<rparr>"
      using ok(3) assms(3-5) unfolding reloadable_def service_reloads_def still_empty_def by (metis fst_conv sum.inject(2))
    then have "opts_vkey opts = svc_vkey v" using ok(4) by (auto simp: svc_vkey_opts opts_vkey_def)
    then have "ipvs_table (cx_log n) (svc_vkey v) = None"
      using kernel_new_service [OF assms(1) ok(6)] by (simp add: opts_vkey_def quiet_sel(11) [OF ok(5)])
    with consistentD(6) [OF assms(2,4)] assms(5) show ?thesis by (simp add: still_empty_def)
  qed simp
  then show "r \<noteq> Panic" "still_empty c n'" using still_empty_quiet [OF assms(5)] by blast+
qed

lemma orphan_refused:
  assumes "backend_reloads E (b_options b)" "w \<noteq> 0" "d = backend_doc (b_options b\<lparr>bo_Weight := w\<rparr>)" "still_empty c n"
    and "createBackend E v k d n = (r, n')"
  shows "r \<noteq> Panic" "still_empty c n'"
proof -
  obtain l where l: "backend_Fill E d (cx_log n) = (Inr (d\<lparr>bo_host := bo_host (b_options b)\<rparr>), l)"
    using assms(1-3) unfolding backend_reloads_def by (metis prod.collapse)
  obtain po where po: "bo_Pulse (b_options b) = Some po"
    "\<And>l ch. \<exists>p. pulse_New E l ch (ip_String (bo_host (b_options b))) (bo_Port (b_options b)) (po\<lparr>po_interval := 0\<rparr>) = Ok (p, po)"
    using assms(1) unfolding backend_reloads_def pulse_reloads_def by blast
  obtain p where p: "pulse_New E l (cx_next n) (ip_String (bo_host (b_options b))) (bo_Port (b_options b)) (po\<lparr>po_interval := 0\<rparr>) = Ok (p, po)"
    using po(2) by blast
  have f: "r = Fail ErrObjectNotFound"
    using assms(4,5) p by (simp add: createBackend_def on_log_def l still_empty_def) (simp add: assms(3) backend_doc_def po(1))
  from assms(5) have "quiet n n'" by (cases rule: createBackend_cases) (simp_all add: f)
  then show "r \<noteq> Panic" "still_empty c n'" using f still_empty_quiet [OF assms(4)] by simp_all
qed

lemma nothing_restored:
  assumes "kernel_ok E" "consistent E c" "mirrored E s c"
  shows "(\<And>i. gget sv i = map_option (\<lambda>v. service_doc (s_options v)) (gget (cx_services c) i)) \<Longrightarrow> still_empty c n \<Longrightarrow>
      sync_add_services E sv ks n = (r, n') \<Longrightarrow> r = Ok () \<and> still_empty c n'"
    and "(\<And>k. rel_option (\<lambda>d b. \<exists>w. w \<noteq> 0 \<and> d = backend_doc (b_options b\<lparr>bo_Weight := w\<rparr>)) (gget bk k) (gget (cx_backends c) k)) \<Longrightarrow>
      still_empty c n \<Longrightarrow> sync_add_backends E bk ks n = (r, n') \<Longrightarrow> r = Ok () \<and> still_empty c n'"
proof -
  have rl: "reloadable E c" by (rule mirroredD(4) [OF assms(3)])
  show "r = Ok () \<and> still_empty c n'" if sv: "\<And>i. gget sv i = map_option (\<lambda>v. service_doc (s_options v)) (gget (cx_services c) i)"
    and "still_empty c n" "sync_add_services E sv ks n = (r, n')"
    using that(2-)
  proof (induction ks arbitrary: n)
    case (Cons k ks)
    show ?case
    proof (cases "gget (cx_services c) k")
      case (Some v)
      obtain x n1 where cr: "createService E k (service_doc (s_options v)) n = (x, n1)" by force
      note st = refused_again [OF assms(1,2) rl Some Cons.prems(1) cr]
      have "sync_service E k (service_doc (s_options v)) n = (x, n1)"
        using cr Cons.prems(1) by (simp add: sync_service_def still_empty_def)
      with Cons.prems(2) Cons.IH [OF st(2)] st(1) Some show ?thesis by (simp add: sv)
    qed (use Cons in \<open>simp add: sv\<close>)
  qed simp
  show "r = Ok () \<and> still_empty c n'"
    if bk: "\<And>k. rel_option (\<lambda>d b. \<exists>w. w \<noteq> 0 \<and> d = backend_doc (b_options b\<lparr>bo_Weight := w\<rparr>)) (gget bk k) (gget (cx_backends c) k)"
    and "still_empty c n" "sync_add_backends E bk ks n = (r, n')"
    using that(2-)
  proof (induction ks arbitrary: n)
    case (Cons k ks)
    show ?case
    proof (cases "gget bk k")
      case (Some d)
      then obtain b w where b: "gget (cx_backends c) k = Some b" "w \<noteq> 0" "d = backend_doc (b_options b\<lparr>bo_Weight := w\<rparr>)"
        using bk [of k] by (cases "gget (cx_backends c) k") auto
      have rb: "backend_reloads E (b_options b)" using rl b(1) by (simp add: reloadable_def)
      obtain x n1 where cr: "createBackend E (bo_VsID d) k d n = (x, n1)" by force
      note st = orphan_refused [OF rb b(2,3) Cons.prems(1) cr]
      have "sync_backend E k d n = (x, n1)" using cr Cons.prems(1) by (simp add: sync_backend_def still_empty_def)
      with Cons.prems(2) Cons.IH [OF st(2)] st(1) Some show ?thesis by simp
    qed (use Cons in simp)
  qed simp
qed

section \<open>A world for the witnesses\<close>

text \<open>A world whose store also lists what was put there.\<close>

fun put_key :: "event \<Rightarrow> string list" where
  "put_key (EvKv (KvPut k v) a) = [k]"
| "put_key _ = []"

definition log_pairs :: "log \<Rightarrow> string \<Rightarrow> (string \<times> json option) list" where
  "log_pairs l d = map (\<lambda>k. (k, the (kv_table l k))) (filter (\<lambda>k. kv_table l k \<noteq> None \<and> take (Suc (length d)) k = d @ ''/'')
     (remdups (concat (map put_key l))))"

definition live_env :: env where
  "live_env = store_env\<lparr>kvList := (\<lambda>l d. if log_pairs l d = [] then KvKeyNotFound else KvPairs (log_pairs l d)),
     parseURL := (\<lambda>s. Inr \<lparr>u_scheme = ''consul'', u_host = s, u_path = ''gorb'', u_query = []\<rparr>)\<rparr>"

definition lweb_ctx :: ctx where
  "lweb_ctx = snd (createService live_env ''web'' web_opts stored_ctx)"

definition lnode_ctx :: ctx where
  "lnode_ctx = snd (createBackend live_env ''web'' ''n1'' node_opts lweb_ctx)"

definition flush_options :: "bool \<Rightarrow> ContextOptions" where
  "flush_options f = \<lparr>co_Disco = [], co_Endpoints = [], co_Flush = f, co_ListenPort = 0, co_VipInterface = []\<rparr>"

lemma put_keys: "kv_table l k \<noteq> None \<Longrightarrow> k \<in> set (concat (map put_key l))"
  by (induction l rule: kv_table.induct) (auto split: if_splits)

lemma log_pairs_set: "(k, v) \<in> set (log_pairs l d) \<longleftrightarrow> (\<exists>i. k = d @ ''/'' @ i) \<and> kv_table l k = Some v"
proof -
  have "take (Suc (length d)) k = d @ ''/'' \<longleftrightarrow> (\<exists>i. k = d @ ''/'' @ i)"
    by (metis append.assoc append_take_drop_id append_eq_conv_conj length_append_singleton)
  moreover have "(k, v) \<in> set (log_pairs l d) \<longleftrightarrow> take (Suc (length d)) k = d @ ''/'' \<and> kv_table l k = Some v"
    using put_keys [of l k] unfolding log_pairs_def by (cases "kv_table l k") (auto simp: image_iff)
  ultimately show ?thesis by simp
qed

lemma live_env_ok [simp]: "restart_env live_env" "resolver_stable live_env" "kernel_ok live_env" "kv_listed live_env" "fair_iter live_env"
proof -
  show k: "kernel_ok live_env" and f: "fair_iter live_env" and "resolver_stable live_env"
    using store_env_ok by (simp_all add: kernel_ok_def fair_iter_def resolver_stable_def live_env_def)
  have "distinct (map fst (log_pairs l d))" for l d by (simp add: log_pairs_def o_def)
  moreover have "kv_table l (d @ ''/'' @ i) = None" if "log_pairs l d = []" for l d i
    using log_pairs_set [of "d @ ''/'' @ i" _ l d] that by (cases "kv_table l (d @ ''/'' @ i)") auto
  ultimately show li: "kv_listed live_env" by (simp add: kv_listed_def live_env_def log_pairs_set)
  have "kv_exact live_env" using store_env_ok(1) by (simp add: kv_exact_def live_env_def)
  moreover have "kv_up live_env" by (simp add: kv_up_def live_env_def store_env_def)
  moreover have "kernel_exact live_env"
    using k by (simp add: kernel_exact_def live_env_def store_env_def kernel_env_def kernel_do_def)
  ultimately show "restart_env live_env" using li f by (simp add: restart_env_def)
qed

lemma lnode_ctx_ok: "consistent live_env lnode_ctx" "mirrored live_env the_store lnode_ctx" "cx_endpoint lnode_ctx = []"
proof -
  have x: "kv_exact live_env" using restart_envD(1) [OF live_env_ok(1)] .
  have c0: "consistent live_env stored_ctx" "mirrored live_env the_store stored_ctx"
    using stored_ctx_ok(2)
    by (simp_all add: stored_ctx_def consistent_def agree_def linked_def running_def gget_gempty_fun tabled_empty ctx_wf_def
        wf_maps_def mirrored_def reloadable_def)
  then have c1: "consistent live_env lweb_ctx" unfolding lweb_ctx_def by (simp add: consistent_createService)
  then show "consistent live_env lnode_ctx" unfolding lnode_ctx_def by (simp add: consistent_createBackend)
  have ok: "fst (createService live_env ''web'' web_opts stored_ctx) = Ok ()" "fst (createBackend live_env ''web'' ''n1'' node_opts lweb_ctx) = Ok ()"
    by code_simp+
  have "mirrored live_env the_store lweb_ctx"
    by (rule mirrored_createService [OF x live_env_ok(2) consistentD(1) [OF c0(1)] c0(2),
        of "''web''" web_opts "fst (createService live_env ''web'' web_opts stored_ctx)"]) (simp_all add: ok(1) lweb_ctx_def prod_eq_iff)
  moreover have "decoded_args node_opts" by (simp add: decoded_args_def node_opts_def zero_BackendOptions_def)
  ultimately show "mirrored live_env the_store lnode_ctx"
    using mirrored_createBackend [OF x live_env_ok(2) consistentD(1) [OF c1], of the_store "''n1''" node_opts "''web''"
        "fst (createBackend live_env ''web'' ''n1'' node_opts lweb_ctx)"] by (simp add: ok(2) lnode_ctx_def prod_eq_iff)
  show "cx_endpoint lnode_ctx = []" by code_simp
qed

lemma live_restart:
  "NewContext live_env (flush_options f) (cx_log lnode_ctx) = (Ok (), snd (NewContext live_env (flush_options f) (cx_log lnode_ctx)))"
  "cx_endpoint (snd (NewContext live_env (flush_options f) (cx_log lnode_ctx))) = []"
  "opens live_env [''h''] ''services'' ''backends'' 60 the_store" "storeServicePath the_store \<noteq> []" "storeBackendPath the_store \<noteq> []"
proof -
  have "fst (NewContext live_env (flush_options f) (cx_log lnode_ctx)) = Ok ()" by (cases f; simp) code_simp+
  then show "NewContext live_env (flush_options f) (cx_log lnode_ctx) = (Ok (), snd (NewContext live_env (flush_options f) (cx_log lnode_ctx)))"
    by (simp add: prod_eq_iff)
  show "cx_endpoint (snd (NewContext live_env (flush_options f) (cx_log lnode_ctx))) = []" by (cases f; simp) code_simp+
  show "opens live_env [''h''] ''services'' ''backends'' 60 the_store" by code_simp
qed (simp_all add: the_store_def)

section \<open>Properties\<close>




text \<open>
  Claim C35. Without the flush flag, the same restart brings nothing back: every creation of a service is
  refused by the kernel, which has it already, and every creation of a backend finds no service; so the daemon
  starts without an error, with an empty context, over a kernel that still serves all of it.
\<close>

theorem restart_without_flush:
  assumes "kernel_ok E" "kv_listed E" "fair_iter E" "consistent E c" "mirrored E s c"
    and "storeServicePath s \<noteq> []" "storeBackendPath s \<noteq> []"
    and "NewContext E options (cx_log c) = (Ok (), c0)" "\<not> co_Flush options" "cx_endpoint c0 = cx_endpoint c"
    and "opens E urls sp bp t s"
  shows "\<exists>c1. NewStore E urls sp bp t c0 = (Ok s, c1) \<and> ListServices E c1 = [] \<and> (\<forall>k. gget (cx_backends c1) k = None) \<and>
    ipvs_table (cx_log c1) = ipvs_table (cx_log c)"
proof -
  note f = NewContext_fresh [OF assms(8)]
  let ?n = "SetStore s c0"
  have n: "still_empty c ?n" "cx_services ?n = gempty" "cx_backends ?n = gempty" "kv_table (cx_log ?n) = kv_table (cx_log c)"
    using f assms(9,10) by (simp_all add: still_empty_def SetStore_def)
  obtain sv bk where sv: "getExternalServices E s (cx_log ?n) = Inr sv"
    "\<And>i. gget sv i = map_option (\<lambda>v. service_doc (s_options v)) (gget (cx_services c) i)"
    and bk: "getExternalBackends E s (cx_log ?n) = Inr bk"
    "\<And>k. rel_option (\<lambda>d b. \<exists>w. w \<noteq> 0 \<and> d = backend_doc (b_options b\<lparr>bo_Weight := w\<rparr>)) (gget bk k) (gget (cx_backends c) k)"
    by (rule mirrored_reads [OF assms(2,5,6,7) n(4)]) blast
  obtain r1 n1 where 1: "sync_add_services E sv (range_keys E (cx_log ?n) sv) ?n = (r1, n1)" by force
  note s1 = nothing_restored(1) [OF assms(1,4,5) sv(2) n(1) 1]
  then have none: "range_keys E (cx_log n1) (cx_backends n1) = []"
    using set_range_keys [OF assms(3), of "cx_log n1" "cx_backends n1"] by (simp add: still_empty_def)
  obtain r2 n2 where 2: "sync_add_backends E bk (range_keys E (cx_log n1) bk) n1 = (r2, n2)" by force
  note s2 = nothing_restored(2) [OF assms(1,4,5) bk(2) conjunct2 [OF s1] 2]
  have y: "store_Sync E s ?n = (Ok (), n2)"
    using s1 s2 none
    by (simp add: store_Sync_def sv(1) bk(1) Synchronize_def and_then_def n(2) assms(3) 1 2)
  have "NewStore E urls sp bp t c0 = (Ok s, n2)" by (simp add: NewStore_opens [OF assms(11)] y)
  moreover have "ListServices E n2 = []"
    using s2 set_range_keys [OF assms(3), of "cx_log n2" "cx_services n2"] by (simp add: ListServices_def still_empty_def)
  ultimately show ?thesis using s2 by (auto simp: still_empty_def)
qed


theorem restart_without_flush_witness:
  "\<exists>c1. NewStore live_env [''h''] ''services'' ''backends'' 60
       (snd (NewContext live_env (flush_options False) (cx_log lnode_ctx))) = (Ok the_store, c1) \<and>
     ListServices live_env c1 = [] \<and> ListServices live_env lnode_ctx = [''web''] \<and> ipvs_table (cx_log c1) = ipvs_table (cx_log lnode_ctx)"
proof -
  have "ListServices live_env lnode_ctx = [''web'']" by code_simp
  moreover have "\<not> co_Flush (flush_options False)" by (simp add: flush_options_def)
  from restart_without_flush [OF live_env_ok(3,4,5) lnode_ctx_ok(1,2) live_restart(4,5,1) this _ live_restart(3)]
  have "\<exists>c1. NewStore live_env [''h''] ''services'' ''backends'' 60
       (snd (NewContext live_env (flush_options False) (cx_log lnode_ctx))) = (Ok the_store, c1) \<and>
     ListServices live_env c1 = [] \<and> ipvs_table (cx_log c1) = ipvs_table (cx_log lnode_ctx)"
    by (auto simp: live_restart(2) lnode_ctx_ok(3))
  ultimately show ?thesis by blast
qed

end
