(* ===== verification/Gorb_Reach.thy ===== *)
theory Gorb_Reach
  imports Gorb_System Gorb_Restart
begin

text \<open>
  What holds of the running daemon on a kernel that does as documented: in the states it comes to, in any
  interleaving, the kernel's table stays the image of the maps (\<open>consistent\<close> of \<open>Gorb_Kernel\<close>), as long as no
  client updates a service that has backends; and the checks that were stopped can always end.
\<close>

section \<open>Removals on a kernel that does as documented\<close>

text \<open>The kernel does not refuse to delete what it has.\<close>

definition kernel_yields :: "env \<Rightarrow> bool" where
  "kernel_yields E \<longleftrightarrow>
     (\<forall>l s. ipvs_table l (svc_key s) \<noteq> None \<longrightarrow> ipvsDo E l (DelService s) = None) \<and>
     (\<forall>l s d x. ipvs_table l (svc_key s) = Some x \<longrightarrow> vs_dests x (dest_key d) \<noteq> None \<longrightarrow> ipvsDo E l (DelDestination s d) = None)"

lemma kernel_yields_service:
  assumes "kernel_yields E" "ValidProtocol pr" "ipvs_table l (vkey_of v p pr) \<noteq> None"
  shows "fst (ipvs_DelService E v p pr l) = None"
proof -
  obtain svc where "createSvcKey v pr p = Inr svc" "svc_key svc = vkey_of v p pr"
    using createSvcKey_valid [OF assms(2)] by blast
  then show ?thesis using assms(1,3) by (simp add: ipvs_DelService_def ipvs_call_def kernel_yields_def Let_def)
qed

lemma kernel_yields_dest:
  assumes "kernel_yields E" "ValidProtocol pr" "ipvs_table l (vkey_of v p pr) = Some x" "vs_dests x (rkey_of r rp) \<noteq> None"
  shows "fst (ipvs_DelDestPort E v p r rp pr l) = None"
proof -
  obtain svc where "createSvcKey v pr p = Inr svc" "svc_key svc = vkey_of v p pr"
    using createSvcKey_valid [OF assms(2)] by blast
  moreover have "dest_key (createDest r rp 0 0) = rkey_of r rp" by (simp add: dest_key_def createDest_def rkey_of_def)
  ultimately show ?thesis
    using assms(1,3,4) by (simp add: ipvs_DelDestPort_def ipvs_call_def kernel_yields_def Let_def)
qed

lemma removeService_yields:
  assumes k: "kernel_yields E" and c: "consistent E c" and r: "removeService E i c = (r, c')"
  shows "r \<noteq> Fail ErrIpvsSyscallFailed"
proof
  assume f: "r = Fail ErrIpvsSyscallFailed"
  then obtain vs where vs: "gget (cx_services c) i = Some vs"
    using r by (cases "gget (cx_services c) i") (auto simp: removeService_def)
  have v: "ValidProtocol (so_Protocol (s_options vs))"
    using wf_service [OF consistentD(1) [OF c] vs] by (simp add: service_wf_def service_filled_def)
  let ?c2 = "del_vip E (s_options vs) (drop_service i c)"
  let ?d = "ipvs_DelService E (ip_String (so_host (s_options vs))) (so_Port (s_options vs)) (so_Protocol (s_options vs))"
  have "ipvs_table (cx_log ?c2) (svc_vkey vs) \<noteq> None"
    using consistentD(6) [OF c vs] quiet_sel(11) [OF del_vip_quiet [of "drop_service i c" E "s_options vs"]]
    by (simp add: drop_service_def)
  then have "fst (?d (cx_log ?c2)) = None" using kernel_yields_service [OF k v] by (simp add: svc_vkey_def)
  moreover obtain e c3 where d: "on_log ?d ?c2 = (e, c3)" by force
  ultimately have "e = None" by (auto simp: on_log_eq)
  then show False
    using r vs d f clean_backends_effect
    by (auto simp: removeService_def drop_service_def split: outcome.splits prod.splits)
      (metis clean_backends_effect outcome.distinct(1) outcome.distinct(5))
qed

lemma removeBackend_yields:
  assumes k: "kernel_yields E" and c: "consistent E c" and r: "removeBackend E v i c = (r, c')"
  shows "r \<noteq> Fail ErrIpvsSyscallFailed"
proof (cases "gget (cx_backends c) i")
  case None
  with r show ?thesis by (auto simp: removeBackend_def)
next
  case (Some b)
  have p: "ValidProtocol (so_Protocol (s_options (b_service b)))"
    using wf_backend [OF consistentD(1) [OF c] Some] by (simp add: backend_wf_def service_wf_def service_filled_def)
  have "tabled (dest_part (ipvs_table (cx_log c))) (gget (cx_backends c)) bck_key (bck_attr E)"
    using c by (simp add: consistent_def agree_def)
  from tabledD(1) [OF this Some] obtain x where x: "ipvs_table (cx_log c) (svc_vkey (b_service b)) = Some x"
    "vs_dests x (bck_rkey (b_options b)) \<noteq> None"
    by (auto simp: dest_part_def bck_key_def split: option.splits)
  obtain y c1 where y: "with_store (\<lambda>s. store_RemoveBackend E s i) c = (y, c1)" by force
  then have "quiet c c1" by (rule with_store_quiet [rotated]) simp
  then have "ipvs_table (cx_log c1) = ipvs_table (cx_log c)" by (simp add: quiet_sel)
  then have "fst (ipvs_DelDestPort E (ip_String (so_host (s_options (b_service b)))) (so_Port (s_options (b_service b)))
      (ip_String (bo_host (b_options b))) (bo_Port (b_options b)) (so_Protocol (s_options (b_service b))) (cx_log c1)) = None"
    using kernel_yields_dest [OF k p] x by (simp add: svc_vkey_def bck_rkey_def)
  then show ?thesis
    using r Some y by (auto simp: removeBackend_def pulse_Stop_def on_log_def split: if_splits prod.splits option.splits)
qed

definition good_kernel :: "env \<Rightarrow> bool" where
  "good_kernel E \<longleftrightarrow> kernel_ok E \<and> kernel_yields E"

definition agreeing :: "env \<Rightarrow> ctx \<Rightarrow> bool" where
  "agreeing E c \<longleftrightarrow> (good_kernel E \<longrightarrow> fair_iter E \<longrightarrow> consistent E c)"

interpretation ag: sync_invariant "agreeing E" E for E
proof unfold_locales
  fix c i k so bo
  assume a: "agreeing E c"
  show "agreeing E (snd (createService E i so c))" "agreeing E (snd (createBackend E i k bo c))"
    using a by (simp_all add: agreeing_def good_kernel_def consistent_createService consistent_createBackend)
  show "agreeing E (snd (removeService E i c))" "agreeing E (snd (removeBackend E i k c))"
    using a consistent_removeService(2) removeService_yields consistent_removeBackend(2) removeBackend_yields
    unfolding agreeing_def good_kernel_def by (metis prod.collapse)+
qed


section \<open>The message loop on a consistent context\<close>

lemma consistent_metrics:
  assumes c: "consistent E c" and b: "gget (cx_backends c) k = Some b" and m: "metrics_ok m"
  shows "consistent E (put_backend k (b\<lparr>b_metrics := m\<rparr>) c)"
proof -
  let ?b = "b\<lparr>b_metrics := m\<rparr>" and ?t = "dest_part (ipvs_table (cx_log c))"
  have same: "bck_key ?b = bck_key b" "bck_attr E ?b = bck_attr E b" by (simp_all add: bck_key_def bck_attr_def)
  have t: "tabled ?t (gget (cx_backends c)) bck_key (bck_attr E)" using c by (simp add: consistent_def agree_def)
  have "?t (bck_key b) = Some (bck_attr E b)" by (rule tabledD(1) [OF t b])
  then have "tabled ?t ((gget (cx_backends c))(k \<mapsto> ?b)) bck_key (bck_attr E)"
    using tabled_update [OF t b same(1)] by (simp add: same fun_upd_idem)
  then have "agree E (put_backend k ?b c)" using c by (simp add: consistent_def agree_def gget_gput_fun)
  moreover have "linked (put_backend k ?b c)" "running (put_backend k ?b c)"
    using c b consistentD(3,4) [OF c b] by (auto simp: consistent_def linked_def running_def)
  moreover have "ctx_wf E (put_backend k ?b c)" by (rule wf_put_metrics [OF consistentD(1) [OF c] b m])
  ultimately show ?thesis by (simp add: consistent_def)
qed

lemma process_reweight_ctx:
  assumes "process_reweight E u st c = (st', c')"
  obtains "c' = c" | w where "c' = snd (updateBackend E (VsID (up_Source u)) (RsID (up_Source u)) w c)"
  using assms unfolding process_reweight_def Let_def
  by (auto split: StatusType.splits option.splits prod.splits outcome.splits if_splits) (metis snd_conv)+

lemma updateBackend_keeps:
  assumes "c' = snd (updateBackend E i k w c)"
  shows "cx_closed c' = cx_closed c" "cx_loops c' = cx_loops c"
    and "map_option bck_key (gget (cx_backends c') j) = map_option bck_key (gget (cx_backends c) j)"
proof -
  obtain r where "updateBackend E i k w c = (r, c')" using assms by (metis prod.collapse)
  then have "cx_closed c' = cx_closed c \<and> cx_loops c' = cx_loops c \<and>
      map_option bck_key (gget (cx_backends c') j) = map_option bck_key (gget (cx_backends c) j)"
  proof (cases rule: updateBackend_cases)
    case (ok b c1)
    then show ?thesis by (simp add: logged_to_sel [OF ok(3)] bck_key_def bck_rkey_def)
  qed (simp_all add: quiet_sel)
  then show "cx_closed c' = cx_closed c" "cx_loops c' = cx_loops c"
    "map_option bck_key (gget (cx_backends c') j) = map_option bck_key (gget (cx_backends c) j)" by blast+
qed

lemma consistent_reweight:
  assumes "process_reweight E u st c = (st', c')" "consistent E c"
  shows "consistent E c'" "cx_closed c' = cx_closed c" "cx_loops c' = cx_loops c"
    "map_option bck_key (gget (cx_backends c') j) = map_option bck_key (gget (cx_backends c) j)"
proof -
  from assms(1) have "consistent E c' \<and> cx_closed c' = cx_closed c \<and> cx_loops c' = cx_loops c \<and>
      map_option bck_key (gget (cx_backends c') j) = map_option bck_key (gget (cx_backends c) j)"
  proof (cases rule: process_reweight_ctx)
    case 1
    with assms(2) show ?thesis by simp
  next
    case (2 w)
    with consistent_updateBackend [OF assms(2)] updateBackend_keeps [OF 2] show ?thesis by auto
  qed
  then show "consistent E c'" "cx_closed c' = cx_closed c" "cx_loops c' = cx_loops c"
    "map_option bck_key (gget (cx_backends c') j) = map_option bck_key (gget (cx_backends c) j)" by blast+
qed

lemma consistent_update:
  assumes "processPulseUpdate E u st c = (st', c')" "consistent E c" "metrics_ok (up_Metrics u)"
  shows "consistent E c'" "map_option bck_key (gget (cx_backends c') j) = map_option bck_key (gget (cx_backends c) j)"
proof -
  obtain go st1 c1 where l: "process_locked u st c = (go, st1, c1)" by (metis prod.collapse)
  have "consistent E c' \<and> map_option bck_key (gget (cx_backends c') j) = map_option bck_key (gget (cx_backends c) j)"
    using l
  proof (cases rule: process_locked_cases)
    case skip
    with assms l show ?thesis by (simp add: processPulseUpdate_def)
  next
    case (go b)
    have "consistent E c1" unfolding go(5) by (rule consistent_metrics [OF assms(2) go(4) assms(3)])
    moreover have "map_option bck_key (gget (cx_backends c1) j) = map_option bck_key (gget (cx_backends c) j)"
      using go(4) by (simp add: go(5) bck_key_def)
    moreover have r: "process_reweight E u st1 c1 = (st', c')" using assms(1) l go(1) by (simp add: processPulseUpdate_def)
    ultimately show ?thesis using consistent_reweight(1,4) [OF r] by simp
  qed
  then show "consistent E c'" "map_option bck_key (gget (cx_backends c') j) = map_option bck_key (gget (cx_backends c) j)" by blast+
qed

lemma consistent_updates:
  assumes "run_updates E us st c = (st', c')" "consistent E c" "\<forall>u \<in> set us. metrics_ok (up_Metrics u)"
  shows "consistent E c' \<and> map_option bck_key (gget (cx_backends c') j) = map_option bck_key (gget (cx_backends c) j)"
  using assms
proof (induction us arbitrary: st c)
  case (Cons u us)
  obtain st1 c1 where p: "processPulseUpdate E u st c = (st1, c1)" by force
  from Cons consistent_update(1) [OF p] consistent_update(2) [OF p, of j] p show ?case by simp
qed simp

text \<open>The weight the kernel has for a backend.\<close>

definition kernel_weight :: "ctx \<Rightarrow> backend \<Rightarrow> u32 option" where
  "kernel_weight c b = map_option snd (dest_part (ipvs_table (cx_log c)) (bck_key b))"

lemma kernel_weight_of:
  assumes "consistent E c" "map_option bck_key (gget (cx_backends c) k) = Some (bck_key b)" "weight_of k c = Some w"
  shows "kernel_weight c b = Some w"
proof -
  obtain b' where b': "gget (cx_backends c) k = Some b'" "bck_key b' = bck_key b" using assms(2) by auto
  have "tabled (dest_part (ipvs_table (cx_log c))) (gget (cx_backends c)) bck_key (bck_attr E)"
    using assms(1) by (simp add: consistent_def agree_def)
  from tabledD(1) [OF this b'(1)] show ?thesis
    using assms(3) b' by (simp add: kernel_weight_def weight_of_def bck_attr_def)
qed

section \<open>States reached without updating a service that has backends\<close>

definition harmless :: "api \<Rightarrow> ctx \<Rightarrow> bool" where
  "harmless a c \<longleftrightarrow> (case a of ApiUpdateService i so \<Rightarrow>
       (\<forall>vs j b. gget (cx_services c) i = Some vs \<longrightarrow> gget (cx_backends c) j = Some b \<longrightarrow> \<not> attached vs b)
     | _ \<Rightarrow> True)"

inductive calm :: "env \<Rightarrow> sys \<Rightarrow> bool" for E where
  start: "NewContext E options l = (Ok (), c) \<Longrightarrow> co_Flush options \<or> ipvs_table l = Map.empty \<Longrightarrow>
    calm E (sys_start (c\<lparr>cx_store := store\<rparr>))"
| request: "calm E S \<Longrightarrow> harmless a (sy_ctx S) \<Longrightarrow> calm E (S\<lparr>sy_ctx := api_run E a (sy_ctx S)\<rparr>)"
| own: "calm E S \<Longrightarrow> own_step E S S' \<Longrightarrow> calm E S'"

lemma calm_reachable: "calm E S \<Longrightarrow> reachable E S"
proof (induction rule: calm.induct)
  case start
  then show ?case by (intro reachable.init)
qed (blast intro: reachable.step sys_step.intros)+

lemma consistent_api:
  assumes "good_kernel E" "fair_iter E" "consistent E c" "harmless a c"
  shows "consistent E (api_run E a c)"
proof -
  have a: "agreeing E c" using assms(3) by (simp add: agreeing_def)
  have "agreeing E (api_run E a c)"
  proof (cases a)
    case (ApiUpdateService i so)
    then have "consistent E (snd (updateService E i so c))"
      using assms by (intro consistent_updateService) (auto simp: good_kernel_def harmless_def)
    then show ?thesis by (simp add: ApiUpdateService critical_defs agreeing_def)
  next
    case (ApiUpdateBackend i k w)
    then show ?thesis using consistent_updateBackend [OF assms(3)] by (simp add: critical_defs agreeing_def)
  qed (use a in \<open>simp_all add: critical_defs ag.keep_createService ag.keep_createBackend ag.keep_removeService
      ag.keep_removeBackend ag.keep_Synchronize\<close>)
  then show ?thesis using assms(1,2) by (simp add: agreeing_def)
qed

lemma phase_metrics: "sys_inv E S \<Longrightarrow> sy_phase S = Received u \<Longrightarrow> \<not> removed_msg u \<Longrightarrow> metrics_ok (up_Metrics u)"
  by (simp add: sys_inv_def phase_ok_def msg_ok_def)

lemma consistent_calm:
  assumes "good_kernel E" "fair_iter E" "calm E S"
  shows "consistent E (sy_ctx S)"
  using assms(3)
proof (induction rule: calm.induct)
  case (start options l c store)
  note f = NewContext_fresh [OF start(1)]
  have "ctx_wf E c" using wf_NewContext [of E options l] start(1) by simp
  moreover have "ipvs_table (cx_log c) = Map.empty" using f(6) start(2) by auto
  ultimately show ?case
    using f by (simp add: sys_start_def consistent_def agree_def linked_def running_def gget_gempty_fun tabled_empty ctx_wf_def)
next
  case (request S a)
  then show ?case using consistent_api [OF assms(1,2)] by simp
next
  case (own S S')
  have inv: "sys_inv E S" using reachable_inv [OF calm_reachable [OF own(1)]] .
  from own(2) show ?case
  proof (cases rule: own_step.cases)
    case close
    with own(3) show ?thesis by (simp add: consistent_def agree_def linked_def running_def ctx_wf_def)
  next
    case (look u go st' c')
    from look(3) show ?thesis
    proof (cases rule: process_locked_cases)
      case (go b)
      then show ?thesis using consistent_metrics [OF own(3)] phase_metrics [OF inv look(2)] look(1) by simp
    qed (use look(1) own(3) in simp)
  next
    case (reweight u st' c')
    then show ?thesis using consistent_reweight(1) own(3) by simp
  qed (use own(3) in simp_all)
qed

section \<open>Ending a check\<close>

text \<open>The consumer finishes the message it has in at most two steps of its own, whatever state it is in.\<close>

definition undisturbed :: "sys \<Rightarrow> sys \<Rightarrow> bool" where
  "undisturbed S S' \<longleftrightarrow> sy_loop S' = sy_loop S \<and> cx_loops (sy_ctx S') = cx_loops (sy_ctx S) \<and>
     cx_closed (sy_ctx S') = cx_closed (sy_ctx S)"

lemma reweight_step:
  assumes "sy_phase S = Reweighting u"
  shows "\<exists>S'. own_step E S S' \<and> sy_phase S' = Waiting \<and> undisturbed S S'"
proof -
  obtain st' c' where r: "process_reweight E u (sy_stash S) (sy_ctx S) = (st', c')" by force
  have "cx_closed c' = cx_closed (sy_ctx S) \<and> cx_loops c' = cx_loops (sy_ctx S)"
    using r
  proof (cases rule: process_reweight_ctx)
    case (2 w)
    with updateBackend_keeps(1,2) [OF 2] show ?thesis by simp
  qed simp
  with own_step.reweight [OF assms r] show ?thesis by (auto simp: undisturbed_def)
qed

lemma look_step:
  assumes "sy_phase S = Received u"
  shows "\<exists>S'. own_step E S S' \<and> (sy_phase S' = Waiting \<or> sy_phase S' = Reweighting u) \<and> undisturbed S S' \<and>
    (removed_msg u \<longrightarrow> sy_phase S' = Waiting \<and> sy_stash S' (up_Source u) = None)"
proof -
  obtain go st' c' where l: "process_locked u (sy_stash S) (sy_ctx S) = (go, st', c')" by (metis prod.collapse)
  then have "cx_closed c' = cx_closed (sy_ctx S) \<and> cx_loops c' = cx_loops (sy_ctx S) \<and>
      (removed_msg u \<longrightarrow> \<not> go \<and> st' (up_Source u) = None)"
    by (cases rule: process_locked_cases) auto
  with own_step.look [OF assms l, of E] show ?thesis
    by (intro exI [of _ "S\<lparr>sy_ctx := c', sy_stash := st', sy_phase := (if go then Reweighting u else Waiting)\<rparr>"])
      (auto simp: undisturbed_def)
qed

lemma undisturbed_trans: "undisturbed S T \<Longrightarrow> undisturbed T U \<Longrightarrow> undisturbed S U"
  by (simp add: undisturbed_def)

lemma consumer_returns:
  assumes "sy_phase S \<noteq> Ended"
  obtains n S' where "n \<le> 2" "(own_step E ^^ n) S S'" "sy_phase S' = Waiting" "undisturbed S S'"
proof (cases "sy_phase S")
  case Waiting
  then show thesis using that [of 0 S] by (simp add: undisturbed_def)
next
  case (Received u)
  obtain T where T: "own_step E S T" "sy_phase T = Waiting \<or> sy_phase T = Reweighting u" "undisturbed S T"
    using look_step [OF Received] by blast
  show thesis
  proof (cases "sy_phase T = Waiting")
    case True
    with T that [of 1 T] show thesis by (simp add: OO_def)
  next
    case False
    with T(2) obtain U where "own_step E T U" "sy_phase U = Waiting" "undisturbed T U" using reweight_step by blast
    with T(1,3) undisturbed_trans show thesis by (intro that [of 2 U]) (auto simp: numeral_2_eq_2)
  qed
next
  case (Reweighting u)
  with reweight_step [OF Reweighting] that [of 1] show thesis by (auto simp: OO_def)
qed (use assms in simp)

section \<open>Properties\<close>

text \<open>
  Claim C3. On a kernel that does as documented, in every state the daemon comes to from an empty table, in any
  interleaving of requests, synchronizations, checks and the message loop, the kernel's table is the image of
  the maps of the context, unless a client has updated a service that had backends; and no removal panics.
\<close>

theorem system_kernel:
  assumes "good_kernel E" and "fair_iter E" and "calm E S"
  shows "consistent E (sy_ctx S) \<and> (\<forall>i. fst (removeService E i (sy_ctx S)) \<notin> {Panic, Fail ErrIpvsSyscallFailed}) \<and>
    (\<forall>i k. fst (removeBackend E i k (sy_ctx S)) \<notin> {Panic, Fail ErrIpvsSyscallFailed})"
proof -
  note c = consistent_calm [OF assms]
  have k: "kernel_yields E" using assms(1) by (simp add: good_kernel_def)
  have "fst (removeService E i (sy_ctx S)) \<notin> {Panic, Fail ErrIpvsSyscallFailed}" for i
    using consistent_removeService(1) [OF c assms(2)] removeService_yields [OF k c] by (metis insertE prod.collapse singletonD)
  moreover have "fst (removeBackend E i j (sy_ctx S)) \<notin> {Panic, Fail ErrIpvsSyscallFailed}" for i j
    using consistent_removeBackend(1) [OF c] removeBackend_yields [OF k c] by (metis insertE prod.collapse singletonD)
  ultimately show ?thesis using c by blast
qed

lemma good_kernel_env [simp]: "good_kernel kernel_env"
  by (simp add: good_kernel_def kernel_yields_def kernel_env_def [THEN arg_cong [where f = ipvsDo], simplified] kernel_do_def)

theorem system_kernel_witness:
  "\<exists>c S. NewContext kernel_env plain_options [] = (Ok (), c) \<and> calm kernel_env S \<and>
     sy_ctx S = snd (createBackend kernel_env ''web'' ''n1'' node_opts (snd (createService kernel_env ''web'' web_opts c))) \<and>
     gget (cx_backends (sy_ctx S)) ''n1'' \<noteq> None \<and> consistent kernel_env (sy_ctx S)"
proof -
  let ?c = "snd (NewContext kernel_env plain_options [])"
  have "fst (NewContext kernel_env plain_options []) = Ok ()" by code_simp
  then have c: "NewContext kernel_env plain_options [] = (Ok (), ?c)" by (metis prod.collapse)
  let ?S0 = "sys_start (?c\<lparr>cx_store := cx_store ?c\<rparr>)"
  let ?S1 = "?S0\<lparr>sy_ctx := api_run kernel_env (ApiCreateService ''web'' web_opts) (sy_ctx ?S0)\<rparr>"
  let ?S2 = "?S1\<lparr>sy_ctx := api_run kernel_env (ApiCreateBackend ''web'' ''n1'' node_opts) (sy_ctx ?S1)\<rparr>"
  have s: "calm kernel_env ?S2"
    by (intro calm.request calm.start [OF c]) (simp_all add: harmless_def)
  moreover have x: "sy_ctx ?S2 = snd (createBackend kernel_env ''web'' ''n1'' node_opts (snd (createService kernel_env ''web'' web_opts ?c)))"
    by (simp add: sys_start_def critical_defs)
  moreover have "gget (cx_backends (snd (createBackend kernel_env ''web'' ''n1'' node_opts (snd (createService kernel_env ''web'' web_opts
      (snd (NewContext kernel_env plain_options []))))))) ''n1'' \<noteq> None" by code_simp
  ultimately show ?thesis using c system_kernel [OF good_kernel_env kernel_ok_env(2) s] by metis
qed


text \<open>
  While the consumer runs, a check that was stopped can always end: whatever the consumer is busy
  with, four of the daemon's own steps suffice to let it finish, hand over the last message of the check and
  forget the weight that was stashed for it.
\<close>

lemma stopped_check_can_end:
  assumes "sy_phase S \<noteq> Ended" and "(i, p) \<in> set (cx_loops (sy_ctx S))" and "p_stopCh p \<in> set (cx_closed (sy_ctx S))"
    and "sy_loop S (p_stopCh p) = Some s" and "\<not> lp_done s"
  shows "\<exists>n S' s'. n \<le> 4 \<and> (own_step E ^^ n) S S' \<and> sy_loop S' (p_stopCh p) = Some s' \<and> lp_done s' \<and>
    sy_stash S' i = None \<and> sy_phase S' = Waiting"
proof -
  obtain n T where T: "n \<le> 2" "(own_step E ^^ n) S T" "sy_phase T = Waiting" "undisturbed S T"
    by (rule consumer_returns [OF assms(1)])
  let ?m = "metrics_Update (lp_metrics s) StatusRemoved 0"
  let ?u = "\<lparr>up_Source = i, up_Metrics = ?m\<rparr>" and ?s = "s\<lparr>lp_metrics := ?m, lp_done := True\<rparr>"
  let ?U = "T\<lparr>sy_phase := Received ?u, sy_loop := (sy_loop T)(p_stopCh p \<mapsto> ?s)\<rparr>"
  have "loop_step p i s (Some ?u) ?s" by (rule loop_step.stop [OF assms(5) refl])
  then have U: "own_step E T ?U"
    using T(3,4) assms(2-4) by (intro own_step.send [of i p T s]) (simp_all add: undisturbed_def)
  obtain V where V: "own_step E ?U V" "undisturbed ?U V" "sy_phase V = Waiting" "sy_stash V i = None"
    using look_step [of ?U ?u E] by (auto simp: removed_msg_def)
  have "(own_step E ^^ (Suc (Suc n))) S V" using T(2) U V(1) by auto
  moreover have "sy_loop V (p_stopCh p) = Some ?s" using V(2) by (simp add: undisturbed_def)
  ultimately show ?thesis using T(1) V(3,4) by (intro exI [of _ "Suc (Suc n)"] exI [of _ V]) auto
qed

definition stopping_sys :: sys where
  "stopping_sys = ended_sys\<lparr>sy_phase := Received \<lparr>up_Source = n1, up_Metrics = down_metrics\<rparr>,
     sy_ctx := api_run ok_env (ApiRemoveService ''web'') (sy_ctx ended_sys)\<rparr>"

lemma stopped_check_can_end_witness:
  "\<exists>i p n S'. (i, p) \<in> set (cx_loops (sy_ctx stopping_sys)) \<and> n \<le> 4 \<and> (own_step ok_env ^^ n) stopping_sys S' \<and>
     sy_phase S' = Waiting"
proof -
  have s: "cx_loops (sy_ctx stopping_sys) = cx_loops node_ctx"
    using same_removeService [of ok_env "''web''" "sy_ctx ended_sys"]
    by (simp add: stopping_sys_def ended_sys_def critical_defs same_loops_def) (metis prod.collapse)
  from node_removed obtain i p ls where l: "cx_loops (sy_ctx stopping_sys) = (i, p) # ls" "p_stopCh p \<in> set (cx_closed (sy_ctx stopping_sys))"
    unfolding s by (auto simp: stopping_sys_def ended_sys_def split: list.splits)
  from s have "sy_loop stopping_sys (p_stopCh p) = Some (loop_start p 1)" "\<not> lp_done (loop_start p 1)"
    "sy_phase stopping_sys \<noteq> Ended"
    using l(1) by (simp_all add: stopping_sys_def ended_sys_def loop_start_def)
  from stopped_check_can_end [OF this(3) _ l(2) this(1,2), of i ok_env] l(1) show ?thesis by auto
qed



end
