(* ===== verification/Gorb_Http.thy ===== *)
theory Gorb_Http
  imports Gorb_Api
begin

text \<open>
  The REST interface: \<open>src/http.go\<close>, and the routes of \<open>src/main.go\<close>.  A handler gets the
  variables of the route and the body of the request (\<open>None\<close> when it does not start with a JSON
  document), and gives a response or panics; net/http then closes the connection and the daemon goes on.
\<close>

section \<open>Responses\<close>

text \<open>
  The texts of the errors.  The quoting of \<open>%q\<close> is that of a string without special characters.
\<close>

definition quoted :: "string \<Rightarrow> string" where
  "quoted s = [CHR 0x22] @ s @ [CHR 0x22]"

primrec error_text :: "error \<Rightarrow> string" where
  "error_text ErrIpvsSyscallFailed = ''error while calling into IPVS''"
| "error_text ErrObjectExists = ''specified object already exists''"
| "error_text ErrObjectNotFound = ''unable to locate specified object''"
| "error_text ErrIncompatibleAFs = ''incompatible address families''"
| "error_text (ErrServiceKeyChanged vsID) =
     ''unable to update virtual service ['' @ vsID @ ''] due to host/port/protocol changing''"
| "error_text ErrMissingEndpoint = ''endpoint information is missing''"
| "error_text ErrUnknownMethod = ''specified forwarding method is unknown''"
| "error_text ErrUnknownProtocol = ''specified protocol is unknown''"
| "error_text ErrUnknownFlag = ''specified flag is unknown''"
| "error_text ErrUnknownPulseType = ''specified pulse type is unknown''"
| "error_text ErrInvalidPulseInterval = ''pulse interval must be positive''"
| "error_text ErrInvalidIntervalFormat = ''invalid interval format''"
| "error_text (ErrShimProtocol p) = ''unknown protocol '' @ quoted p"
| "error_text (ErrShimForwarding f) = ''invalid forwarding method '' @ quoted f"
| "error_text ErrConsul = ''error while calling into Consul''"
| "error_text (ErrStoreScheme s) = ''unsupported uri scheme : '' @ s"
| "error_text ErrStoreSchemeMismatch = ''schemes must be the same for all store URLs''"
| "error_text ErrStorePathMismatch = ''paths must be the same for all store URLs''"
| "error_text (ErrExternal s) = s"

text \<open>A handler that writes nothing answers 200 without a body.\<close>

record response =
  rs_code :: nat
  rs_type :: "string option"
  rs_body :: "json_text option"

definition no_content :: response where
  "no_content = \<lparr>rs_code = 200, rs_type = None, rs_body = None\<rparr>"

definition errorResponse :: "string \<Rightarrow> json" where
  "errorResponse e = JObj [(''error'', JStr e)]"

definition write_doc :: "nat \<Rightarrow> json \<Rightarrow> response outcome" where
  "write_doc code doc = (case MustMarshal (Inr doc) True of
       Ok t \<Rightarrow> Ok \<lparr>rs_code = code, rs_type = Some ''application/json'', rs_body = Some t\<rparr>
     | Fail e \<Rightarrow> Fail e
     | Panic \<Rightarrow> Panic)"

definition writeJSON :: "json \<Rightarrow> response outcome" where
  "writeJSON doc = write_doc 200 doc"

definition error_code :: "error \<Rightarrow> nat" where
  "error_code err = (if err = ErrIpvsSyscallFailed then 500
     else if err = ErrObjectExists then 409
     else if err = ErrObjectNotFound then 404
     else 400)"

definition writeError :: "error \<Rightarrow> response outcome" where
  "writeError err = write_doc (error_code err) (errorResponse (error_text err))"

text \<open>The documents of the status queries.  A list without elements that was never made is \<open>null\<close>.\<close>

definition metrics_json :: "Metrics \<Rightarrow> json" where
  "metrics_json m = JObj [(''status'', JNum (of_nat (status_num (m_Status m)))), (''health'', JNum (m_Health m)),
     (''uptime'', JNum (of_int (sint (m_Uptime m))))]"

definition service_info_json :: "ServiceInfo \<Rightarrow> json" where
  "service_info_json i = JObj [(''options'', service_json (si_Options i)), (''health'', JNum (si_Health i)),
     (''backends'', if si_Backends i = [] then JNull else JArr (map JStr (si_Backends i)))]"

definition backend_info_json :: "BackendInfo \<Rightarrow> json" where
  "backend_info_json i = JObj [(''options'', backend_json (bi_Options i)), (''metrics'', metrics_json (bi_Metrics i))]"

section \<open>Handlers\<close>

type_synonym vars = "string gomap"
type_synonym handler = "vars \<Rightarrow> json option \<Rightarrow> ctx \<Rightarrow> response outcome \<times> ctx"

definition var :: "vars \<Rightarrow> string \<Rightarrow> string" where
  "var vars k = (case gget vars k of None \<Rightarrow> [] | Some v \<Rightarrow> v)"

text \<open>The answer to the result of an operation: an error is written, a value goes to \<open>f\<close>.\<close>

definition reply :: "('a \<Rightarrow> response outcome) \<Rightarrow> 'a outcome \<times> ctx \<Rightarrow> response outcome \<times> ctx" where
  "reply f r = (case r of (Ok x, c) \<Rightarrow> (f x, c) | (Fail e, c) \<Rightarrow> (writeError e, c) | (Panic, c) \<Rightarrow> (Panic, c))"

definition serviceCreateHandler :: "env \<Rightarrow> handler" where
  "serviceCreateHandler E vars body c = (case service_unmarshal body of
       Inl e \<Rightarrow> (writeError e, c)
     | Inr opts \<Rightarrow> reply (\<lambda>_. Ok no_content) (run_critical (CreateService E (var vars ''vsID'') opts) c))"

definition serviceUpdateHandler :: "env \<Rightarrow> handler" where
  "serviceUpdateHandler E vars body c = (case service_unmarshal body of
       Inl e \<Rightarrow> (writeError e, c)
     | Inr opts \<Rightarrow> reply (\<lambda>_. Ok no_content) (run_critical (UpdateService E (var vars ''vsID'') opts) c))"

definition backendCreateHandler :: "env \<Rightarrow> handler" where
  "backendCreateHandler E vars body c = (case backend_unmarshal body of
       Inl e \<Rightarrow> (writeError e, c)
     | Inr opts \<Rightarrow> reply (\<lambda>_. Ok no_content)
         (run_critical (CreateBackend E (var vars ''vsID'') (var vars ''rsID'') opts) c))"

definition backendUpdateHandler :: "env \<Rightarrow> handler" where
  "backendUpdateHandler E vars body c = (case backend_unmarshal body of
       Inl e \<Rightarrow> (writeError e, c)
     | Inr opts \<Rightarrow> reply (\<lambda>_. Ok no_content)
         (run_critical (UpdateBackend E (var vars ''vsID'') (var vars ''rsID'') (bo_Weight opts)) c))"

definition serviceRemoveHandler :: "env \<Rightarrow> handler" where
  "serviceRemoveHandler E vars body c =
     reply (\<lambda>_. Ok no_content) (run_critical (RemoveService E (var vars ''vsID'')) c)"

definition backendRemoveHandler :: "env \<Rightarrow> handler" where
  "backendRemoveHandler E vars body c =
     reply (\<lambda>_. Ok no_content) (run_critical (RemoveBackend E (var vars ''vsID'') (var vars ''rsID'')) c)"

definition serviceListHandler :: "env \<Rightarrow> handler" where
  "serviceListHandler E vars body c =
     reply (\<lambda>list. writeJSON (JArr (map JStr list))) (run_critical (locked_ListServices E) c)"

definition serviceStatusHandler :: "env \<Rightarrow> handler" where
  "serviceStatusHandler E vars body c =
     reply (\<lambda>info. writeJSON (service_info_json info)) (run_critical (locked_GetService E (var vars ''vsID'')) c)"

definition backendStatusHandler :: "env \<Rightarrow> handler" where
  "backendStatusHandler E vars body c =
     reply (\<lambda>info. writeJSON (backend_info_json info))
       (run_critical (locked_GetBackend (var vars ''vsID'') (var vars ''rsID'')) c)"

lemmas handler_defs = serviceCreateHandler_def serviceUpdateHandler_def backendCreateHandler_def
  backendUpdateHandler_def serviceRemoveHandler_def backendRemoveHandler_def serviceListHandler_def
  serviceStatusHandler_def backendStatusHandler_def

section \<open>Lemmas\<close>

lemma write_doc_Ok [simp]:
  "write_doc code doc = Ok \<lparr>rs_code = code, rs_type = Some ''application/json'', rs_body = Some (Indented doc)\<rparr>"
  by (simp add: write_doc_def MustMarshal_def)

lemma error_code_not_200 [simp]: "error_code e \<noteq> 200"
  by (simp add: error_code_def)

lemma reply_cases:
  assumes "reply f r = (Ok res, c')"
  obtains (ok) x where "r = (Ok x, c')" "f x = Ok res" | (fail) e where "r = (Fail e, c')" "writeError e = Ok res"
  using assms by (cases r; cases "fst r") (auto simp: reply_def)

lemma no_content_code [simp]: "rs_code no_content = 200"
  by (simp add: no_content_def)

text \<open>A handler that decodes a body and runs an operation: it answers something other than 200 for an error.\<close>

lemma decode_reply_rejected:
  assumes "(case u of Inl e \<Rightarrow> (writeError e, c) | Inr opts \<Rightarrow> reply (\<lambda>_. Ok no_content) (op opts)) = (Ok res, c')"
    and "rs_code res \<noteq> 200"
  obtains e where "writeError e = Ok res" "c' = c" | opts e where "op opts = (Fail e, c')" "writeError e = Ok res"
proof (cases u)
  case (Inl e)
  then have "writeError e = Ok res" "c' = c" using assms(1) by simp_all
  then show thesis by (rule that(1))
next
  case (Inr opts)
  with assms(1) have "reply (\<lambda>_. Ok no_content) (op opts) = (Ok res, c')" by simp
  then show thesis using that(2) assms(2) by (cases rule: reply_cases) auto
qed

lemma updateService_fail_quiet:
  assumes "updateService E i opts c = (Fail e, c')"
  shows "quiet c c'"
  using assms
proof (cases rule: updateService_cases)
  case (create c1 opts' l)
  then show ?thesis using createService_unchanged [OF create(4)] quiet_trans by blast
qed simp_all

lemma updateBackend_fail_quiet:
  assumes "updateBackend E i k w c = (Fail e, c')"
  shows "quiet c c'"
  using assms by (cases rule: updateBackend_cases) auto

section \<open>Properties\<close>

text \<open>
  Claim C24. A \<open>PUT\<close> or \<open>PATCH\<close> that is not answered with 200 has an error document with one of the four
  error codes, and leaves the services, the backends, the checks and the kernel's table as they were.
\<close>

theorem rest_rejected_unchanged:
  assumes "h \<in> {serviceCreateHandler E, serviceUpdateHandler E, backendCreateHandler E, backendUpdateHandler E}"
    and "h vars body c = (Ok res, c')" and "rs_code res \<noteq> 200"
  shows "(\<exists>e. writeError e = Ok res) \<and> rs_code res \<in> {400, 404, 409, 500} \<and> cx_services c' = cx_services c \<and>
    cx_backends c' = cx_backends c \<and> cx_loops c' = cx_loops c \<and> cx_closed c' = cx_closed c \<and>
    ipvs_table (cx_log c') = ipvs_table (cx_log c)"
proof -
  have "\<exists>e. writeError e = Ok res \<and> quiet c c'"
  proof -
    consider "h = serviceCreateHandler E" | "h = serviceUpdateHandler E" | "h = backendCreateHandler E"
      | "h = backendUpdateHandler E" using assms(1) by blast
    then show ?thesis
    proof cases
      case 1
      from assms(2) [unfolded 1 serviceCreateHandler_def critical_defs run_critical.simps] assms(3)
      show ?thesis by (rule decode_reply_rejected) (use createService_unchanged in blast)+
    next
      case 2
      from assms(2) [unfolded 2 serviceUpdateHandler_def critical_defs run_critical.simps] assms(3)
      show ?thesis by (rule decode_reply_rejected) (use updateService_fail_quiet in blast)+
    next
      case 3
      from assms(2) [unfolded 3 backendCreateHandler_def critical_defs run_critical.simps] assms(3)
      show ?thesis by (rule decode_reply_rejected) (use createBackend_unchanged in blast)+
    next
      case 4
      from assms(2) [unfolded 4 backendUpdateHandler_def critical_defs run_critical.simps] assms(3)
      show ?thesis by (rule decode_reply_rejected) (use updateBackend_fail_quiet in blast)+
    qed
  qed
  then obtain e where e: "writeError e = Ok res" and q: "quiet c c'" by blast
  have "rs_code res = error_code e" using e by (auto simp: writeError_def)
  then have "rs_code res \<in> {400, 404, 409, 500}" by (simp add: error_code_def)
  then show ?thesis using e by (auto simp: quiet_sel [OF q])
qed

theorem rest_rejected_unchanged_witness:
  "\<exists>c'. serviceCreateHandler ok_env (gput ''vsID'' ''web'' gempty) None web_ctx =
      (Ok \<lparr>rs_code = 400, rs_type = Some ''application/json'',
         rs_body = Some (Indented (errorResponse (error_text json_error)))\<rparr>, c') \<and>
     cx_services c' = cx_services web_ctx"
proof -
  let ?res = "\<lparr>rs_code = 400, rs_type = Some ''application/json'',
         rs_body = Some (Indented (errorResponse (error_text json_error)))\<rparr>"
  have r: "serviceCreateHandler ok_env (gput ''vsID'' ''web'' gempty) None web_ctx = (Ok ?res, web_ctx)"
    by (simp add: serviceCreateHandler_def service_unmarshal_def dec_struct_def writeError_def error_code_def json_error_def)
  from rest_rejected_unchanged [where h = "serviceCreateHandler ok_env", OF _ r] r show ?thesis by auto
qed

text \<open>
  The service in the path of a request for a backend is not looked at: a status query, a change of
  weight and a removal do the same with any service in its place, and so may act on a backend of another
  service.
\<close>

lemma backend_path_service_ignored:
  "backendStatusHandler E (gput ''vsID'' v vars) body c = backendStatusHandler E (gput ''vsID'' v' vars) body c \<and>
   backendUpdateHandler E (gput ''vsID'' v vars) body c = backendUpdateHandler E (gput ''vsID'' v' vars) body c \<and>
   backendRemoveHandler E (gput ''vsID'' v vars) body c = backendRemoveHandler E (gput ''vsID'' v' vars) body c"
  by (simp add: handler_defs critical_defs var_def GetBackend_def updateBackend_def removeBackend_def cong: sum.case_cong)

text \<open>
  Claim C22. What a client puts it gets back: after a \<open>PUT\<close> of a service that is answered with 200, a \<open>GET\<close>
  of it is answered with 200 and the document of the options that \<open>Fill\<close> made of the body, a health of 1 and
  no backends; after a successful \<open>DELETE\<close>, with 404.
\<close>

theorem put_get_service:
  assumes "ctx_wf E c" "fair_iter E" "serviceCreateHandler E vars body c = (Ok res, c')" "rs_code res = 200"
  shows "(\<exists>opts o1 l. service_unmarshal body = Inr opts \<and> service_Fill E (cx_endpoint c) opts (cx_log c) = (Inr o1, l) \<and>
      serviceStatusHandler E vars b2 c' = (writeJSON (JObj [(''options'', service_json o1), (''health'', JNum 1),
        (''backends'', JNull)]), c')) \<and>
    (serviceRemoveHandler E vars b3 c' = (Ok res', c'') \<longrightarrow> rs_code res' = 200 \<longrightarrow>
      serviceStatusHandler E vars b4 c'' = (writeError ErrObjectNotFound, c''))"
proof -
  let ?i = "var vars ''vsID''"
  from assms(3,4) obtain opts where u: "service_unmarshal body = Inr opts"
    and r: "createService E ?i opts c = (Ok (), c')"
    by (auto simp: serviceCreateHandler_def critical_defs writeError_def split: sum.splits elim!: reply_cases)
  from r obtain o1 o2 l where f: "service_Fill E (cx_endpoint c) opts (cx_log c) = (Inr o1, l)"
    and o2: "o2 \<in> {o1, o1\<lparr>so_delIfAddr := True\<rparr>}"
    and c': "cx_services c' = gput ?i \<lparr>s_addr = cx_next c, s_options = o2\<rparr> (cx_services c)" "cx_backends c' = cx_backends c"
  proof (cases rule: createService_cases)
    case (ok c1 c2 l2 opts1 opts')
    show thesis
      by (rule that [OF ok(3,4)])
        (simp_all add: quiet_sel [OF ok(8)] logged_to_sel [OF ok(7)] quiet_sel [OF ok(5)])
  qed simp_all
  have "s_addr (b_service b) \<noteq> cx_next c" if "gget (cx_backends c) k = Some b" for k b
    using wf_backend [OF assms(1) that] by (auto simp: backend_wf_def service_wf_def)
  then have "filter (is_attached c' \<lparr>s_addr = cx_next c, s_options = o2\<rparr>) (range_keys E (cx_log c') (cx_backends c')) = []"
    by (auto simp: is_attached_def attached_def c' filter_empty_conv split: option.splits)
  then have "GetService E ?i c' = Inr \<lparr>si_Options = o2, si_Health = 1, si_Backends = []\<rparr>"
    by (simp add: GetService_def c' foldl_visit)
  moreover have "service_json o2 = service_json o1" using o2 by (auto simp: service_json_def)
  ultimately have g: "serviceStatusHandler E vars b2 c' = (writeJSON (JObj [(''options'', service_json o1), (''health'', JNum 1),
        (''backends'', JNull)]), c')"
    by (simp add: serviceStatusHandler_def critical_defs reply_def service_info_json_def)
  have d: "serviceStatusHandler E vars b4 c'' = (writeError ErrObjectNotFound, c'')"
    if "serviceRemoveHandler E vars b3 c' = (Ok res', c'')" "rs_code res' = 200"
  proof -
    from that obtain so where "removeService E ?i c' = (Ok so, c'')"
      by (auto simp: serviceRemoveHandler_def critical_defs writeError_def elim!: reply_cases)
    then have "gget (cx_services c'') ?i = None" using removeService_at(1) by simp
    then show ?thesis by (simp add: serviceStatusHandler_def critical_defs reply_def GetService_def)
  qed
  from u f g d show ?thesis by blast
qed

theorem put_get_service_witness:
  "\<exists>c' opts o1. serviceCreateHandler ok_env (gput ''vsID'' ''web'' gempty) (Some (service_json web_opts)) (new_ctx []) =
       (Ok no_content, c') \<and>
     serviceStatusHandler ok_env (gput ''vsID'' ''web'' gempty) None c' =
       (writeJSON (JObj [(''options'', service_json o1), (''health'', JNum 1), (''backends'', JNull)]), c')"
proof -
  let ?r = "serviceCreateHandler ok_env (gput ''vsID'' ''web'' gempty) (Some (service_json web_opts)) (new_ctx [])"
  have "fst ?r = Ok no_content" by code_simp
  then have r: "?r = (Ok no_content, snd ?r)" by (metis prod.collapse)
  from put_get_service [OF _ fair_ok_env r] r show ?thesis by (metis no_content_code wf_new_ctx(1))
qed

text \<open>
  Claim C23. A backend that was put is what a \<open>GET\<close> returns, with the options that \<open>Fill\<close> and the check's
  constructor made of the body (\<open>new_backend\<close>) and no results yet; a \<open>PATCH\<close> answered with 200 changes its weight
  to the one of the body and nothing else; and after a successful \<open>DELETE\<close> a \<open>GET\<close> is answered with 404.
\<close>

theorem put_get_backend:
  assumes "backendCreateHandler E vars body c = (Ok res, c')" "rs_code res = 200"
  shows "\<exists>opts vs o2 p. backend_unmarshal body = Inr opts \<and> gget (cx_services c) (var vars ''vsID'') = Some vs \<and>
      new_backend E opts c vs o2 p \<and>
      backendStatusHandler E vars b2 c' = (writeJSON (backend_info_json \<lparr>bi_Options = o2, bi_Metrics = zero_Metrics\<rparr>), c') \<and>
      (\<forall>b3 r3 c3. backendUpdateHandler E vars b3 c' = (Ok r3, c3) \<longrightarrow> rs_code r3 = 200 \<longrightarrow>
         (\<exists>o3. backend_unmarshal b3 = Inr o3 \<and> backendStatusHandler E vars b2 c3 =
            (writeJSON (backend_info_json \<lparr>bi_Options = o2\<lparr>bo_Weight := bo_Weight o3\<rparr>, bi_Metrics = zero_Metrics\<rparr>), c3))) \<and>
      (\<forall>b4 r4 c4. backendRemoveHandler E vars b4 c' = (Ok r4, c4) \<longrightarrow> rs_code r4 = 200 \<longrightarrow>
         backendStatusHandler E vars b2 c4 = (writeError ErrObjectNotFound, c4))"
proof -
  let ?i = "var vars ''vsID''" and ?k = "var vars ''rsID''"
  from assms obtain opts where u: "backend_unmarshal body = Inr opts"
    and r: "createBackend E ?i ?k opts c = (Ok (), c')"
    by (auto simp: backendCreateHandler_def critical_defs writeError_def split: sum.splits elim!: reply_cases)
  from r obtain vs o2 p where vs: "gget (cx_services c) ?i = Some vs" and n: "new_backend E opts c vs o2 p"
    and b: "gget (cx_backends c') ?k = Some \<lparr>b_options = o2, b_service = vs, b_monitor = p, b_metrics = zero_Metrics\<rparr>"
    by (cases rule: createBackend_cases) auto
  have g: "backendStatusHandler E vars b2 c1 = (case gget (cx_backends c1) ?k of None \<Rightarrow> (writeError ErrObjectNotFound, c1)
      | Some x \<Rightarrow> (writeJSON (backend_info_json \<lparr>bi_Options = b_options x, bi_Metrics = b_metrics x\<rparr>), c1))" for c1
    by (simp add: backendStatusHandler_def critical_defs reply_def GetBackend_def split: option.split)
  have up: "\<exists>o3. backend_unmarshal b3 = Inr o3 \<and> backendStatusHandler E vars b2 c3 =
      (writeJSON (backend_info_json \<lparr>bi_Options = o2\<lparr>bo_Weight := bo_Weight o3\<rparr>, bi_Metrics = zero_Metrics\<rparr>), c3)"
    if "backendUpdateHandler E vars b3 c' = (Ok r3, c3)" "rs_code r3 = 200" for b3 r3 c3
  proof -
    from that obtain o3 x where o3: "backend_unmarshal b3 = Inr o3" and "updateBackend E ?i ?k (bo_Weight o3) c' = (Ok x, c3)"
      by (auto simp: backendUpdateHandler_def critical_defs writeError_def split: sum.splits elim!: reply_cases)
    from this(2) have "gget (cx_backends c3) ?k = Some \<lparr>b_options = o2\<lparr>bo_Weight := bo_Weight o3\<rparr>, b_service = vs, b_monitor = p,
        b_metrics = zero_Metrics\<rparr>"
      by (cases rule: updateBackend_cases) (use b in auto)
    with o3 show ?thesis by (simp add: g)
  qed
  have del: "backendStatusHandler E vars b2 c4 = (writeError ErrObjectNotFound, c4)"
    if "backendRemoveHandler E vars b4 c' = (Ok r4, c4)" "rs_code r4 = 200" for b4 r4 c4
  proof -
    from that obtain x where "removeBackend E ?i ?k c' = (Ok x, c4)"
      by (auto simp: backendRemoveHandler_def critical_defs writeError_def elim!: reply_cases)
    then have "gget (cx_backends c4) ?k = None" by (cases rule: removeBackend_cases) (use b in auto)
    then show ?thesis by (simp add: g)
  qed
  from u vs n up del b show ?thesis by (intro exI [of _ opts] exI [of _ vs] exI [of _ o2] exI [of _ p]) (simp add: g)
qed

theorem put_get_backend_witness:
  "\<exists>c' o2. backendCreateHandler ok_env (gput ''rsID'' ''n1'' (gput ''vsID'' ''web'' gempty)) (Some (backend_json node_opts)) web_ctx =
       (Ok no_content, c') \<and>
     backendStatusHandler ok_env (gput ''rsID'' ''n1'' (gput ''vsID'' ''web'' gempty)) None c' =
       (writeJSON (backend_info_json \<lparr>bi_Options = o2, bi_Metrics = zero_Metrics\<rparr>), c')"
proof -
  let ?r = "backendCreateHandler ok_env (gput ''rsID'' ''n1'' (gput ''vsID'' ''web'' gempty)) (Some (backend_json node_opts)) web_ctx"
  have "fst ?r = Ok no_content" by code_simp
  then have r: "?r = (Ok no_content, snd ?r)" by (metis prod.collapse)
  from put_get_backend [OF r no_content_code] r show ?thesis by blast
qed

end
