(* ===== verification/Gorb_Daemon.thy ===== *)
theory Gorb_Daemon
  imports Gorb_Http
begin

text \<open>
  \<open>src/main.go\<close>: how the daemon starts, and the routes of its REST interface.  The parameters are
  the host (user id, network interfaces, the resolver of listening addresses) and the router
  (gorilla/mux), of which the properties assume what its documentation says.
\<close>

section \<open>Start\<close>

text \<open>The flags of the command line; the one for verbose output is left out.\<close>

record flags =
  fl_device :: string
  fl_flush :: bool
  fl_listen :: string
  fl_consul :: string
  fl_vipInterface :: string
  fl_storeURLs :: string
  fl_storeTimeout :: i64
  fl_storeServicePath :: string
  fl_storeBackendPath :: string

definition default_flags :: flags where
  "default_flags = \<lparr>fl_device = ''eth0'', fl_flush = False, fl_listen = '':4672'', fl_consul = [],
     fl_vipInterface = [], fl_storeURLs = [], fl_storeTimeout = 60, fl_storeServicePath = ''services'',
     fl_storeBackendPath = ''backends''\<rparr>"

record 'i host =
  ho_euid :: nat
  ho_byName :: "string \<Rightarrow> string + 'i"
  ho_addrs :: "'i \<Rightarrow> string + net_addr list"
  ho_resolveTCP :: "string \<Rightarrow> string + int"

text \<open>
  The daemon serves, exits with a message (\<open>log.Fatalf\<close>, which runs no deferred call), or crashes.
  Serving ends in \<open>log.Fatal\<close> too, so the deferred \<open>Close\<close> calls of \<open>main\<close> never run.
\<close>

datatype boot = Serving "Store option" ctx | Fatal "error option" ctx | Crashed ctx

definition daemon_store :: "env \<Rightarrow> flags \<Rightarrow> ctx \<Rightarrow> boot" where
  "daemon_store E fl c =
     (if 0 < length (fl_storeURLs fl) then
        (case NewStore E (split_on CHR '','' (fl_storeURLs fl)) (fl_storeServicePath fl) (fl_storeBackendPath fl)
            (fl_storeTimeout fl) c of
           (Ok s, c') \<Rightarrow> Serving (Some s) c'
         | (Fail e, c') \<Rightarrow> Fatal (Some e) c'
         | (Panic, c') \<Rightarrow> Crashed c')
      else Serving None c)"

definition daemon_main :: "'i host \<Rightarrow> env \<Rightarrow> flags \<Rightarrow> log \<Rightarrow> boot" where
  "daemon_main H E fl l =
     (if ho_euid H \<noteq> 0 then Fatal None (new_ctx l)
      else (case InterfaceIPs (ho_byName H) (ho_addrs H) (fl_device fl) of
          Inl e \<Rightarrow> Fatal (Some e) (new_ctx l)
        | Inr hostIPs \<Rightarrow> (case ho_resolveTCP H (fl_listen fl) of
            Inl e \<Rightarrow> Fatal (Some (ErrExternal e)) (new_ctx l)
          | Inr port \<Rightarrow>
              (case NewContext E \<lparr>co_Disco = fl_consul fl, co_Endpoints = hostIPs, co_Flush = fl_flush fl,
                   co_ListenPort = word_of_int port, co_VipInterface = fl_vipInterface fl\<rparr> l of
                 (Fail e, c) \<Rightarrow> Fatal (Some e) c
               | (Panic, c) \<Rightarrow> Crashed c
               | (Ok _, c) \<Rightarrow> daemon_store E fl c))))"

section \<open>Routes\<close>

text \<open>
  The table of \<open>main\<close>, in its order: method, template, handler.  The handler of \<open>/metrics\<close> is the
  Prometheus library's.
\<close>

definition routes :: "env \<Rightarrow> handler \<Rightarrow> (string \<times> string \<times> handler) list" where
  "routes E metrics =
     [(''PUT'', ''/service/{vsID}'', serviceCreateHandler E),
      (''PUT'', ''/service/{vsID}/{rsID}'', backendCreateHandler E),
      (''PATCH'', ''/service/{vsID}'', serviceUpdateHandler E),
      (''PATCH'', ''/service/{vsID}/{rsID}'', backendUpdateHandler E),
      (''DELETE'', ''/service/{vsID}'', serviceRemoveHandler E),
      (''DELETE'', ''/service/{vsID}/{rsID}'', backendRemoveHandler E),
      (''GET'', ''/service'', serviceListHandler E),
      (''GET'', ''/service/{vsID}'', serviceStatusHandler E),
      (''GET'', ''/service/{vsID}/{rsID}'', backendStatusHandler E),
      (''GET'', ''/metrics'', metrics)]"

text \<open>
  The router picks a route by its number and extracts the variables; a request it finds no route
  for is its own to answer (\<open>None\<close>).
\<close>

type_synonym router = "(string \<times> string) list \<Rightarrow> string \<Rightarrow> string \<Rightarrow> (nat \<times> vars) option"

definition serve :: "router \<Rightarrow> env \<Rightarrow> handler \<Rightarrow> string \<Rightarrow> string \<Rightarrow> json option \<Rightarrow> ctx \<Rightarrow> (response outcome \<times> ctx) option" where
  "serve mux E metrics meth path body c =
     (let rs = routes E metrics in
      case mux (map (\<lambda>(m, t, h). (m, t)) rs) meth path of
        None \<Rightarrow> None
      | Some (n, vars) \<Rightarrow> Some (snd (snd (rs ! n)) vars body c))"

text \<open>
  What the documentation of the router says: templates are compared segment by segment, a variable
  in braces matches anything up to the next slash, and the first route that matches is taken.
\<close>

definition seg_match :: "string \<Rightarrow> string \<Rightarrow> vars \<Rightarrow> vars option" where
  "seg_match t w vs = (if t \<noteq> [] \<and> hd t = CHR ''{'' then if w = [] then None else Some (gput (butlast (tl t)) w vs)
     else if t = w then Some vs else None)"

fun segs_match :: "string list \<Rightarrow> string list \<Rightarrow> vars \<Rightarrow> vars option" where
  "segs_match [] [] vs = Some vs"
| "segs_match (t # ts) (w # ws) vs = (case seg_match t w vs of None \<Rightarrow> None | Some vs' \<Rightarrow> segs_match ts ws vs')"
| "segs_match _ _ vs = None"

fun first_match :: "nat \<Rightarrow> (string \<times> string) list \<Rightarrow> string \<Rightarrow> string \<Rightarrow> (nat \<times> vars) option" where
  "first_match n [] meth path = None"
| "first_match n ((m, t) # rs) meth path =
     (case (if m = meth then segs_match (split_on CHR ''/'' t) (split_on CHR ''/'' path) gempty else None) of
        Some vs \<Rightarrow> Some (n, vs)
      | None \<Rightarrow> first_match (Suc n) rs meth path)"

definition mux_documented :: "router \<Rightarrow> bool" where
  "mux_documented mux \<longleftrightarrow> (\<forall>rs meth ws. list_all plain_seg ws \<longrightarrow>
     mux rs meth (''/'' @ join_with ''/'' ws) = first_match 0 rs meth (''/'' @ join_with ''/'' ws))"

section \<open>The context the daemon serves\<close>

lemma wf_store_Sync: "ctx_wf E c \<Longrightarrow> ctx_wf E (snd (store_Sync E s c))"
  by (auto simp: store_Sync_def wf_Synchronize split: sum.splits)

lemma wf_NewStore:
  assumes "ctx_wf E c"
  shows "ctx_wf E (snd (NewStore E us sp bp t c))"
proof -
  have "ctx_wf E (SetStore s c)" for s using assms by (simp add: SetStore_def)
  then have "ctx_wf E (snd (store_Sync E s (SetStore s c)))" for s by (rule wf_store_Sync)
  then show ?thesis
    using assms by (auto simp: NewStore_def Let_def split: sum.splits option.splits prod.splits outcome.splits)
      (metis snd_conv)+
qed

text \<open>Serving starts as root, from a well-formed context.\<close>

lemma daemon_serves:
  assumes "daemon_main H E fl l = Serving s c"
  shows "ho_euid H = 0 \<and> ctx_wf E c \<and> (s = None \<longleftrightarrow> fl_storeURLs fl = [])"
proof -
  from assms obtain ips port r c1 where
    n: "NewContext E \<lparr>co_Disco = fl_consul fl, co_Endpoints = ips, co_Flush = fl_flush fl,
         co_ListenPort = word_of_int port, co_VipInterface = fl_vipInterface fl\<rparr> l = (r, c1)"
    and d: "daemon_store E fl c1 = Serving s c" and u: "ho_euid H = 0"
    by (auto simp: daemon_main_def split: if_splits sum.splits prod.splits outcome.splits)
  have "ctx_wf E c1" using wf_NewContext [of E _ l] n by (metis snd_conv)
  then show ?thesis
    using d u wf_NewStore [of E c1] unfolding daemon_store_def
    by (auto split: if_splits prod.splits outcome.splits) (metis snd_conv)+
qed

section \<open>Properties\<close>

lemma split_path: "list_all plain_seg ws \<Longrightarrow> ws \<noteq> [] \<Longrightarrow> split_on CHR ''/'' (CHR ''/'' # join_with ''/'' ws) = [] # ws"
  by (simp add: split_join_plain)

lemma dispatch:
  assumes "mux_documented mux" and "plain_seg v" and "plain_seg r"
  shows "let one = ''/service/'' @ v; two = one @ ''/'' @ r; vs1 = gput ''vsID'' v gempty; vs2 = gput ''rsID'' r vs1 in
    serve mux E mt meth ''/service'' body c =
      (if meth = ''GET'' then Some (serviceListHandler E gempty body c) else None) \<and>
    serve mux E mt meth one body c =
      (if meth = ''PUT'' then Some (serviceCreateHandler E vs1 body c)
       else if meth = ''PATCH'' then Some (serviceUpdateHandler E vs1 body c)
       else if meth = ''DELETE'' then Some (serviceRemoveHandler E vs1 body c)
       else if meth = ''GET'' then Some (serviceStatusHandler E vs1 body c) else None) \<and>
    serve mux E mt meth two body c =
      (if meth = ''PUT'' then Some (backendCreateHandler E vs2 body c)
       else if meth = ''PATCH'' then Some (backendUpdateHandler E vs2 body c)
       else if meth = ''DELETE'' then Some (backendRemoveHandler E vs2 body c)
       else if meth = ''GET'' then Some (backendStatusHandler E vs2 body c) else None)"
proof -
  have s: "plain_seg ''service''" by (simp add: plain_seg_def)
  have ne: "v \<noteq> []" "r \<noteq> []" using assms(2,3) by (auto simp: plain_seg_def)
  have p: "''/service'' = ''/'' @ join_with ''/'' [''service'']"
    "''/service/'' @ v = ''/'' @ join_with ''/'' [''service'', v]"
    "''/service/'' @ v @ ''/'' @ r = ''/'' @ join_with ''/'' [''service'', v, r]" by simp_all
  have mux: "mux rs m ''/service'' = first_match 0 rs m ''/service''"
    "mux rs m (''/service/'' @ v) = first_match 0 rs m (''/service/'' @ v)"
    "mux rs m (''/service/'' @ v @ ''/'' @ r) = first_match 0 rs m (''/service/'' @ v @ ''/'' @ r)" for rs m
    unfolding p by (rule assms(1) [unfolded mux_documented_def, rule_format], use assms(2,3) s in simp)+
  have sp: "split_on CHR ''/'' (''/service/'' @ v) = [[], ''service'', v]"
    "split_on CHR ''/'' (''/service/'' @ v @ ''/'' @ r) = [[], ''service'', v, r]"
    "split_on CHR ''/'' ''/service'' = [[], ''service'']"
    "split_on CHR ''/'' ''/service/{vsID}'' = [[], ''service'', ''{vsID}'']"
    "split_on CHR ''/'' ''/service/{vsID}/{rsID}'' = [[], ''service'', ''{vsID}'', ''{rsID}'']"
    "split_on CHR ''/'' ''/metrics'' = [[], ''metrics'']"
    unfolding p using split_path [of "[''service'']"] split_path [of "[''service'', v]"] split_path [of "[''service'', v, r]"] assms(2,3) s
    by (simp_all del: join_with.simps)
  show ?thesis
    unfolding Let_def append_assoc serve_def mux
    by (simp add: routes_def sp [unfolded append.simps] seg_match_def ne del: split_on.simps)
qed

text \<open>
  With a router that does what its documentation says, each method on \<open>/service/v\<close> and
  \<open>/service/v/r\<close> reaches the one handler meant for it, with the names in the path as its variables; the
  list of services is at \<open>/service\<close>, and nothing else of these paths is served.
\<close>

lemma rest_dispatch:
  assumes "mux_documented mux" and "plain_seg v" and "plain_seg r"
  shows "let one = ''/service/'' @ v; two = one @ ''/'' @ r; vs1 = gput ''vsID'' v gempty; vs2 = gput ''rsID'' r vs1 in
    serve mux E mt meth ''/service'' body c =
      (if meth = ''GET'' then Some (serviceListHandler E gempty body c) else None) \<and>
    serve mux E mt meth one body c =
      (if meth = ''PUT'' then Some (serviceCreateHandler E vs1 body c)
       else if meth = ''PATCH'' then Some (serviceUpdateHandler E vs1 body c)
       else if meth = ''DELETE'' then Some (serviceRemoveHandler E vs1 body c)
       else if meth = ''GET'' then Some (serviceStatusHandler E vs1 body c) else None) \<and>
    serve mux E mt meth two body c =
      (if meth = ''PUT'' then Some (backendCreateHandler E vs2 body c)
       else if meth = ''PATCH'' then Some (backendUpdateHandler E vs2 body c)
       else if meth = ''DELETE'' then Some (backendRemoveHandler E vs2 body c)
       else if meth = ''GET'' then Some (backendStatusHandler E vs2 body c) else None)"
  using assms by (rule dispatch)

lemma rest_dispatch_witness:
  "serve (first_match 0) ok_env (serviceListHandler ok_env) ''GET'' (''/service/'' @ ''web'') None web_ctx =
     Some (serviceStatusHandler ok_env (gput ''vsID'' ''web'' gempty) None web_ctx)"
proof -
  have "mux_documented (first_match 0)" "plain_seg ''web''" by (simp_all add: mux_documented_def plain_seg_def)
  from rest_dispatch [OF this this(2)] show ?thesis by (simp add: Let_def)
qed

end
