(* ===== verification/Gorb_Serve.thy ===== *)
theory Gorb_Serve
  imports Gorb_Reach Gorb_Daemon
begin

text \<open>
  The daemon as a whole: \<open>main\<close> starts it, clients send requests to its router, the ticker of the store
  synchronizes, and the goroutines of the context run.  Every request is at most one operation of the context,
  so the states of the daemon are states of \<open>Gorb_System\<close>.
\<close>

section \<open>The operation of a request\<close>

text \<open>What the handler of the n-th route asks of the context, if anything that changes it.\<close>

definition rest_api :: "nat \<Rightarrow> vars \<Rightarrow> json option \<Rightarrow> api option" where
  "rest_api n vars body =
     (let v = var vars ''vsID''; r = var vars ''rsID'';
          service = (\<lambda>f. case service_unmarshal body of Inl _ \<Rightarrow> None | Inr so \<Rightarrow> Some (f so));
          backend = (\<lambda>f. case backend_unmarshal body of Inl _ \<Rightarrow> None | Inr bo \<Rightarrow> Some (f bo))
      in if n = 0 then service (ApiCreateService v)
         else if n = 1 then backend (ApiCreateBackend v r)
         else if n = 2 then service (ApiUpdateService v)
         else if n = 3 then backend (\<lambda>bo. ApiUpdateBackend v r (bo_Weight bo))
         else if n = 4 then Some (ApiRemoveService v)
         else if n = 5 then Some (ApiRemoveBackend v r)
         else None)"

lemma reply_ctx: "snd (reply f r) = snd r"
  by (cases r; cases "fst r") (auto simp: reply_def)

lemma serve_api:
  assumes "serve mux E mt meth path body c = Some (r, c')" and "\<And>v b c. snd (mt v b c) = c"
    and "\<And>rs m p n v. mux rs m p = Some (n, v) \<Longrightarrow> n < length rs"
  obtains n vars where "mux (map (\<lambda>(m, t, h). (m, t)) (routes E mt)) meth path = Some (n, vars)"
    "c' = (case rest_api n vars body of None \<Rightarrow> c | Some a \<Rightarrow> api_run E a c)"
proof -
  obtain n vars where m: "mux (map (\<lambda>(m, t, h). (m, t)) (routes E mt)) meth path = Some (n, vars)"
    and h: "snd (snd (routes E mt ! n)) vars body c = (r, c')"
    using assms(1) by (auto simp: serve_def Let_def split: option.splits)
  have "n < 10" using assms(3) [OF m] by (simp add: routes_def)
  then have "n \<in> {0, 1, 2, 3, 4, 5, 6, 7, 8, 9}" by auto
  moreover have "c' = snd (snd (snd (routes E mt ! n)) vars body c)" by (simp add: h)
  ultimately have "c' = (case rest_api n vars body of None \<Rightarrow> c | Some a \<Rightarrow> api_run E a c)"
    using assms(2) [of vars body c]
    by (auto simp: routes_def rest_api_def Let_def handler_defs reply_ctx critical_defs split: sum.splits)
  with m that show thesis by blast
qed

section \<open>The states of the daemon\<close>

text \<open>
  The store is read before the lock is taken, so what a tick synchronizes with may have been read after any
  earlier log.  A tick that panics ends the daemon; a request that panics does not.  With \<open>strict\<close>, no request
  updates a service that has backends.
\<close>

inductive daemon_run :: "router \<Rightarrow> env \<Rightarrow> handler \<Rightarrow> 'i host \<Rightarrow> flags \<Rightarrow> log \<Rightarrow> bool \<Rightarrow> Store option \<Rightarrow> sys \<Rightarrow> bool"
  for mux E mt H fl l strict s where
  boot: "daemon_main H E fl l = Serving s c \<Longrightarrow> daemon_run mux E mt H fl l strict s (sys_start c)"
| rest: "daemon_run mux E mt H fl l strict s S \<Longrightarrow> serve mux E mt meth path body (sy_ctx S) = Some (r, c') \<Longrightarrow>
    (strict \<longrightarrow> (\<forall>n vars a. mux (map (\<lambda>(m, t, h). (m, t)) (routes E mt)) meth path = Some (n, vars) \<longrightarrow>
       rest_api n vars body = Some a \<longrightarrow> harmless a (sy_ctx S))) \<Longrightarrow>
    daemon_run mux E mt H fl l strict s (S\<lparr>sy_ctx := c'\<rparr>)"
| tick: "daemon_run mux E mt H fl l strict s S \<Longrightarrow> s = Some st \<Longrightarrow> getExternalServices E st l1 = Inr sv \<Longrightarrow>
    getExternalBackends E st l2 = Inr bk \<Longrightarrow> Synchronize E sv bk (sy_ctx S) = (r, c') \<Longrightarrow> r \<noteq> Panic \<Longrightarrow>
    daemon_run mux E mt H fl l strict s (S\<lparr>sy_ctx := c'\<rparr>)"
| own: "daemon_run mux E mt H fl l strict s S \<Longrightarrow> own_step E S S' \<Longrightarrow> daemon_run mux E mt H fl l strict s S'"

text \<open>The context that \<open>main\<close> serves: a new one, synchronized once when there is a store.\<close>

lemma daemon_main_ctx:
  assumes "daemon_main H E fl l = Serving s c"
  obtains options c0 where "NewContext E options l = (Ok (), c0)" "co_Flush options = fl_flush fl"
    "c = c0\<lparr>cx_store := s\<rparr> \<or> (\<exists>sv bk. c = api_run E (ApiSynchronize sv bk) (c0\<lparr>cx_store := s\<rparr>))"
proof -
  from assms obtain ips port c0 where
    n: "NewContext E \<lparr>co_Disco = fl_consul fl, co_Endpoints = ips, co_Flush = fl_flush fl,
         co_ListenPort = word_of_int port, co_VipInterface = fl_vipInterface fl\<rparr> l = (Ok (), c0)"
    and d: "daemon_store E fl c0 = Serving s c"
    by (auto simp: daemon_main_def split: if_splits sum.splits prod.splits outcome.splits)
  have "c = c0\<lparr>cx_store := s\<rparr> \<or> (\<exists>sv bk. c = api_run E (ApiSynchronize sv bk) (c0\<lparr>cx_store := s\<rparr>))"
  proof (cases "fl_storeURLs fl = []")
    case True
    have "cx_store c0 = None" by (rule NewContext_fresh(4) [OF n])
    with True d show ?thesis by (auto simp: daemon_store_def)
  next
    case False
    with d obtain st x where s: "s = Some st" and y: "store_Sync E st (c0\<lparr>cx_store := Some st\<rparr>) = (x, c)"
      by (auto simp: daemon_store_def NewStore_def SetStore_def Let_def split: sum.splits option.splits prod.splits outcome.splits if_splits)
    then show ?thesis
      by (auto simp: store_Sync_def split: sum.splits) (metis snd_conv)
  qed
  then show thesis by (rule that [OF n, rotated]) simp
qed

lemma daemon_run_system:
  assumes "\<And>v b c. snd (mt v b c) = c" and "\<And>rs m p n v. mux rs m p = Some (n, v) \<Longrightarrow> n < length rs"
    and "daemon_run mux E mt H fl l strict s S"
  shows "reachable E S" and "strict \<Longrightarrow> fl_flush fl \<Longrightarrow> calm E S"
proof -
  have "reachable E S \<and> (strict \<longrightarrow> fl_flush fl \<longrightarrow> calm E S)"
    using assms(3)
  proof (induction rule: daemon_run.induct)
    case (boot c)
    obtain options c0 where n: "NewContext E options l = (Ok (), c0)" "co_Flush options = fl_flush fl"
      and c: "c = c0\<lparr>cx_store := s\<rparr> \<or> (\<exists>sv bk. c = api_run E (ApiSynchronize sv bk) (c0\<lparr>cx_store := s\<rparr>))"
      by (rule daemon_main_ctx [OF boot])
    have r: "reachable E (sys_start (c0\<lparr>cx_store := s\<rparr>))" by (rule reachable.init [OF n(1)])
    have k: "calm E (sys_start (c0\<lparr>cx_store := s\<rparr>))" if "fl_flush fl"
      using calm.start [OF n(1)] n(2) that by simp
    have st: "(sys_start c1)\<lparr>sy_ctx := c2\<rparr> = sys_start c2" for c1 c2 by (simp add: sys_start_def)
    have "reachable E (sys_start (api_run E a (c0\<lparr>cx_store := s\<rparr>)))" for a
      using reachable.step [OF r sys_step.request [of E _ a]] by (simp add: st) (simp add: sys_start_def)
    moreover have "calm E (sys_start (api_run E (ApiSynchronize sv bk) (c0\<lparr>cx_store := s\<rparr>)))" if "fl_flush fl" for sv bk
      using calm.request [OF k [OF that], of "ApiSynchronize sv bk"] by (simp add: harmless_def sys_start_def)
    ultimately show ?case using c r k by metis
  next
    case (rest S meth path body x c')
    obtain n vars where m: "mux (map (\<lambda>(m, t, h). (m, t)) (routes E mt)) meth path = Some (n, vars)"
      and c': "c' = (case rest_api n vars body of None \<Rightarrow> sy_ctx S | Some a \<Rightarrow> api_run E a (sy_ctx S))"
      by (rule serve_api [OF rest.hyps(2) assms(1,2)])
    show ?case
    proof (cases "rest_api n vars body")
      case None
      with rest.IH c' show ?thesis by simp
    next
      case (Some a)
      have "reachable E (S\<lparr>sy_ctx := c'\<rparr>)"
        using reachable.step [OF conjunct1 [OF rest.IH] sys_step.request [of E S a]] c' Some by simp
      moreover have "strict \<longrightarrow> harmless a (sy_ctx S)" using rest.hyps(3) m Some by blast
      ultimately show ?thesis using rest.IH calm.request [of E S a] c' Some by simp
    qed
  next
    case (tick S st l1 sv l2 bk x c')
    have "c' = api_run E (ApiSynchronize sv bk) (sy_ctx S)" by (simp add: tick.hyps(5))
    then show ?case
      using reachable.step [OF conjunct1 [OF tick.IH] sys_step.request [of E S "ApiSynchronize sv bk"]]
        calm.request [of E S "ApiSynchronize sv bk"] tick.IH by (simp add: harmless_def)
  next
    case (own S S')
    then show ?case by (blast intro: reachable.step sys_step.own calm.own)
  qed
  then show "reachable E S" "strict \<Longrightarrow> fl_flush fl \<Longrightarrow> calm E S" by blast+
qed

section \<open>Properties\<close>

text \<open>
  Claim C4. However the daemon was started and whatever requests clients send to its router, ticks of the store
  with what was read at any time, and steps of its goroutines follow: the context is well-formed and the stash
  holds weights of checks that have not ended.  If it was started with the flush flag on a kernel that does as
  documented, and no request updated a service that had backends, the kernel's table is the image of the maps.
\<close>

theorem daemon_invariant:
  assumes "\<And>v b c. snd (mt v b c) = c" and "\<And>rs m p n v. mux rs m p = Some (n, v) \<Longrightarrow> n < length rs"
    and "daemon_run mux E mt H fl l strict s S"
  shows "ctx_wf E (sy_ctx S) \<and>
    (\<forall>i. sy_stash S i \<noteq> None \<longrightarrow> live S i \<or> (\<exists>u. sy_phase S = Received u \<and> up_Source u = i \<and> removed_msg u)) \<and>
    (strict \<and> fl_flush fl \<and> good_kernel E \<and> fair_iter E \<longrightarrow> consistent E (sy_ctx S))"
proof -
  note run = daemon_run_system [OF assms]
  have "sys_inv E S" by (rule reachable_inv [OF run(1)])
  then show ?thesis using run(2) consistent_calm by (auto simp: sys_inv_def stash_ok_def)
qed

lemma first_match_range: "first_match n rs m p = Some (k, v) \<Longrightarrow> k < n + length rs"
proof (induction n rs m p rule: first_match.induct)
  case (2 n m t rs meth path)
  then show ?case by (fastforce split: option.splits if_splits)
qed simp

definition plain_host :: "unit host" where
  "plain_host = \<lparr>ho_euid = 0, ho_byName = (\<lambda>_. Inr ()), ho_addrs = (\<lambda>_. Inr [IPNet [10, 0, 0, 1]]), ho_resolveTCP = (\<lambda>_. Inr 4672)\<rparr>"

definition flush_flags :: flags where
  "flush_flags = default_flags\<lparr>fl_flush := True\<rparr>"

theorem daemon_invariant_witness:
  "\<exists>c r c'. daemon_main plain_host kernel_env flush_flags [] = Serving None c \<and>
     serve (first_match 0) kernel_env (serviceListHandler kernel_env) ''PUT'' ''/service/web'' (Some (service_json web_opts)) c = Some (Ok r, c') \<and>
     rs_code r = 200 \<and> consistent kernel_env c'"
proof -
  let ?mt = "serviceListHandler kernel_env"
  let ?boot = "daemon_main plain_host kernel_env flush_flags []"
  let ?serve = "\<lambda>c. serve (first_match 0) kernel_env ?mt ''PUT'' ''/service/web'' (Some (service_json web_opts)) c"
  have "(case ?boot of Serving None c \<Rightarrow> (case ?serve c of Some (Ok r, _) \<Rightarrow> rs_code r = 200 | _ \<Rightarrow> False) | _ \<Rightarrow> False)"
    by code_simp
  then obtain c r c' where b: "?boot = Serving None c" and r: "?serve c = Some (Ok r, c')" "rs_code r = 200"
    by (auto split: boot.splits option.splits outcome.splits prod.splits)
  have m: "first_match 0 (map (\<lambda>(m, t, h). (m, t)) (routes kernel_env ?mt)) ''PUT'' ''/service/web'' = Some (0, gput ''vsID'' ''web'' gempty)"
    by (simp add: routes_def seg_match_def)
  let ?S = "(sys_start c)\<lparr>sy_ctx := c'\<rparr>"
  have "daemon_run (first_match 0) kernel_env ?mt plain_host flush_flags [] True None ?S"
    by (rule daemon_run.rest [OF daemon_run.boot [OF b]])
      (use r m in \<open>auto simp: sys_start_def rest_api_def harmless_def split: sum.splits\<close>)
  from daemon_invariant [OF _ _ this] first_match_range [of 0]
  have "consistent kernel_env (sy_ctx ?S)"
    by (auto simp: serviceListHandler_def reply_ctx critical_defs flush_flags_def)
  then show ?thesis using b r by auto
qed

end
