(* ===== verification/Gorb_Checks.thy ===== *)
theory Gorb_Checks
  imports Gorb_Reach
begin

text \<open>
  Which checks run: the stop channel of a check is closed by the time its backend leaves the map, and as long as
  the kernel does as documented not before, so the checks that run are those of the backends.
\<close>

definition owned :: "ctx \<Rightarrow> ID \<Rightarrow> Pulse \<Rightarrow> bool" where
  "owned c i p \<longleftrightarrow> (\<exists>b. gget (cx_backends c) (RsID i) = Some b \<and> b_monitor b = p)"

definition checks_owned :: "ctx \<Rightarrow> bool" where
  "checks_owned c \<longleftrightarrow>
     (\<forall>i p. (i, p) \<in> set (cx_loops c) \<longrightarrow> p_stopCh p \<notin> set (cx_closed c) \<longrightarrow> owned c i p) \<and>
     (\<forall>k b. gget (cx_backends c) k = Some b \<longrightarrow> (\<exists>v. (\<lparr>VsID = v, RsID = k\<rparr>, b_monitor b) \<in> set (cx_loops c)))"

lemma checks_ownedD:
  assumes "checks_owned c"
  shows "(i, p) \<in> set (cx_loops c) \<Longrightarrow> p_stopCh p \<notin> set (cx_closed c) \<Longrightarrow> owned c i p"
    and "gget (cx_backends c) k = Some b \<Longrightarrow> \<exists>v. (\<lparr>VsID = v, RsID = k\<rparr>, b_monitor b) \<in> set (cx_loops c)"
  using assms by (simp_all add: checks_owned_def)

text \<open>A step that starts no check, and closes the channel of every check whose backend it takes away.\<close>

lemma checks_owned_step:
  assumes c: "checks_owned c" and l: "cx_loops c' = cx_loops c" and cl: "set (cx_closed c) \<subseteq> set (cx_closed c')"
    and gone: "\<And>k b. gget (cx_backends c) k = Some b \<Longrightarrow> p_stopCh (b_monitor b) \<notin> set (cx_closed c') \<Longrightarrow>
      \<exists>b'. gget (cx_backends c') k = Some b' \<and> b_monitor b' = b_monitor b"
    and new: "\<And>k b'. gget (cx_backends c') k = Some b' \<Longrightarrow> \<exists>b. gget (cx_backends c) k = Some b \<and> b_monitor b' = b_monitor b"
  shows "checks_owned c'"
  unfolding checks_owned_def
proof (intro conjI allI impI)
  fix i p
  assume "(i, p) \<in> set (cx_loops c')" "p_stopCh p \<notin> set (cx_closed c')"
  with checks_ownedD(1) [OF c, of i p] l cl gone show "owned c' i p" by (auto simp: owned_def)
next
  fix k b'
  assume "gget (cx_backends c') k = Some b'"
  with new obtain b where "gget (cx_backends c) k = Some b" "b_monitor b' = b_monitor b" by blast
  with checks_ownedD(2) [OF c, of k b] l show "\<exists>v. (\<lparr>VsID = v, RsID = k\<rparr>, b_monitor b') \<in> set (cx_loops c')" by simp
qed

lemma checks_owned_same:
  assumes "checks_owned c" "cx_loops c' = cx_loops c" "cx_closed c' = cx_closed c" "cx_backends c' = cx_backends c"
  shows "checks_owned c'"
  using assms by (simp add: checks_owned_def owned_def)

lemma checks_owned_quiet: "quiet c c' \<Longrightarrow> checks_owned c \<Longrightarrow> checks_owned c'"
  by (rule checks_owned_same) (simp_all add: quiet_sel)

text \<open>An entry that keeps its monitor.\<close>

lemma checks_owned_put:
  assumes "checks_owned c" "gget (cx_backends c) k = Some b" "b_monitor b' = b_monitor b"
    and "cx_loops c' = cx_loops c" "cx_closed c' = cx_closed c" "cx_backends c' = gput k b' (cx_backends c)"
  shows "checks_owned c'"
  by (rule checks_owned_step [OF assms(1)]) (use assms in \<open>auto split: if_splits\<close>)

lemma owned_createService:
  assumes "createService E i so c = (r, c')" "checks_owned c"
  shows "checks_owned c'"
  using same_createService [OF assms(1)] createService_at(3,4) [OF assms(1)] assms(2)
  by (intro checks_owned_same [OF assms(2)]) (simp_all add: same_loops_def)

lemma owned_updateService:
  assumes "updateService E i so c = (r, c')" "checks_owned c"
  shows "checks_owned c'"
  using assms(1)
proof (cases rule: updateService_cases)
  case (create c1 o1 l)
  then show ?thesis using owned_createService checks_owned_quiet assms(2) by blast
next
  case (ok old c1 c2 o1 l)
  then show ?thesis
    by (intro checks_owned_same [OF assms(2)]) (simp_all add: quiet_sel [OF ok(8)] logged_to_sel [OF ok(7)] quiet_sel [OF ok(6)])
qed (use assms(2) checks_owned_quiet in blast)

lemma owned_updateBackend:
  assumes "updateBackend E i k w c = (r, c')" "checks_owned c"
  shows "checks_owned c'"
  using assms(1)
proof (cases rule: updateBackend_cases)
  case (ok b c1)
  show ?thesis
    by (rule checks_owned_put [OF assms(2) ok(1), of "b\<lparr>b_options := b_options b\<lparr>bo_Weight := w\<rparr>\<rparr>"])
      (simp_all add: ok(4) logged_to_sel [OF ok(3)])
qed (use assms(2) checks_owned_quiet in auto)

lemma owned_removeBackend:
  assumes "removeBackend E i k c = (r, c')" "checks_owned c"
  shows "checks_owned c'"
  using assms(1)
proof (cases rule: removeBackend_cases)
  case (panic b)
  then show ?thesis using assms(2) checks_owned_quiet by blast
next
  case (fail b c1)
  show ?thesis
    by (rule checks_owned_step [OF assms(2)])
      (auto simp: quiet_sel [OF fail(5)] quiet_sel [OF fail(4)])
next
  case (ok b c1 c2)
  show ?thesis
    by (rule checks_owned_step [OF assms(2)])
      (use ok(1) in \<open>auto simp: ok(6) logged_to_sel [OF ok(5)] quiet_sel [OF ok(4)] split: if_splits\<close>)
qed (use assms(2) in simp)

lemma owned_removeService:
  assumes "removeService E i c = (r, c')" "checks_owned c"
  shows "checks_owned c'"
  using assms(1)
proof (cases rule: removeService_cases)
  case (fail vs)
  show ?thesis by (rule checks_owned_same [OF assms(2)]) (simp_all add: quiet_sel [OF fail(3)])
next
  case (gone vs c1 c2 K)
  obtain bk cl l where c2: "c2 = c1\<lparr>cx_backends := bk, cx_closed := cl, cx_log := l\<rparr>"
    and bk: "\<And>k. gget bk k = (if k \<in> K then None else gget (cx_backends c1) k)"
    and cl: "set cl = set (cx_closed c1) \<union> {p_stopCh (b_monitor b) | k b. k \<in> K \<and> gget (cx_backends c1) k = Some b}"
    using gone(3) unfolding cleaned_def by blast
  show ?thesis
    by (rule checks_owned_step [OF assms(2)])
      (auto simp: quiet_sel [OF gone(4)] c2 bk cl logged_to_sel [OF gone(2)] split: if_splits)
qed (use assms(2) in simp)

lemma owned_createBackend:
  assumes "createBackend E v k bo c = (r, c')" "checks_owned c"
  shows "checks_owned c'"
  using assms(1)
proof (cases rule: createBackend_cases)
  case (ok vs o1 p c1 c2)
  have b: "cx_backends c2 = cx_backends c" "cx_closed c2 = cx_closed c" "cx_loops c2 = cx_loops c"
    by (simp_all add: logged_to_sel [OF ok(7)] quiet_sel [OF ok(5)])
  show ?thesis
    unfolding checks_owned_def
  proof (intro conjI allI impI)
    fix i q
    assume l: "(i, q) \<in> set (cx_loops c')" and o: "p_stopCh q \<notin> set (cx_closed c')"
    show "owned c' i q"
    proof (cases "(i, q) \<in> set (cx_loops c)")
      case True
      have "owned c i q" by (rule checks_ownedD(1) [OF assms(2) True]) (use o in \<open>simp add: ok(8) b\<close>)
      with ok(2) show ?thesis by (auto simp: owned_def ok(8) b)
    next
      case False
      with l show ?thesis by (auto simp: owned_def ok(8) b)
    qed
  next
    fix j x
    assume "gget (cx_backends c') j = Some x"
    then show "\<exists>v. (\<lparr>VsID = v, RsID = j\<rparr>, b_monitor x) \<in> set (cx_loops c')"
      using checks_ownedD(2) [OF assms(2), of j x] by (auto simp: ok(8) b split: if_splits)
  qed
qed (use assms(2) checks_owned_quiet in blast)+

interpretation ow: ctx_invariant checks_owned E for E
proof unfold_locales
  fix c :: ctx and i k so bo w
  assume "checks_owned c"
  then show "checks_owned (snd (createService E i so c))" "checks_owned (snd (createBackend E i k bo c))"
    "checks_owned (snd (removeService E i c))" "checks_owned (snd (removeBackend E i k c))"
    "checks_owned (snd (updateService E i so c))" "checks_owned (snd (updateBackend E i k w c))"
    using owned_createService owned_createBackend owned_removeService owned_removeBackend owned_updateService
      owned_updateBackend by (metis prod.collapse)+
qed

lemma owned_own_step:
  assumes "own_step E S S'" "checks_owned (sy_ctx S)"
  shows "checks_owned (sy_ctx S')"
  using assms(1)
proof (cases rule: own_step.cases)
  case (look u go st' c')
  from look(3) show ?thesis
  proof (cases rule: process_locked_cases)
    case (go b)
    have "checks_owned c'" unfolding go(5)
      by (rule checks_owned_put [OF assms(2) go(4), of "b\<lparr>b_metrics := up_Metrics u\<rparr>"]) simp_all
    with look(1) show ?thesis by simp
  qed (use look(1) assms(2) in simp)
next
  case (reweight u st' c')
  from reweight(3) show ?thesis
    by (cases rule: process_reweight_ctx) (use reweight(1) assms(2) ow.keep_updateBackend in simp_all)
qed (use assms(2) in \<open>simp_all add: checks_owned_def owned_def\<close>)

lemma reachable_owned: "reachable E S \<Longrightarrow> checks_owned (sy_ctx S)"
proof (induction rule: reachable.induct)
  case (init options l c store)
  then have "cx_loops c = []" "cx_backends c = gempty" using loops_NewContext NewContext_fresh by blast+
  then show ?case by (simp add: checks_owned_def sys_start_def)
next
  case (step S S')
  from step(2) show ?case
    by (cases rule: sys_step.cases) (use step.IH ow.keep_api owned_own_step in simp_all)
qed

text \<open>The checks of a context that agrees with the kernel are those of its backends.\<close>

definition check_on :: "ctx \<Rightarrow> string \<Rightarrow> Pulse \<Rightarrow> bool" where
  "check_on c k p \<longleftrightarrow> (\<exists>v. (\<lparr>VsID = v, RsID = k\<rparr>, p) \<in> set (cx_loops c)) \<and> p_stopCh p \<notin> set (cx_closed c)"

lemma consistent_checks:
  assumes "consistent E c" "checks_owned c"
  shows "check_on c k p \<longleftrightarrow> (\<exists>b. gget (cx_backends c) k = Some b \<and> b_monitor b = p)"
proof
  assume "check_on c k p"
  then show "\<exists>b. gget (cx_backends c) k = Some b \<and> b_monitor b = p"
    using checks_ownedD(1) [OF assms(2)] by (fastforce simp: check_on_def owned_def)
next
  assume "\<exists>b. gget (cx_backends c) k = Some b \<and> b_monitor b = p"
  then show "check_on c k p"
    using checks_ownedD(2) [OF assms(2)] consistentD(4) [OF assms(1)] by (auto simp: check_on_def)
qed

text \<open>
  Claim C9. In every state the daemon can come to, in any interleaving and whatever the outside answers, a check
  whose backend is gone from the map has its stop channel closed, and no two checks share a channel; and on a
  kernel that does as documented the checks that have not been stopped are exactly those of the backends in the
  map, one for each, unless a client has updated a service that had backends.
\<close>

theorem checks_of_backends:
  assumes "reachable E S"
  shows "(\<forall>i p. (i, p) \<in> set (cx_loops (sy_ctx S)) \<longrightarrow> \<not> owned (sy_ctx S) i p \<longrightarrow> p_stopCh p \<in> set (cx_closed (sy_ctx S))) \<and>
    (\<forall>i p j q. (i, p) \<in> set (cx_loops (sy_ctx S)) \<longrightarrow> (j, q) \<in> set (cx_loops (sy_ctx S)) \<longrightarrow>
      p_stopCh p = p_stopCh q \<longrightarrow> i = j \<and> p = q) \<and>
    (good_kernel E \<and> fair_iter E \<and> calm E S \<longrightarrow> (\<forall>k p. check_on (sy_ctx S) k p \<longleftrightarrow>
       (\<exists>b. gget (cx_backends (sy_ctx S)) k = Some b \<and> b_monitor b = p)))"
proof (intro conjI)
  note o = reachable_owned [OF assms]
  show "\<forall>i p. (i, p) \<in> set (cx_loops (sy_ctx S)) \<longrightarrow> \<not> owned (sy_ctx S) i p \<longrightarrow> p_stopCh p \<in> set (cx_closed (sy_ctx S))"
    using checks_ownedD(1) [OF o] by blast
  have "loops_ok (sy_ctx S)" using reachable_inv [OF assms] by (simp add: sys_inv_def)
  then show "\<forall>i p j q. (i, p) \<in> set (cx_loops (sy_ctx S)) \<longrightarrow> (j, q) \<in> set (cx_loops (sy_ctx S)) \<longrightarrow>
      p_stopCh p = p_stopCh q \<longrightarrow> i = j \<and> p = q"
    by (simp add: loops_ok_def)
  show "good_kernel E \<and> fair_iter E \<and> calm E S \<longrightarrow> (\<forall>k p. check_on (sy_ctx S) k p \<longleftrightarrow>
      (\<exists>b. gget (cx_backends (sy_ctx S)) k = Some b \<and> b_monitor b = p))"
    using consistent_checks [OF consistent_calm o] by blast
qed

section \<open>What a synchronization leaves alone\<close>

text \<open>A backend, its service and its check, as they were.\<close>

definition kept :: "env \<Rightarrow> string \<Rightarrow> string \<Rightarrow> backend \<Rightarrow> bool \<Rightarrow> ctx \<Rightarrow> bool" where
  "kept E i k b stopped c \<longleftrightarrow> ctx_wf E c \<and> gget (cx_services c) i = Some (b_service b) \<and>
     gget (cx_backends c) k = Some b \<and> (p_stopCh (b_monitor b) \<in> set (cx_closed c) \<longleftrightarrow> stopped)"

lemma keptD:
  assumes "kept E i k b st c"
  shows "ctx_wf E c" "gget (cx_services c) i = Some (b_service b)" "gget (cx_backends c) k = Some b"
    "p_stopCh (b_monitor b) \<in> set (cx_closed c) \<longleftrightarrow> st"
  using assms by (simp_all add: kept_def)

lemma kept_channel:
  assumes "kept E i k b st c" "gget (cx_backends c) j = Some x" "p_stopCh (b_monitor x) = p_stopCh (b_monitor b)"
  shows "j = k"
  using keptD(1,3) [OF assms(1)] assms(2,3) wf_mapsD(4) unfolding ctx_wf_def by blast

lemma removeService_detached:
  assumes "removeService E i c = (r, c')"
    and "\<forall>vs b. gget (cx_services c) i = Some vs \<longrightarrow> gget (cx_backends c) k = Some b \<longrightarrow> \<not> attached vs b"
  shows "gget (cx_backends c') k = gget (cx_backends c) k"
    and "ch \<in> set (cx_closed c') \<Longrightarrow> ch \<in> set (cx_closed c) \<or>
      (\<exists>j b. j \<noteq> k \<and> gget (cx_backends c) j = Some b \<and> p_stopCh (b_monitor b) = ch)"
proof -
  have "gget (cx_backends c') k = gget (cx_backends c) k \<and> (ch \<in> set (cx_closed c') \<longrightarrow> ch \<in> set (cx_closed c) \<or>
      (\<exists>j b. j \<noteq> k \<and> gget (cx_backends c) j = Some b \<and> p_stopCh (b_monitor b) = ch))"
    using assms(1)
  proof (cases rule: removeService_cases)
    case (fail vs)
    then show ?thesis by (simp add: quiet_sel)
  next
    case (gone vs c1 c2 K)
    have b1: "cx_backends c1 = cx_backends c" "cx_closed c1 = cx_closed c" by (simp_all add: logged_to_sel [OF gone(2)])
    have K: "k \<notin> K"
    proof
      assume "k \<in> K"
      then obtain b where "gget (cx_backends c) k = Some b" "s_addr (b_service b) = s_addr vs"
        using gone(3) b1 by (auto simp: cleaned_def)
      with assms(2) gone(1) show False by (simp add: attached_def)
    qed
    have "gget (cx_backends c2) k = gget (cx_backends c1) k" using gone(3) K by (auto simp: cleaned_def)
    moreover have "set (cx_closed c2) = set (cx_closed c1) \<union>
        {p_stopCh (b_monitor b) | j b. j \<in> K \<and> gget (cx_backends c1) j = Some b}"
      using gone(3) by (auto simp: cleaned_def)
    ultimately show ?thesis using K by (auto simp: quiet_sel [OF gone(4)] b1)
  qed simp
  then show "gget (cx_backends c') k = gget (cx_backends c) k"
    "ch \<in> set (cx_closed c') \<Longrightarrow> ch \<in> set (cx_closed c) \<or>
      (\<exists>j b. j \<noteq> k \<and> gget (cx_backends c) j = Some b \<and> p_stopCh (b_monitor b) = ch)" by blast+
qed

lemma kept_removeService:
  assumes k: "kept E i k b st c" and j: "j \<noteq> i" and r: "removeService E j c = (r, c')"
  shows "kept E i k b st c'"
proof -
  note d = keptD [OF k]
  have "\<forall>vs x. gget (cx_services c) j = Some vs \<longrightarrow> gget (cx_backends c) k = Some x \<longrightarrow> \<not> attached vs x"
    using d(1-3) j wf_mapsD(2) unfolding ctx_wf_def attached_def by (metis option.inject)
  note rm = removeService_detached [OF r this]
  have "ctx_wf E c'" using wf_removeService [OF d(1), of j] r by simp
  moreover have "p_stopCh (b_monitor b) \<in> set (cx_closed c') \<longleftrightarrow> st"
    using rm(2) [of "p_stopCh (b_monitor b)"] removeService_at(3) [OF r] d(4) kept_channel [OF k] by blast
  ultimately show ?thesis using rm(1) d(2,3) j removeService_at(1) [OF r, of i] by (simp add: kept_def)
qed

lemma kept_createService:
  assumes "kept E i k b st c" "j \<noteq> i" "createService E j so c = (r, c')"
  shows "kept E i k b st c'"
  using keptD [OF assms(1)] createService_at(1,3,4) [OF assms(3)] wf_createService [of E c j so] assms(2,3)
  by (simp add: kept_def)

lemma kept_createBackend:
  assumes "kept E i k b st c" "j \<noteq> k" "createBackend E v j bo c = (r, c')"
  shows "kept E i k b st c'"
  using keptD [OF assms(1)] createBackend_at [OF assms(3)] wf_createBackend [of E c v j bo] assms(2,3)
  by (simp add: kept_def)

lemma kept_removeBackend:
  assumes k: "kept E i k b st c" and j: "j \<noteq> k" and r: "removeBackend E v j c = (r, c')"
  shows "kept E i k b st c'"
proof -
  note d = keptD [OF k]
  have n: "p_stopCh (b_monitor x) \<noteq> p_stopCh (b_monitor b)" if "gget (cx_backends c) j = Some x" for x
    using kept_channel [OF k that] j by blast
  have "p_stopCh (b_monitor b) \<in> set (cx_closed c') \<longleftrightarrow> p_stopCh (b_monitor b) \<in> set (cx_closed c)"
    using r
  proof (cases rule: removeBackend_cases)
    case (panic x)
    then show ?thesis by (simp add: quiet_sel)
  next
    case (fail x c1)
    with n show ?thesis by (auto simp: quiet_sel)
  next
    case (ok x c1 c2)
    with n show ?thesis by (auto simp: logged_to_sel quiet_sel)
  qed simp
  then show ?thesis
    using d removeBackend_at(1,2) [OF r] wf_removeBackend [OF d(1), of v j] j r by (simp add: kept_def)
qed

lemma kept_sync_del_services:
  "kept E i k b st c \<Longrightarrow> gget sv i \<noteq> None \<Longrightarrow> kept E i k b st (snd (sync_del_services E sv ks c))"
proof (induction ks arbitrary: c)
  case (Cons j ks)
  obtain r c1 where r: "removeService E j c = (r, c1)" by force
  have "kept E i k b st c1" if "gget sv j = None" by (rule kept_removeService [OF Cons.prems(1) _ r]) (use that Cons.prems(2) in auto)
  with Cons r show ?case by (auto split: outcome.split)
qed simp

lemma kept_sync_service:
  assumes "kept E i k b st c" "j = i \<longrightarrow> service_Compare (s_options (b_service b)) so"
  shows "kept E i k b st (snd (sync_service E j so c))"
proof (cases "j = i")
  case True
  with assms keptD(2) [OF assms(1)] show ?thesis by (simp add: sync_service_def)
next
  case False
  obtain r c1 where r: "removeService E j c = (r, c1)" by force
  have k1: "kept E i k b st c1" by (rule kept_removeService [OF assms(1) False r])
  have cr: "kept E i k b st (snd (createService E j so d))" if "kept E i k b st d" for d
    using kept_createService [OF that False] by (metis prod.collapse)
  show ?thesis
    using assms(1) k1 r cr by (auto simp: sync_service_def split: option.split outcome.split)
qed

lemma kept_sync_add_services:
  "kept E i k b st c \<Longrightarrow> gget sv i = Some so \<Longrightarrow> service_Compare (s_options (b_service b)) so \<Longrightarrow>
     kept E i k b st (snd (sync_add_services E sv ks c))"
proof (induction ks arbitrary: c)
  case (Cons j ks)
  have "kept E i k b st (snd (sync_service E j o1 c))" if "gget sv j = Some o1" for o1
    by (rule kept_sync_service [OF Cons.prems(1)]) (use that Cons.prems(2,3) in auto)
  with Cons show ?case by (auto split: option.split outcome.split prod.split)
qed simp

lemma kept_sync_del_backends:
  "kept E i k b st c \<Longrightarrow> gget bk k \<noteq> None \<Longrightarrow> kept E i k b st (snd (sync_del_backends E bk ks c))"
proof (induction ks arbitrary: c)
  case (Cons j ks)
  have "kept E i k b st (snd (removeBackend E v j c))" if "gget bk j = None" for v
    using kept_removeBackend [OF Cons.prems(1)] that Cons.prems(2) by (metis prod.collapse)
  with Cons show ?case by (auto split: option.split outcome.split prod.split) (metis snd_conv)+
qed simp

lemma kept_sync_backend:
  assumes "kept E i k b st c" "j = k \<longrightarrow> backend_Compare (b_options b) bo"
  shows "kept E i k b st (snd (sync_backend E j bo c))"
proof (cases "j = k")
  case True
  with assms keptD(3) [OF assms(1)] show ?thesis by (simp add: sync_backend_def)
next
  case False
  obtain r c1 where r: "removeBackend E (bo_VsID bo) j c = (r, c1)" by force
  have k1: "kept E i k b st c1" by (rule kept_removeBackend [OF assms(1) False r])
  have cr: "kept E i k b st (snd (createBackend E (bo_VsID bo) j bo d))" if "kept E i k b st d" for d
    using kept_createBackend [OF that False] by (metis prod.collapse)
  show ?thesis
    using assms(1) k1 r cr by (auto simp: sync_backend_def split: option.split outcome.split)
qed

lemma kept_sync_add_backends:
  "kept E i k b st c \<Longrightarrow> gget bk k = Some bo \<Longrightarrow> backend_Compare (b_options b) bo \<Longrightarrow>
     kept E i k b st (snd (sync_add_backends E bk ks c))"
proof (induction ks arbitrary: c)
  case (Cons j ks)
  have "kept E i k b st (snd (sync_backend E j o1 c))" if "gget bk j = Some o1" for o1
    by (rule kept_sync_backend [OF Cons.prems(1)]) (use that Cons.prems(2,3) in auto)
  with Cons show ?case by (auto split: option.split outcome.split prod.split)
qed simp

lemma kept_Synchronize:
  assumes "kept E i k b st c" "gget sv i = Some so" "service_Compare (s_options (b_service b)) so"
    and "gget bk k = Some bo" "backend_Compare (b_options b) bo"
  shows "kept E i k b st (snd (Synchronize E sv bk c))"
  unfolding Synchronize_def
  by (intro and_then_inv [where P = "kept E i k b st"] kept_sync_del_services kept_sync_add_services
      kept_sync_del_backends kept_sync_add_backends) (use assms in auto)

text \<open>
  Claim C16. A synchronization does not touch a backend whose entry in the store, and that of its service, agree
  with it in what is compared, whatever else changes and even if it panics half way: its options, the weight its
  check has given it, its metrics and its check stay as they are, and so does its weight in the kernel's table
  when the kernel does as documented.
\<close>

theorem sync_spares_agreeing:
  assumes "ctx_wf E c" and "Synchronize E sv bk c = (r, c')"
    and "gget (cx_backends c) k = Some b" and "gget (cx_services c) i = Some (b_service b)"
    and "gget sv i = Some so" and "service_Compare (s_options (b_service b)) so"
    and "gget bk k = Some bo" and "backend_Compare (b_options b) bo"
  shows "gget (cx_backends c') k = Some b \<and> gget (cx_services c') i = Some (b_service b) \<and>
    (p_stopCh (b_monitor b) \<in> set (cx_closed c') \<longleftrightarrow> p_stopCh (b_monitor b) \<in> set (cx_closed c)) \<and>
    (good_kernel E \<and> fair_iter E \<and> consistent E c \<longrightarrow> kernel_weight c' b = Some (bo_Weight (b_options b)))"
proof -
  let ?st = "p_stopCh (b_monitor b) \<in> set (cx_closed c)"
  have "kept E i k b ?st c" using assms(1,3,4) by (simp add: kept_def)
  from kept_Synchronize [OF this assms(5-8)] assms(2) have "kept E i k b ?st c'" by simp
  note d = keptD [OF this]
  have "kernel_weight c' b = Some (bo_Weight (b_options b))" if "good_kernel E" "fair_iter E" "consistent E c"
  proof -
    have "agreeing E c" using that(3) by (simp add: agreeing_def)
    then have "agreeing E c'" using ag.keep_Synchronize [of E c sv bk] assms(2) by simp
    then have "consistent E c'" using that(1,2) by (simp add: agreeing_def)
    then show ?thesis by (rule kernel_weight_of [where k = k]) (use d(3) in \<open>simp_all add: weight_of_def\<close>)
  qed
  with d(2-4) show ?thesis by blast
qed

text \<open>A service with one backend, created by a client after the start.\<close>

definition demo_ctx :: ctx where
  "demo_ctx = snd (createBackend kernel_env ''web'' ''n1'' node_opts (snd (createService kernel_env ''web'' web_opts
     (snd (NewContext kernel_env plain_options [])))))"

lemma demo_start: "calm kernel_env (sys_start demo_ctx)"
proof -
  let ?c = "snd (NewContext kernel_env plain_options [])"
  have "fst (NewContext kernel_env plain_options []) = Ok ()" by code_simp
  then have c: "NewContext kernel_env plain_options [] = (Ok (), ?c)" by (metis prod.collapse)
  let ?S0 = "sys_start (?c\<lparr>cx_store := cx_store ?c\<rparr>)"
  let ?S1 = "?S0\<lparr>sy_ctx := api_run kernel_env (ApiCreateService ''web'' web_opts) (sy_ctx ?S0)\<rparr>"
  let ?S2 = "?S1\<lparr>sy_ctx := api_run kernel_env (ApiCreateBackend ''web'' ''n1'' node_opts) (sy_ctx ?S1)\<rparr>"
  have "calm kernel_env ?S2"
    by (intro calm.request calm.start [OF c]) (simp_all add: harmless_def)
  moreover have "?S2 = sys_start demo_ctx" by (simp add: sys_start_def critical_defs demo_ctx_def)
  ultimately show ?thesis by simp
qed

lemma demo_checks: "case cx_loops demo_ctx of [(j, q)] \<Rightarrow> j = n1 | _ \<Rightarrow> False" "cx_closed demo_ctx = []"
  by code_simp+

theorem checks_of_backends_witness:
  "\<exists>p b. cx_loops demo_ctx = [(n1, p)] \<and> gget (cx_backends demo_ctx) ''n1'' = Some b \<and> b_monitor b = p"
proof -
  obtain p where l: "cx_loops demo_ctx = [(n1, p)]" using demo_checks(1) by (auto split: list.splits)
  then have "check_on demo_ctx ''n1'' p" using demo_checks(2) by (auto simp: check_on_def n1_def)
  moreover have "sy_ctx (sys_start demo_ctx) = demo_ctx" by (simp add: sys_start_def)
  ultimately show ?thesis
    using checks_of_backends [OF calm_reachable [OF demo_start]] demo_start good_kernel_env kernel_ok_env(2) l by metis
qed

text \<open>The store has a new service, and another weight for the backend.\<close>

definition demo_services :: "ServiceOptions gomap" where
  "demo_services = gput ''api'' (web_opts\<lparr>so_Port := 81\<rparr>) (gput ''web'' web_opts gempty)"

definition demo_backends :: "BackendOptions gomap" where
  "demo_backends = gput ''n1'' (node_opts\<lparr>bo_Method := ''nat'', bo_VsID := ''web'', bo_Weight := 99\<rparr>) gempty"

theorem sync_spares_agreeing_witness:
  "\<exists>b c'. gget (cx_backends demo_ctx) ''n1'' = Some b \<and> bo_Weight (b_options b) = 10 \<and>
     Synchronize kernel_env demo_services demo_backends demo_ctx = (Ok (), c') \<and>
     gget (cx_services c') ''api'' \<noteq> None \<and> gget (cx_backends c') ''n1'' = Some b \<and> kernel_weight c' b = Some 10"
proof -
  let ?r = "Synchronize kernel_env demo_services demo_backends demo_ctx"
  have "fst ?r = Ok ()" "gget (cx_services (snd ?r)) ''api'' \<noteq> None" by code_simp+
  then obtain c' where s: "?r = (Ok (), c')" "gget (cx_services c') ''api'' \<noteq> None" by (metis prod.collapse)
  have "case gget (cx_backends demo_ctx) ''n1'' of None \<Rightarrow> False
      | Some b \<Rightarrow> bo_Weight (b_options b) = 10 \<and> gget (cx_services demo_ctx) ''web'' = Some (b_service b) \<and>
          service_Compare (s_options (b_service b)) web_opts \<and>
          backend_Compare (b_options b) (node_opts\<lparr>bo_Method := ''nat'', bo_VsID := ''web'', bo_Weight := 99\<rparr>)"
    by code_simp
  then obtain b where b: "gget (cx_backends demo_ctx) ''n1'' = Some b" "bo_Weight (b_options b) = 10"
    "gget (cx_services demo_ctx) ''web'' = Some (b_service b)" "service_Compare (s_options (b_service b)) web_opts"
    "backend_Compare (b_options b) (node_opts\<lparr>bo_Method := ''nat'', bo_VsID := ''web'', bo_Weight := 99\<rparr>)"
    by (auto split: option.splits)
  have c: "consistent kernel_env demo_ctx"
    using consistent_calm [OF good_kernel_env kernel_ok_env(2) demo_start] by (simp add: sys_start_def)
  have e: "gget demo_services ''web'' = Some web_opts"
    "gget demo_backends ''n1'' = Some (node_opts\<lparr>bo_Method := ''nat'', bo_VsID := ''web'', bo_Weight := 99\<rparr>)"
    by (simp_all add: demo_services_def demo_backends_def)
  from sync_spares_agreeing [OF consistentD(1) [OF c] s(1) b(1,3) e(1) b(4) e(2) b(5)] c s b
  show ?thesis by auto
qed

end
