(* ===== verification/Gorb_Fair.thy ===== *)
theory Gorb_Fair
  imports Gorb_Checks
begin

text \<open>
  What the daemon comes to in the end.  A run is an infinite sequence of the steps of \<open>Gorb_System\<close>; it is
  fair when the goroutine of \<open>src/core/runtime.go\<close> is not held up forever with a message in its hands, a check
  that was started gets to run, and a check that is ready to hand over a message again and again hands one over
  again and again, its last one included once its stop channel is closed (a \<open>select\<close> of Go chooses among the
  cases that are ready at random, and the senders waiting on a channel are served in turn).
\<close>

section \<open>Infinite runs and fairness\<close>

definition enabled :: "('s \<Rightarrow> 's \<Rightarrow> bool) \<Rightarrow> 's \<Rightarrow> bool" where
  "enabled A s \<longleftrightarrow> (\<exists>t. A s t)"

definition weakly_fair :: "('s \<Rightarrow> 's \<Rightarrow> bool) \<Rightarrow> (nat \<Rightarrow> 's) \<Rightarrow> bool" where
  "weakly_fair A f \<longleftrightarrow> (\<forall>n. (\<forall>m \<ge> n. enabled A (f m)) \<longrightarrow> (\<exists>m \<ge> n. A (f m) (f (Suc m))))"

definition strongly_fair :: "('s \<Rightarrow> 's \<Rightarrow> bool) \<Rightarrow> (nat \<Rightarrow> 's) \<Rightarrow> bool" where
  "strongly_fair A f \<longleftrightarrow> (\<forall>n. (\<forall>m \<ge> n. \<exists>j \<ge> m. enabled A (f j)) \<longrightarrow> (\<exists>m \<ge> n. A (f m) (f (Suc m))))"

lemma stays:
  assumes "n \<le> m" "P (f n)" "\<And>j. n \<le> j \<Longrightarrow> P (f j) \<Longrightarrow> P (f (Suc j))"
  shows "P (f m)"
  using assms(1) by (induction m rule: dec_induct) (use assms(2,3) in auto)

lemma waits:
  assumes "P (f n)" "\<And>j. n \<le> j \<Longrightarrow> P (f j) \<Longrightarrow> P (f (Suc j)) \<or> Q (f (Suc j))"
  shows "(\<exists>m \<ge> n. Q (f m)) \<or> (\<forall>m \<ge> n. P (f m))"
proof (rule disjCI)
  assume never: "\<not> (\<forall>m \<ge> n. P (f m))"
  show "\<exists>m \<ge> n. Q (f m)"
  proof (rule ccontr)
    assume q: "\<not> (\<exists>m \<ge> n. Q (f m))"
    have "P (f (Suc j))" if "n \<le> j" "P (f j)" for j using assms(2) [OF that] q that(1) le_SucI by blast
    then show False using never stays [of n _ P f] assms(1) by blast
  qed
qed

text \<open>
  While an action stays possible, and nothing but reaching the aim ends that, a weakly fair run reaches it;
  a strongly fair one when the action is possible again and again.
\<close>

lemma weakly_fair_leads:
  assumes fair: "weakly_fair A f" and P: "P (f n)"
    and keep: "\<And>j. n \<le> j \<Longrightarrow> P (f j) \<Longrightarrow> P (f (Suc j)) \<or> Q (f (Suc j))"
    and can: "\<And>j. n \<le> j \<Longrightarrow> P (f j) \<Longrightarrow> enabled A (f j)"
    and act: "\<And>j. n \<le> j \<Longrightarrow> P (f j) \<Longrightarrow> A (f j) (f (Suc j)) \<Longrightarrow> Q (f (Suc j))"
  shows "\<exists>m \<ge> n. Q (f m)"
proof (rule disjE [OF waits [where P = P and Q = Q, OF P keep]])
  assume always: "\<forall>m \<ge> n. P (f m)"
  with can have "\<forall>m \<ge> n. enabled A (f m)" by blast
  then obtain m where m: "n \<le> m" "A (f m) (f (Suc m))" using fair unfolding weakly_fair_def by blast
  with always act have "Q (f (Suc m))" by blast
  with m(1) show ?thesis using le_SucI by blast
qed

lemma strongly_fair_leads:
  assumes fair: "strongly_fair A f" and P: "P (f n)"
    and keep: "\<And>j. n \<le> j \<Longrightarrow> P (f j) \<Longrightarrow> P (f (Suc j)) \<or> Q (f (Suc j))"
    and can: "\<And>m. \<forall>j \<ge> n. P (f j) \<Longrightarrow> n \<le> m \<Longrightarrow> \<exists>j \<ge> m. enabled A (f j)"
    and act: "\<And>j. n \<le> j \<Longrightarrow> P (f j) \<Longrightarrow> A (f j) (f (Suc j)) \<Longrightarrow> Q (f (Suc j))"
  shows "\<exists>m \<ge> n. Q (f m)"
proof (rule disjE [OF waits [where P = P and Q = Q, OF P keep]])
  assume always: "\<forall>m \<ge> n. P (f m)"
  with can have "\<forall>m \<ge> n. \<exists>j \<ge> m. enabled A (f j)" by blast
  then obtain m where m: "n \<le> m" "A (f m) (f (Suc m))" using fair unfolding strongly_fair_def by blast
  with always act have "Q (f (Suc m))" by blast
  with m(1) show ?thesis using le_SucI by blast
qed

section \<open>The actions of the daemon\<close>

text \<open>A step of the goroutine that consumes the messages, on the message it holds.\<close>

definition consumer_act :: "env \<Rightarrow> sys \<Rightarrow> sys \<Rightarrow> bool" where
  "consumer_act E S S' \<longleftrightarrow> own_step E S S' \<and> (\<exists>u. sy_phase S = Received u \<or> sy_phase S = Reweighting u) \<and>
     sy_phase S' \<noteq> sy_phase S"

text \<open>The goroutine of a check runs for the first time; a check hands over a message; its last one.\<close>

definition begin_act :: "ID \<Rightarrow> Pulse \<Rightarrow> sys \<Rightarrow> sys \<Rightarrow> bool" where
  "begin_act i p S S' \<longleftrightarrow> (i, p) \<in> set (cx_loops (sy_ctx S)) \<and> sy_loop S (p_stopCh p) = None \<and>
     (\<exists>r d. first_interval r p = Ok d \<and> S' = S\<lparr>sy_loop := (sy_loop S)(p_stopCh p \<mapsto> loop_start p d)\<rparr>)"

definition send_act :: "ID \<Rightarrow> Pulse \<Rightarrow> sys \<Rightarrow> sys \<Rightarrow> bool" where
  "send_act i p S S' \<longleftrightarrow> (i, p) \<in> set (cx_loops (sy_ctx S)) \<and> sy_phase S = Waiting \<and>
     (\<exists>s u s'. sy_loop S (p_stopCh p) = Some s \<and> loop_step p i s (Some u) s' \<and>
        (lp_done s' \<longrightarrow> p_stopCh p \<in> set (cx_closed (sy_ctx S))) \<and>
        S' = S\<lparr>sy_phase := Received u, sy_loop := (sy_loop S)(p_stopCh p \<mapsto> s')\<rparr>)"

definition check_ended :: "Pulse \<Rightarrow> sys \<Rightarrow> bool" where
  "check_ended p S \<longleftrightarrow> (\<exists>s. sy_loop S (p_stopCh p) = Some s \<and> lp_done s)"

definition check_runs :: "ID \<Rightarrow> Pulse \<Rightarrow> sys \<Rightarrow> bool" where
  "check_runs i p S \<longleftrightarrow> (i, p) \<in> set (cx_loops (sy_ctx S)) \<and>
     (\<exists>s. sy_loop S (p_stopCh p) = Some s \<and> \<not> lp_done s)"

definition last_act :: "ID \<Rightarrow> Pulse \<Rightarrow> sys \<Rightarrow> sys \<Rightarrow> bool" where
  "last_act i p S S' \<longleftrightarrow> send_act i p S S' \<and> check_ended p S'"

definition fair_daemon :: "env \<Rightarrow> (nat \<Rightarrow> sys) \<Rightarrow> bool" where
  "fair_daemon E f \<longleftrightarrow> weakly_fair (consumer_act E) f \<and>
     (\<forall>i p. weakly_fair (begin_act i p) f \<and> strongly_fair (send_act i p) f \<and> strongly_fair (last_act i p) f)"

lemma fair_daemonD:
  assumes "fair_daemon E f"
  shows "weakly_fair (consumer_act E) f" "weakly_fair (begin_act i p) f"
    "strongly_fair (send_act i p) f" "strongly_fair (last_act i p) f"
  using assms by (simp_all add: fair_daemon_def)

definition sys_run :: "env \<Rightarrow> (nat \<Rightarrow> sys) \<Rightarrow> bool" where
  "sys_run E f \<longleftrightarrow> reachable E (f 0) \<and> (\<forall>n. sys_step E (f n) (f (Suc n)))"

lemma run_reachable: "sys_run E f \<Longrightarrow> reachable E (f n)"
  by (induction n) (auto simp: sys_run_def intro: reachable.step)

lemma run_step: "sys_run E f \<Longrightarrow> sys_step E (f n) (f (Suc n))"
  by (simp add: sys_run_def)

lemma send_actI:
  assumes "(i, p) \<in> set (cx_loops (sy_ctx S))" "sy_phase S = Waiting" "sy_loop S (p_stopCh p) = Some s"
    and "loop_step p i s (Some u) s'" "lp_done s' \<longrightarrow> p_stopCh p \<in> set (cx_closed (sy_ctx S))"
  shows "send_act i p S (S\<lparr>sy_phase := Received u, sy_loop := (sy_loop S)(p_stopCh p \<mapsto> s')\<rparr>)"
  unfolding send_act_def using assms by (intro conjI exI [of _ s] exI [of _ u] exI [of _ s']) simp_all

section \<open>What no step takes back\<close>

text \<open>Stop channels stay closed, and a context that was closed stays so.\<close>

lemma closed_updateService:
  assumes "updateService E i so c = (r, c')"
  shows "cx_closed c' = cx_closed c"
  using assms
proof (cases rule: updateService_cases)
  case (create c1 o1 l)
  then show ?thesis using createService_at(4) [OF create(4)] by (simp add: quiet_sel [OF create(1)])
next
  case (ok old c1 c2 o1 l)
  then show ?thesis by (simp add: quiet_sel [OF ok(8)] logged_to_sel [OF ok(7)] quiet_sel [OF ok(6)])
qed (simp add: quiet_sel)

interpretation cl: ctx_invariant "\<lambda>c :: ctx. C \<subseteq> set (cx_closed c)" E for C E
proof unfold_locales
  fix c :: ctx and i k so bo w
  assume c: "C \<subseteq> set (cx_closed c)"
  show "C \<subseteq> set (cx_closed (snd (createService E i so c)))"
    using c createService_at(4) [of E i so c] by (metis prod.collapse)
  show "C \<subseteq> set (cx_closed (snd (createBackend E i k bo c)))"
    using c createBackend_at(3) [of E i k bo c] by (metis prod.collapse)
  show "C \<subseteq> set (cx_closed (snd (removeService E i c)))"
    using c removeService_at(3) [of E i c] by (metis order_trans prod.collapse)
  show "C \<subseteq> set (cx_closed (snd (removeBackend E i k c)))"
    using c removeBackend_at(3) [of E i k c] by (metis order_trans prod.collapse)
  show "C \<subseteq> set (cx_closed (snd (updateService E i so c)))"
    using c closed_updateService [of E i so c] by (metis prod.collapse)
  show "C \<subseteq> set (cx_closed (snd (updateBackend E i k w c)))"
    using c updateBackend_keeps(1) [OF refl, of E i k w c] by simp
qed

text \<open>Every check that is started has a positive interval, so that its goroutine can begin.\<close>

definition timed :: "ctx \<Rightarrow> bool" where
  "timed c \<longleftrightarrow> (\<forall>(i, p) \<in> set (cx_loops c). 0 < sint (p_interval p))"

lemma timed_same: "timed c \<Longrightarrow> same_loops c c' \<Longrightarrow> timed c'"
  by (simp add: timed_def same_loops_def)

lemma same_timed: "(\<And>r c'. g c = (r, c') \<Longrightarrow> same_loops c c') \<Longrightarrow> timed c \<Longrightarrow> timed (snd (g c))"
  using timed_same by (metis prod.collapse)

lemma New_timed: "pulse_New E l ch h p opts = Ok (x, o') \<Longrightarrow> 0 < sint (p_interval x)"
  using Validate_Ok [of opts] by (auto simp: pulse_New_def split: sum.splits option.splits outcome.splits)

lemma timed_createBackend:
  assumes "timed c" "createBackend E i k bo c = (r, c')"
  shows "timed c'"
  using assms(2)
proof (cases rule: createBackend_cases)
  case (ok vs o1 p c1 c2)
  from ok(4) obtain l host port po po' where n: "pulse_New E l (cx_next c) host port po = Ok (p, po')"
    unfolding new_backend_def by blast
  then show ?thesis
    using assms(1) New_timed [OF n] by (simp add: timed_def ok(8) logged_to_sel [OF ok(7)] quiet_sel [OF ok(5)])
qed (use assms(1) in \<open>simp_all add: timed_def quiet_sel\<close>)

interpretation tm: ctx_invariant timed E for E
  by unfold_locales (simp_all add: same_timed same_createService same_updateService same_updateBackend
      same_removeService same_removeBackend, metis timed_createBackend prod.collapse)

lemma own_step_loops:
  assumes "own_step E S S'"
  shows "cx_loops (sy_ctx S') = cx_loops (sy_ctx S)" "cx_closed (sy_ctx S') = cx_closed (sy_ctx S)"
proof -
  from assms have "cx_loops (sy_ctx S') = cx_loops (sy_ctx S) \<and> cx_closed (sy_ctx S') = cx_closed (sy_ctx S)"
  proof (cases rule: own_step.cases)
    case (look u go st' c')
    from look(3) show ?thesis by (cases rule: process_locked_cases) (use look(1) in auto)
  next
    case (reweight u st' c')
    from reweight(3) show ?thesis
    proof (cases rule: process_reweight_ctx)
      case (2 w)
      with updateBackend_keeps(1,2) [OF 2] reweight(1) show ?thesis by simp
    qed (use reweight(1) in simp)
  qed simp_all
  then show "cx_loops (sy_ctx S') = cx_loops (sy_ctx S)" "cx_closed (sy_ctx S') = cx_closed (sy_ctx S)" by blast+
qed

lemma reachable_timed: "reachable E S \<Longrightarrow> timed (sy_ctx S)"
proof (induction rule: reachable.induct)
  case (init options l c store)
  then show ?case by (simp add: timed_def sys_start_def loops_NewContext)
next
  case (step S S')
  from step(2) show ?case
  proof (cases rule: sys_step.cases)
    case (request a)
    with step.IH tm.keep_api show ?thesis by simp
  next
    case own
    with step.IH own_step_loops [of E S S'] show ?thesis by (simp add: timed_def)
  qed
qed

text \<open>One step of any kind.\<close>

definition grows :: "sys \<Rightarrow> sys \<Rightarrow> bool" where
  "grows S S' \<longleftrightarrow> set (cx_loops (sy_ctx S)) \<subseteq> set (cx_loops (sy_ctx S')) \<and>
     set (cx_closed (sy_ctx S)) \<subseteq> set (cx_closed (sy_ctx S')) \<and>
     (\<forall>ch s. sy_loop S ch = Some s \<longrightarrow> (\<exists>s'. sy_loop S' ch = Some s' \<and> (lp_done s \<longrightarrow> lp_done s')))"

lemma own_step_grows:
  assumes "own_step E S S'"
  shows "grows S S'"
proof -
  have "\<exists>s'. sy_loop S' ch = Some s' \<and> (lp_done s \<longrightarrow> lp_done s')" if "sy_loop S ch = Some s" for ch s
    using assms by (cases rule: own_step.cases) (use that in \<open>auto split: if_splits\<close>)
  with own_step_loops [OF assms] show ?thesis by (simp add: grows_def)
qed

lemma sys_step_grows:
  assumes "sys_step E S S'" "reachable E S"
  shows "grows S S'"
  using assms(1)
proof (cases rule: sys_step.cases)
  case (request a)
  have "loops_ok (sy_ctx S)" using reachable_inv [OF assms(2)] by (simp add: sys_inv_def)
  then have "set (cx_loops (sy_ctx S)) \<subseteq> set (cx_loops (sy_ctx S'))" using api_loops request by simp
  moreover have "set (cx_closed (sy_ctx S)) \<subseteq> set (cx_closed (sy_ctx S'))"
    using cl.keep_api [of "set (cx_closed (sy_ctx S))" "sy_ctx S" E a] request by simp
  ultimately show ?thesis using request by (simp add: grows_def)
qed (rule own_step_grows)

lemma run_grows: "sys_run E f \<Longrightarrow> grows (f n) (f (Suc n))"
  using sys_step_grows run_step run_reachable by blast

lemma run_loops:
  assumes "sys_run E f" "n \<le> m" "x \<in> set (cx_loops (sy_ctx (f n)))"
  shows "x \<in> set (cx_loops (sy_ctx (f m)))"
proof (rule stays [OF assms(2), where P = "\<lambda>S. x \<in> set (cx_loops (sy_ctx S))"])
  fix j
  assume "x \<in> set (cx_loops (sy_ctx (f j)))"
  then show "x \<in> set (cx_loops (sy_ctx (f (Suc j))))" using run_grows [OF assms(1), of j] by (auto simp: grows_def)
qed (rule assms(3))

lemma run_closed:
  assumes "sys_run E f" "n \<le> m" "x \<in> set (cx_closed (sy_ctx (f n)))"
  shows "x \<in> set (cx_closed (sy_ctx (f m)))"
proof (rule stays [OF assms(2), where P = "\<lambda>S. x \<in> set (cx_closed (sy_ctx S))"])
  fix j
  assume "x \<in> set (cx_closed (sy_ctx (f j)))"
  then show "x \<in> set (cx_closed (sy_ctx (f (Suc j))))" using run_grows [OF assms(1), of j] by (auto simp: grows_def)
qed (rule assms(3))

lemma grows_ended: "grows S S' \<Longrightarrow> check_ended p S \<Longrightarrow> check_ended p S'"
  unfolding grows_def check_ended_def by blast

lemma run_ended: "sys_run E f \<Longrightarrow> n \<le> m \<Longrightarrow> check_ended p (f n) \<Longrightarrow> check_ended p (f m)"
  using stays [of n m "check_ended p" f] grows_ended run_grows by blast

text \<open>The only step that ends a check is its last message; it starts by itself otherwise.\<close>

lemma check_step:
  assumes "sys_step E S S'" "reachable E S" "check_runs i p S"
  obtains "check_runs i p S'" | "last_act i p S S'"
proof -
  obtain s where ip: "(i, p) \<in> set (cx_loops (sy_ctx S))" and s: "sy_loop S (p_stopCh p) = Some s" "\<not> lp_done s"
    using assms(3) by (auto simp: check_runs_def)
  have g: "grows S S'" by (rule sys_step_grows [OF assms(1,2)])
  then have ip': "(i, p) \<in> set (cx_loops (sy_ctx S'))" using ip by (auto simp: grows_def)
  have lo: "loops_ok (sy_ctx S)" using reachable_inv [OF assms(2)] by (simp add: sys_inv_def)
  have same: "j = i \<and> q = p" if "(j, q) \<in> set (cx_loops (sy_ctx S))" "p_stopCh q = p_stopCh p" for j q
    using lo ip that unfolding loops_ok_def by blast
  have "check_runs i p S' \<or> last_act i p S S'"
    using assms(1)
  proof (cases rule: sys_step.cases)
    case (request a)
    with s ip' show ?thesis by (auto simp: check_runs_def)
  next
    case own
    then show ?thesis
    proof (cases rule: own_step.cases)
      case (send j q t u t')
      show ?thesis
      proof (cases "p_stopCh q = p_stopCh p \<and> lp_done t'")
        case True
        then have "j = i" "q = p" using same send(2) by blast+
        with send have "send_act i p S S'" by (simp add: send_actI)
        moreover have "check_ended p S'" using True send(1) by (simp add: check_ended_def)
        ultimately show ?thesis by (simp add: last_act_def)
      next
        case False
        with s ip' send(1) show ?thesis by (auto simp: check_runs_def)
      qed
    qed (use s ip' in \<open>auto simp: check_runs_def loop_start_def\<close>)
  qed
  with that show thesis by blast
qed

section \<open>The consumer\<close>

lemma busy_step:
  assumes "sys_step E S S'" "sy_phase S = Received u \<or> sy_phase S = Reweighting u"
  shows "sy_phase S' = sy_phase S \<or> consumer_act E S S'"
  using assms(1)
proof (cases rule: sys_step.cases)
  case own
  then show ?thesis using assms(2) by (auto simp: consumer_act_def)
qed simp

lemma consumer_enabled:
  assumes "sy_phase S = Received u \<or> sy_phase S = Reweighting u"
  shows "enabled (consumer_act E) S"
proof -
  from assms obtain S' where "own_step E S S'" "sy_phase S' \<noteq> sy_phase S"
    using look_step [of S u E] reweight_step [of S u E] by force
  with assms show ?thesis by (auto simp: enabled_def consumer_act_def)
qed

lemma consumer_act_cases:
  assumes "consumer_act E S S'"
  obtains (look) u go st' c' where "sy_phase S = Received u" "process_locked u (sy_stash S) (sy_ctx S) = (go, st', c')"
      "S' = S\<lparr>sy_ctx := c', sy_stash := st', sy_phase := (if go then Reweighting u else Waiting)\<rparr>"
  | (reweight) u st' c' where "sy_phase S = Reweighting u" "process_reweight E u (sy_stash S) (sy_ctx S) = (st', c')"
      "S' = S\<lparr>sy_ctx := c', sy_stash := st', sy_phase := Waiting\<rparr>"
proof -
  have s: "own_step E S S'" and b: "\<exists>u. sy_phase S = Received u \<or> sy_phase S = Reweighting u"
    and n: "sy_phase S' \<noteq> sy_phase S"
    using assms by (simp_all add: consumer_act_def)
  from s show thesis
    by (cases rule: own_step.cases) (use b n look reweight in auto)
qed

text \<open>The consumer deals with the message it holds, and nothing else gets at it in between.\<close>

lemma consumer_acts:
  assumes fair: "fair_daemon E f" and run: "\<And>j. sys_step E (f j) (f (Suc j))"
    and busy: "sy_phase (f n) = Received u \<or> sy_phase (f n) = Reweighting u"
  obtains m where "n \<le> m" "sy_phase (f m) = sy_phase (f n)" "consumer_act E (f m) (f (Suc m))"
proof -
  let ?A = "\<lambda>m. n \<le> m \<and> consumer_act E (f m) (f (Suc m))"
  let ?P = "\<lambda>S. sy_phase S = sy_phase (f n)"
  have keep: "?P (f (Suc j))" if "?P (f j)" "\<not> consumer_act E (f j) (f (Suc j))" for j
    using busy_step [OF run [of j], of u] busy that by auto
  have "\<exists>m. ?A m"
  proof (rule ccontr)
    assume none: "\<nexists>m. ?A m"
    then have "?P (f m)" if "n \<le> m" for m using stays [of n m ?P f, OF that] keep by blast
    then have "\<forall>m \<ge> n. enabled (consumer_act E) (f m)" using consumer_enabled busy by metis
    with none fair_daemonD(1) [OF fair] show False unfolding weakly_fair_def by blast
  qed
  then have "?A (LEAST m. ?A m)" by (rule LeastI_ex)
  then obtain m where m: "?A m" "\<And>j. ?A j \<Longrightarrow> m \<le> j" by (rule that) (rule Least_le)
  have "?P (f j)" if "j \<le> m" "n \<le> j" for j
    using that(2,1)
  proof (induction j rule: dec_induct)
    case (step j)
    then have "\<not> consumer_act E (f j) (f (Suc j))" using m(2) [of j] by auto
    with step keep show ?case by simp
  qed simp
  with m(1) that show thesis by blast
qed

text \<open>While the context is open the consumer runs, and it comes back to wait for the next message.\<close>

interpretation sp: ctx_invariant "cx_stopped :: ctx \<Rightarrow> bool" E for E
proof unfold_locales
  fix c :: ctx and i k so bo w
  assume c: "cx_stopped c"
  show "cx_stopped (snd (createService E i so c))"
  proof -
    obtain r c' where r: "createService E i so c = (r, c')" by force
    from r show ?thesis using c r by (cases rule: createService_cases) (auto simp: quiet_sel logged_to_sel)
  qed
  show "cx_stopped (snd (createBackend E i k bo c))"
  proof -
    obtain r c' where r: "createBackend E i k bo c = (r, c')" by force
    from r show ?thesis using c r by (cases rule: createBackend_cases) (auto simp: quiet_sel logged_to_sel)
  qed
  show "cx_stopped (snd (removeService E i c))"
  proof -
    obtain r c' where r: "removeService E i c = (r, c')" by force
    from r show ?thesis using c r by (cases rule: removeService_cases) (auto simp: quiet_sel logged_to_sel cleaned_def)
  qed
  show "cx_stopped (snd (removeBackend E i k c))"
  proof -
    obtain r c' where r: "removeBackend E i k c = (r, c')" by force
    from r show ?thesis using c r by (cases rule: removeBackend_cases) (auto simp: quiet_sel logged_to_sel)
  qed
  show "cx_stopped (snd (updateService E i so c))"
  proof -
    obtain r c' where r: "updateService E i so c = (r, c')" by force
    from r show ?thesis
    proof (cases rule: updateService_cases)
      case (create c1 o1 l)
      from create(4) show ?thesis using c r create(1)
        by (cases rule: createService_cases) (auto simp: quiet_sel logged_to_sel)
    qed (use c r in \<open>auto simp: quiet_sel logged_to_sel\<close>)
  qed
  show "cx_stopped (snd (updateBackend E i k w c))"
  proof -
    obtain r c' where r: "updateBackend E i k w c = (r, c')" by force
    from r show ?thesis using c r by (cases rule: updateBackend_cases) (auto simp: quiet_sel logged_to_sel)
  qed
qed

lemma ended_stopped: "reachable E S \<Longrightarrow> sy_phase S = Ended \<Longrightarrow> cx_stopped (sy_ctx S)"
proof (induction rule: reachable.induct)
  case (init options l c store)
  then show ?case by (simp add: sys_start_def)
next
  case (step S S')
  from step(2) show ?case
  proof (cases rule: sys_step.cases)
    case (request a)
    with step sp.keep_api show ?thesis by simp
  next
    case own
    then show ?thesis by (cases rule: own_step.cases) (use step in \<open>auto split: if_splits\<close>)
  qed
qed

definition stays_open :: "(nat \<Rightarrow> sys) \<Rightarrow> bool" where
  "stays_open f \<longleftrightarrow> (\<forall>n. \<not> cx_stopped (sy_ctx (f n)))"

lemma consumer_waits:
  assumes run: "sys_run E f" and fair: "fair_daemon E f" and opn: "stays_open f"
  obtains m where "n \<le> m" "sy_phase (f m) = Waiting"
proof -
  note st = run_step [OF run]
  have re: "\<exists>m \<ge> k. sy_phase (f m) = Waiting" if p: "sy_phase (f k) = Reweighting u" for k u
  proof -
    obtain m where m: "k \<le> m" "sy_phase (f m) = Reweighting u" "consumer_act E (f m) (f (Suc m))"
      using consumer_acts [OF fair st, of k u] p by auto
    from m(3) have "sy_phase (f (Suc m)) = Waiting" by (cases rule: consumer_act_cases) (use m(2) in auto)
    with m(1) show ?thesis using le_SucI by blast
  qed
  have "\<exists>m \<ge> n. sy_phase (f m) = Waiting"
  proof (cases "sy_phase (f n)")
    case (Received u)
    obtain m where m: "n \<le> m" "sy_phase (f m) = Received u" "consumer_act E (f m) (f (Suc m))"
      using consumer_acts [OF fair st, of n u] Received by auto
    from m(3) have "sy_phase (f (Suc m)) = Waiting \<or> sy_phase (f (Suc m)) = Reweighting u"
      by (cases rule: consumer_act_cases) (use m(2) in auto)
    with m(1) re [of "Suc m" u] show ?thesis by (meson le_SucI le_trans)
  next
    case (Reweighting u)
    then show ?thesis by (rule re)
  next
    case Ended
    then have "cx_stopped (sy_ctx (f n))" by (rule ended_stopped [OF run_reachable [OF run]])
    with opn show ?thesis by (simp add: stays_open_def)
  qed auto
  with that show thesis by blast
qed

section \<open>A stopped check ends\<close>

lemma run_begins:
  assumes run: "sys_run E f" and fair: "fair_daemon E f" and ip: "(i, p) \<in> set (cx_loops (sy_ctx (f n)))"
    and no: "\<not> check_ended p (f n)"
  obtains m where "n \<le> m" "check_runs i p (f m)"
proof -
  let ?P = "\<lambda>S. (i, p) \<in> set (cx_loops (sy_ctx S)) \<and> sy_loop S (p_stopCh p) = None"
  have "\<exists>m \<ge> n. check_runs i p (f m)"
  proof (cases "sy_loop (f n) (p_stopCh p) = None")
    case True
    show ?thesis
    proof (rule weakly_fair_leads [OF fair_daemonD(2) [OF fair, of i p], where P = ?P])
      fix j
      assume j: "n \<le> j" "?P (f j)"
      have lo: "loops_ok (sy_ctx (f j))" using reachable_inv [OF run_reachable [OF run]] by (simp add: sys_inv_def)
      have same: "k = i \<and> q = p" if "(k, q) \<in> set (cx_loops (sy_ctx (f j)))" "p_stopCh q = p_stopCh p" for k q
        using lo j(2) that unfolding loops_ok_def by blast
      have ip: "(i, p) \<in> set (cx_loops (sy_ctx (f (Suc j))))" using run_grows [OF run, of j] j(2) by (auto simp: grows_def)
      from run_step [OF run, of j] show "?P (f (Suc j)) \<or> check_runs i p (f (Suc j))"
      proof (cases rule: sys_step.cases)
        case own
        then show ?thesis
          by (cases rule: own_step.cases) (use ip j in \<open>auto simp: check_runs_def loop_start_def\<close>)
      qed (use ip j in simp)
      have "0 < sint (p_interval p)" using reachable_timed [OF run_reachable [OF run]] j(2) by (auto simp: timed_def)
      then have "first_interval (\<lambda>_. 0) p = Ok (word_of_int 0)" by (simp add: first_interval_def)
      with j(2) show "enabled (begin_act i p) (f j)" by (auto simp: enabled_def begin_act_def)
      show "check_runs i p (f (Suc j))" if "begin_act i p (f j) (f (Suc j))"
        using that by (auto simp: begin_act_def check_runs_def loop_start_def)
    qed (use True ip in simp)
  next
    case False
    with ip no have "check_runs i p (f n)" by (auto simp: check_runs_def check_ended_def)
    then show ?thesis by blast
  qed
  with that show thesis by blast
qed

text \<open>The last message of a check is its removal.\<close>

lemma last_act_phase:
  assumes "last_act i p S S'"
  obtains u where "sy_phase S' = Received u" "up_Source u = i" "removed_msg u" "check_ended p S'"
  using assms by (auto simp: last_act_def send_act_def check_ended_def removed_msg_def)

lemma last_act_enabled:
  assumes "check_runs i p S" "sy_phase S = Waiting" "p_stopCh p \<in> set (cx_closed (sy_ctx S))"
  shows "enabled (last_act i p) S"
proof -
  obtain s where s: "sy_loop S (p_stopCh p) = Some s" "\<not> lp_done s" using assms(1) by (auto simp: check_runs_def)
  let ?m = "metrics_Update (lp_metrics s) StatusRemoved 0"
  have "loop_step p i s (Some \<lparr>up_Source = i, up_Metrics = ?m\<rparr>) (s\<lparr>lp_metrics := ?m, lp_done := True\<rparr>)"
    by (rule loop_step.stop [OF s(2) refl])
  from send_actI [OF _ assms(2) s(1) this] have
    "last_act i p S (S\<lparr>sy_phase := Received \<lparr>up_Source = i, up_Metrics = ?m\<rparr>,
       sy_loop := (sy_loop S)(p_stopCh p \<mapsto> s\<lparr>lp_metrics := ?m, lp_done := True\<rparr>)\<rparr>)"
    using assms(1,3) by (simp add: last_act_def check_runs_def check_ended_def)
  then show ?thesis unfolding enabled_def by blast
qed

lemma stopped_check_last:
  assumes run: "sys_run E f" and fair: "fair_daemon E f" and opn: "stays_open f"
    and ck: "check_runs i p (f n)" and cl: "p_stopCh p \<in> set (cx_closed (sy_ctx (f n)))"
  obtains m where "n \<le> m" "last_act i p (f m) (f (Suc m))"
proof -
  have cl': "p_stopCh p \<in> set (cx_closed (sy_ctx (f j)))" if "n \<le> j" for j by (rule run_closed [OF run that cl])
  have "\<exists>m \<ge> n. last_act i p (f m) (f (Suc m))"
  proof (rule ccontr)
    assume no: "\<not> ?thesis"
    have r: "check_runs i p (f m)" if "n \<le> m" for m
      by (rule stays [OF that, where P = "check_runs i p"])
        (use ck no check_step [OF run_step [OF run] run_reachable [OF run]] in blast)+
    have "\<exists>j \<ge> m. enabled (last_act i p) (f j)" if "n \<le> m" for m
    proof -
      obtain j where "m \<le> j" "sy_phase (f j) = Waiting" by (rule consumer_waits [OF run fair opn])
      then show ?thesis using last_act_enabled r cl' that by (meson le_trans)
    qed
    with no fair_daemonD(4) [OF fair] show False unfolding strongly_fair_def by blast
  qed
  with that show thesis by blast
qed

lemma stopped_check_ends:
  assumes "sys_run E f" and "fair_daemon E f" and "stays_open f"
    and "(i, p) \<in> set (cx_loops (sy_ctx (f n)))" and "p_stopCh p \<in> set (cx_closed (sy_ctx (f n)))"
    and "\<not> check_ended p (f n)"
  shows "\<exists>m \<ge> n. sy_stash (f m) i = None \<and> sy_phase (f m) = Waiting \<and> (\<forall>k \<ge> m. check_ended p (f k))"
proof -
  obtain n1 where n1: "n \<le> n1" "check_runs i p (f n1)" by (rule run_begins [OF assms(1,2,4,6)])
  obtain n2 where n2: "n1 \<le> n2" "last_act i p (f n2) (f (Suc n2))"
    by (rule stopped_check_last [OF assms(1-3) n1(2) run_closed [OF assms(1) n1(1) assms(5)]])
  from n2(2) obtain u where u: "sy_phase (f (Suc n2)) = Received u" "up_Source u = i" "removed_msg u"
    and e: "check_ended p (f (Suc n2))" by (rule last_act_phase)
  obtain m where m: "Suc n2 \<le> m" "sy_phase (f m) = Received u" "consumer_act E (f m) (f (Suc m))"
    using consumer_acts [OF assms(2) run_step [OF assms(1)], of "Suc n2" u] u(1) by auto
  from m(3) have "sy_phase (f (Suc m)) = Waiting \<and> sy_stash (f (Suc m)) i = None"
  proof (cases rule: consumer_act_cases)
    case (look u' go st' c')
    then have "u' = u" using m(2) by simp
    with look(2) show ?thesis by (cases rule: process_locked_cases) (use look(3) u in auto)
  qed (use m(2) in simp)
  moreover have "\<forall>k \<ge> Suc m. check_ended p (f k)" using run_ended [OF assms(1) _ e] m(1) by simp
  moreover have "n \<le> Suc m" using n1(1) n2(1) m(1) by simp
  ultimately show ?thesis by blast
qed

text \<open>
  Claim C21. In every fair run of the daemon in which the context stays open, whatever clients request and
  however the goroutines interleave, a check whose backend is no longer in the map ends, for good; and a moment
  comes at which it has ended, its removal has been consumed and no weight is stashed for its identity any more.
\<close>

theorem removed_check_ends:
  assumes "sys_run E f" and "fair_daemon E f" and "stays_open f"
    and "(i, p) \<in> set (cx_loops (sy_ctx (f n)))" and "\<not> owned (sy_ctx (f n)) i p" and "\<not> check_ended p (f n)"
  shows "\<exists>m \<ge> n. sy_stash (f m) i = None \<and> sy_phase (f m) = Waiting \<and> (\<forall>k \<ge> m. check_ended p (f k))"
proof -
  have "p_stopCh p \<in> set (cx_closed (sy_ctx (f n)))"
    using checks_ownedD(1) [OF reachable_owned [OF run_reachable [OF assms(1)]] assms(4)] assms(5) by blast
  then show ?thesis by (rule stopped_check_ends [OF assms(1-4) _ assms(6)])
qed

section \<open>A checked backend that is left alone\<close>

text \<open>The kernel does not refuse to update what it has.\<close>

definition kernel_updates :: "env \<Rightarrow> bool" where
  "kernel_updates E \<longleftrightarrow> (\<forall>l s d x. ipvs_table l (svc_key s) = Some x \<longrightarrow> vs_dests x (dest_key d) \<noteq> None \<longrightarrow>
     ipvsDo E l (UpdDestination s d) = None)"

lemma updateBackend_takes:
  assumes k: "kernel_updates E" and c: "consistent E c" and b: "gget (cx_backends c) k = Some b"
  obtains c' where "updateBackend E v k w c = (Ok (bo_Weight (b_options b)), c')"
    "cx_backends c' = gput k (b\<lparr>b_options := b_options b\<lparr>bo_Weight := w\<rparr>\<rparr>) (cx_backends c)"
proof -
  obtain r c' where r: "updateBackend E v k w c = (r, c')" by force
  let ?so = "s_options (b_service b)" and ?bo = "b_options b"
  have "ValidProtocol (so_Protocol ?so)" and f: "ValidForwarding (libconsts E) (bo_Method ?bo)"
    using wf_backend [OF consistentD(1) [OF c] b] by (auto simp: backend_wf_def service_wf_def service_filled_def backend_ok_def)
  then obtain svc where svc: "createSvcKey (ip_String (so_host ?so)) (so_Protocol ?so) (so_Port ?so) = Inr svc"
    "svc_key svc = svc_vkey (b_service b)"
    using createSvcKey_valid unfolding svc_vkey_def by blast
  have "tabled (dest_part (ipvs_table (cx_log c))) (gget (cx_backends c)) bck_key (bck_attr E)"
    using c by (simp add: consistent_def agree_def)
  from tabledD(1) [OF this b] obtain x where x: "ipvs_table (cx_log c) (svc_key svc) = Some x"
    "vs_dests x (bck_rkey ?bo) \<noteq> None"
    by (auto simp: dest_part_def bck_key_def svc(2) split: option.splits)
  have d: "dest_key (createDest (ip_String (bo_host ?bo)) (bo_Port ?bo) g w) = bck_rkey ?bo" for g
    by (simp add: dest_key_def createDest_def bck_rkey_def rkey_of_def)
  have "fst (ipvs_UpdateDestPort E (ip_String (so_host ?so)) (so_Port ?so) (ip_String (bo_host ?bo))
      (bo_Port ?bo) (so_Protocol ?so) w (bo_Method ?bo) (cx_log c)) = None"
    using f x k d svc by (auto simp: ipvs_UpdateDestPort_def ipvs_call_def Let_def kernel_updates_def ValidForwarding_def)
  then have "r \<noteq> Fail ErrIpvsSyscallFailed"
    using r b by (auto simp: updateBackend_def on_log_def split: prod.splits option.splits)
  with r show thesis
  proof (cases rule: updateBackend_cases)
    case (ok b' c1)
    then show thesis using that [of c'] r b by (simp add: logged_to_sel)
  qed (use b in simp_all)
qed

lemma updateBackend_other:
  assumes "k \<noteq> j"
  shows "gget (cx_backends (snd (updateBackend E v j w c))) k = gget (cx_backends c) k"
proof -
  obtain r c' where r: "updateBackend E v j w c = (r, c')" by force
  from r show ?thesis by (cases rule: updateBackend_cases) (use assms r in \<open>auto simp: quiet_sel logged_to_sel\<close>)
qed

text \<open>
  From some moment on clients leave the entry of the backend as it is; and every message about it that the
  consumer has in its hands comes from checks with the one identity and reports the one status (\<open>reports\<close>).
\<close>

definition left_alone :: "env \<Rightarrow> string \<Rightarrow> (nat \<Rightarrow> sys) \<Rightarrow> nat \<Rightarrow> bool" where
  "left_alone E k f n \<longleftrightarrow> (\<forall>m \<ge> n. own_step E (f m) (f (Suc m)) \<or>
     (\<exists>a. f (Suc m) = (f m)\<lparr>sy_ctx := api_run E a (sy_ctx (f m))\<rparr> \<and>
        gget (cx_backends (api_run E a (sy_ctx (f m)))) k = gget (cx_backends (sy_ctx (f m))) k))"

text \<open>
  Which requests those are: all but a change of the weight of the backend and a removal of it or its service; and a
  synchronization with a store whose entries for the two agree with what is compared.
\<close>

definition bystander :: "string \<Rightarrow> api \<Rightarrow> ctx \<Rightarrow> bool" where
  "bystander k a c \<longleftrightarrow> (case a of
       ApiCreateService _ _ \<Rightarrow> True
     | ApiUpdateService _ _ \<Rightarrow> True
     | ApiCreateBackend _ j _ \<Rightarrow> j = k \<longrightarrow> gget (cx_backends c) k \<noteq> None
     | ApiUpdateBackend _ j _ \<Rightarrow> j \<noteq> k
     | ApiRemoveService i \<Rightarrow> (\<forall>vs b. gget (cx_services c) i = Some vs \<longrightarrow> gget (cx_backends c) k = Some b \<longrightarrow> \<not> attached vs b)
     | ApiRemoveBackend _ j \<Rightarrow> j \<noteq> k
     | ApiSynchronize sv bk \<Rightarrow> (\<exists>b i so bo. gget (cx_backends c) k = Some b \<and> gget (cx_services c) i = Some (b_service b) \<and>
         gget sv i = Some so \<and> service_Compare (s_options (b_service b)) so \<and>
         gget bk k = Some bo \<and> backend_Compare (b_options b) bo))"

lemma updateService_backends:
  assumes "updateService E i so c = (r, c')"
  shows "cx_backends c' = cx_backends c"
  using assms
proof (cases rule: updateService_cases)
  case (create c1 o1 l)
  then show ?thesis using createService_at(3) [OF create(4)] by (simp add: quiet_sel [OF create(1)])
next
  case (ok old c1 c2 o1 l)
  then show ?thesis by (simp add: quiet_sel [OF ok(8)] logged_to_sel [OF ok(7)] quiet_sel [OF ok(6)])
qed (simp add: quiet_sel)

lemma bystander_spares:
  assumes "bystander k a c" and wf: "ctx_wf E c"
  shows "gget (cx_backends (api_run E a c)) k = gget (cx_backends c) k"
proof (cases a)
  case (ApiCreateService i so)
  obtain r c' where r: "createService E i so c = (r, c')" by force
  then show ?thesis using createService_at(3) [OF r] by (simp add: ApiCreateService critical_defs)
next
  case (ApiUpdateService i so)
  obtain r c' where r: "updateService E i so c = (r, c')" by force
  then show ?thesis using updateService_backends [OF r] by (simp add: ApiUpdateService critical_defs)
next
  case (ApiCreateBackend i j bo)
  obtain r c' where r: "createBackend E i j bo c = (r, c')" by force
  then show ?thesis
    using createBackend_at(1) [OF r, of k] createBackend_kept [OF r] assms
    by (cases "j = k") (auto simp: ApiCreateBackend critical_defs bystander_def)
next
  case (ApiUpdateBackend i j w)
  with assms updateBackend_other [of k j E i w c] show ?thesis by (simp add: critical_defs bystander_def)
next
  case (ApiRemoveService i)
  obtain r c' where r: "removeService E i c = (r, c')" by force
  then show ?thesis
    using removeService_detached(1) [OF r, of k] assms by (simp add: ApiRemoveService critical_defs bystander_def)
next
  case (ApiRemoveBackend i j)
  obtain r c' where r: "removeBackend E i j c = (r, c')" by force
  then show ?thesis
    using removeBackend_at(1) [OF r, of k] assms by (simp add: ApiRemoveBackend critical_defs bystander_def)
next
  case (ApiSynchronize sv bk)
  with assms(1) obtain b i so bo where b: "gget (cx_backends c) k = Some b" "gget (cx_services c) i = Some (b_service b)"
    and e: "gget sv i = Some so" "service_Compare (s_options (b_service b)) so" "gget bk k = Some bo" "backend_Compare (b_options b) bo"
    by (auto simp: bystander_def)
  have "kept E i k b (p_stopCh (b_monitor b) \<in> set (cx_closed c)) c" using b wf by (simp add: kept_def)
  from keptD(3) [OF kept_Synchronize [OF this e]] show ?thesis by (simp add: ApiSynchronize b(1))
qed

definition holds_msg :: "sys \<Rightarrow> pulse_update \<Rightarrow> bool" where
  "holds_msg S u \<longleftrightarrow> sy_phase S = Received u \<or> sy_phase S = Reweighting u"

definition reports :: "StatusType \<Rightarrow> ID \<Rightarrow> (nat \<Rightarrow> sys) \<Rightarrow> nat \<Rightarrow> bool" where
  "reports st i f n \<longleftrightarrow> (\<forall>m \<ge> n. \<forall>u. holds_msg (f m) u \<longrightarrow> RsID (up_Source u) = RsID i \<longrightarrow>
     up_Source u = i \<and> m_Status (up_Metrics u) = st)"

text \<open>A run in which no client updates a service that has backends.\<close>

definition calm_run :: "env \<Rightarrow> (nat \<Rightarrow> sys) \<Rightarrow> bool" where
  "calm_run E f \<longleftrightarrow> (\<forall>n. calm E (f n) \<and> sys_step E (f n) (f (Suc n)))"

lemma calm_run_run: "calm_run E f \<Longrightarrow> sys_run E f"
  by (simp add: calm_run_def sys_run_def calm_reachable)

text \<open>What the state says of a backend: where it is in the kernel's table, its weight, and the weight stashed for it.\<close>

definition rating :: "ID \<Rightarrow> sys \<Rightarrow> (vkey \<times> rkey) option \<times> u32 option \<times> u32 option" where
  "rating i S = (map_option bck_key (gget (cx_backends (sy_ctx S)) (RsID i)), weight_of (RsID i) (sy_ctx S), sy_stash S i)"

lemma own_step_rating:
  assumes s: "own_step E S S'" and b: "gget (cx_backends (sy_ctx S)) (RsID i) = Some b"
    and m: "\<And>u. holds_msg S u \<Longrightarrow> RsID (up_Source u) = RsID i \<Longrightarrow> up_Source u = i \<and> \<not> removed_msg u"
  obtains (same) "rating i S' = rating i S"
  | (acts) u where "sy_phase S = Reweighting u" "up_Source u = i" "consumer_act E S S'"
      "process_reweight E u (sy_stash S) (sy_ctx S) = (sy_stash S', sy_ctx S')"
proof -
  have "rating i S' = rating i S \<or> (\<exists>u. sy_phase S = Reweighting u \<and> up_Source u = i \<and> consumer_act E S S' \<and>
      process_reweight E u (sy_stash S) (sy_ctx S) = (sy_stash S', sy_ctx S'))"
    using s
  proof (cases rule: own_step.cases)
    case (look u go st' c')
    have h: "holds_msg S u" using look(2) by (simp add: holds_msg_def)
    from look(3) show ?thesis
    proof (cases rule: process_locked_cases)
      case skip
      have "up_Source u \<noteq> i"
        using skip look(3) b m [OF h] by (auto simp: process_locked_def removed_msg_def Let_def split: if_splits)
      with skip look(1) show ?thesis by (simp add: rating_def)
    next
      case (go b')
      with look(1) b show ?thesis by (auto simp: rating_def weight_of_def bck_key_def)
    qed
  next
    case (reweight u st' c')
    have h: "holds_msg S u" using reweight(2) by (simp add: holds_msg_def)
    show ?thesis
    proof (cases "up_Source u = i")
      case True
      have "consumer_act E S S'" using s reweight(1,2) by (simp add: consumer_act_def)
      with True reweight show ?thesis by simp
    next
      case False
      then have k: "RsID i \<noteq> RsID (up_Source u)" using m [OF h] by metis
      have "gget (cx_backends c') (RsID i) = gget (cx_backends (sy_ctx S)) (RsID i)"
        using reweight(3) by (cases rule: process_reweight_ctx) (simp_all add: updateBackend_other [OF k])
      moreover have "st' i = sy_stash S i"
        using reweight(3) False unfolding process_reweight_def Let_def
        by (auto split: StatusType.splits option.splits prod.splits outcome.splits if_splits)
      ultimately show ?thesis using reweight(1) by (simp add: rating_def weight_of_def)
    qed
  qed (simp_all add: rating_def weight_of_def)
  with same acts show thesis by blast
qed

text \<open>The second section of \<open>processPulseUpdate\<close>, for a backend the kernel has.\<close>

lemma reweight_down:
  assumes "kernel_updates E" "consistent E c" "gget (cx_backends c) (RsID (up_Source u)) = Some b"
    and "m_Status (up_Metrics u) = StatusDown" "process_reweight E u st c = (st', c')"
  shows "st (up_Source u) = Some x \<Longrightarrow> st' = st \<and> c' = c"
    and "st (up_Source u) = None \<Longrightarrow> st' (up_Source u) = Some (bo_Weight (b_options b)) \<and> weight_of (RsID (up_Source u)) c' = Some 0"
proof -
  show "st (up_Source u) = Some x \<Longrightarrow> st' = st \<and> c' = c" using assms(4,5) by (simp add: process_reweight_def)
  obtain d where "updateBackend E (VsID (up_Source u)) (RsID (up_Source u)) 0 c = (Ok (bo_Weight (b_options b)), d)"
    "cx_backends d = gput (RsID (up_Source u)) (b\<lparr>b_options := b_options b\<lparr>bo_Weight := 0\<rparr>\<rparr>) (cx_backends c)"
    by (rule updateBackend_takes [OF assms(1-3)])
  then show "st (up_Source u) = None \<Longrightarrow> st' (up_Source u) = Some (bo_Weight (b_options b)) \<and> weight_of (RsID (up_Source u)) c' = Some 0"
    using assms(4,5) by (auto simp: process_reweight_def Let_def weight_of_def)
qed

lemma reweight_up:
  assumes "kernel_updates E" "consistent E c" "gget (cx_backends c) (RsID (up_Source u)) = Some b"
    and "m_Status (up_Metrics u) = StatusUp" "process_reweight E u st c = (st', c')"
  shows "st (up_Source u) = None \<Longrightarrow> st' = st \<and> c' = c"
    and "st (up_Source u) = Some x \<Longrightarrow> weight_of (RsID (up_Source u)) c' = Some (scale_weight x (m_Health (up_Metrics u))) \<and>
       st' (up_Source u) = (if scale_weight x (m_Health (up_Metrics u)) = x then None else Some x)"
proof -
  show "st (up_Source u) = None \<Longrightarrow> st' = st \<and> c' = c" using assms(4,5) by (simp add: process_reweight_def)
  let ?w = "scale_weight x (m_Health (up_Metrics u))"
  obtain d where "updateBackend E (VsID (up_Source u)) (RsID (up_Source u)) ?w c = (Ok (bo_Weight (b_options b)), d)"
    "cx_backends d = gput (RsID (up_Source u)) (b\<lparr>b_options := b_options b\<lparr>bo_Weight := ?w\<rparr>\<rparr>) (cx_backends c)"
    by (rule updateBackend_takes [OF assms(1-3)])
  then show "st (up_Source u) = Some x \<Longrightarrow> weight_of (RsID (up_Source u)) c' = Some ?w \<and>
      st' (up_Source u) = (if ?w = x then None else Some x)"
    using assms(4,5) by (auto simp: process_reweight_def Let_def weight_of_def)
qed

section \<open>Runs in which a backend is followed by its check\<close>

definition dutiful_kernel :: "env \<Rightarrow> bool" where
  "dutiful_kernel E \<longleftrightarrow> good_kernel E \<and> kernel_updates E \<and> fair_iter E"

text \<open>From the \<open>n\<close>-th state on the running check decides alone about the backend, and finds it in the one state.\<close>

definition followed :: "env \<Rightarrow> StatusType \<Rightarrow> ID \<Rightarrow> Pulse \<Rightarrow> (nat \<Rightarrow> sys) \<Rightarrow> nat \<Rightarrow> bool" where
  "followed E st i p f n \<longleftrightarrow> left_alone E (RsID i) f n \<and> reports st i f n \<and> check_runs i p (f n)"

definition daemon_run :: "env \<Rightarrow> (nat \<Rightarrow> sys) \<Rightarrow> bool" where
  "daemon_run E f \<longleftrightarrow> calm_run E f \<and> fair_daemon E f \<and> stays_open f"

lemma daemon_runD:
  assumes "daemon_run E f"
  shows "sys_run E f" "fair_daemon E f" "stays_open f"
  using assms calm_run_run by (simp_all add: daemon_run_def)

lemma daemon_run_consistent: "dutiful_kernel E \<Longrightarrow> daemon_run E f \<Longrightarrow> consistent E (sy_ctx (f m))"
  by (simp add: dutiful_kernel_def daemon_run_def calm_run_def consistent_calm)

lemma reportsD:
  assumes "reports st i f n" "st \<noteq> StatusRemoved" "n \<le> m" "holds_msg (f m) u" "RsID (up_Source u) = RsID i"
  shows "up_Source u = i" "m_Status (up_Metrics u) = st" "\<not> removed_msg u"
  using assms unfolding reports_def removed_msg_def by metis+

lemma rating_step:
  assumes k: "dutiful_kernel E" and run: "daemon_run E f" and fl: "followed E st i p f n"
    and st: "st \<noteq> StatusRemoved" and m: "n \<le> m" and b: "gget (cx_backends (sy_ctx (f m))) (RsID i) = Some b"
  obtains (same) "rating i (f (Suc m)) = rating i (f m)"
  | (acts) u where "sy_phase (f m) = Reweighting u" "up_Source u = i" "m_Status (up_Metrics u) = st"
      "process_reweight E u (sy_stash (f m)) (sy_ctx (f m)) = (sy_stash (f (Suc m)), sy_ctx (f (Suc m)))"
      "fst (rating i (f (Suc m))) = fst (rating i (f m))"
proof -
  have al: "left_alone E (RsID i) f n" and re: "reports st i f n" using fl by (simp_all add: followed_def)
  from al m consider "own_step E (f m) (f (Suc m))"
    | a where "f (Suc m) = (f m)\<lparr>sy_ctx := api_run E a (sy_ctx (f m))\<rparr>"
        "gget (cx_backends (api_run E a (sy_ctx (f m)))) (RsID i) = gget (cx_backends (sy_ctx (f m))) (RsID i)"
    unfolding left_alone_def by blast
  then show thesis
  proof cases
    case 1
    note msg = reportsD [OF re st m]
    show thesis
    proof (cases rule: own_step_rating [OF 1 b])
      case (3 u)
      note r = consistent_reweight(4) [OF 3(4) daemon_run_consistent [OF k run], of "RsID i"]
      have "m_Status (up_Metrics u) = st" using msg(2) [of u] 3(1,2) by (simp add: holds_msg_def)
      with 3 r show thesis by (intro acts [of u]) (simp_all add: rating_def)
    qed (use msg(1,3) same in auto)
  next
    case 2
    then show thesis by (intro same) (simp add: rating_def weight_of_def)
  qed
qed

text \<open>The entry stays where it is in the kernel's table.\<close>

lemma rating_key:
  assumes "dutiful_kernel E" "daemon_run E f" "followed E st i p f n" "st \<noteq> StatusRemoved"
    and "gget (cx_backends (sy_ctx (f n))) (RsID i) = Some b" and "n \<le> m"
  shows "\<exists>b'. gget (cx_backends (sy_ctx (f m))) (RsID i) = Some b' \<and> bck_key b' = bck_key b"
proof -
  let ?P = "\<lambda>S. fst (rating i S) = Some (bck_key b)"
  have "?P (f m)"
  proof (rule stays [OF assms(6), where P = ?P])
    fix j
    assume j: "n \<le> j" "?P (f j)"
    then obtain b' where b': "gget (cx_backends (sy_ctx (f j))) (RsID i) = Some b'" by (auto simp: rating_def)
    show "?P (f (Suc j))"
      by (cases rule: rating_step [OF assms(1-4) j(1) b']) (use j(2) in auto)
  qed (use assms(5) in \<open>simp add: rating_def\<close>)
  then show ?thesis by (auto simp: rating_def)
qed

text \<open>The check keeps running and handing over messages, and the consumer acts on each of them.\<close>

lemma followed_runs:
  assumes run: "sys_run E f" and re: "reports st i f n" "st \<noteq> StatusRemoved" and ck: "check_runs i p (f n)"
    and m: "n \<le> m"
  shows "check_runs i p (f m)"
proof (rule stays [where P = "check_runs i p" and f = f, OF m ck])
  fix j
  assume j: "n \<le> j" "check_runs i p (f j)"
  show "check_runs i p (f (Suc j))"
  proof (cases rule: check_step [OF run_step [OF run] run_reachable [OF run] j(2)])
    case 2
    then obtain u where u: "sy_phase (f (Suc j)) = Received u" "up_Source u = i" "removed_msg u" by (rule last_act_phase)
    have "\<not> removed_msg u"
      by (rule reportsD(3) [OF re, of "Suc j"]) (use u(1,2) j(1) in \<open>simp_all add: holds_msg_def\<close>)
    with u(3) show ?thesis by simp
  qed
qed

lemma send_enabled:
  assumes "check_runs i p S" "sy_phase S = Waiting"
  shows "enabled (send_act i p) S"
proof -
  obtain s where s: "(i, p) \<in> set (cx_loops (sy_ctx S))" "sy_loop S (p_stopCh p) = Some s" "\<not> lp_done s"
    using assms(1) by (auto simp: check_runs_def)
  let ?m = "metrics_Update (lp_metrics s) (driver_Check \<lparr>dial = \<lambda>_. True, http_do = \<lambda>_ _ _. Inr 200\<rparr> (p_driver p)) 0"
  have "loop_step p i s (Some \<lparr>up_Source = i, up_Metrics = ?m\<rparr>) (s\<lparr>lp_interval := p_interval p, lp_metrics := ?m\<rparr>)"
    by (rule loop_step.fire_send [OF s(3) refl])
  from send_actI [OF s(1) assms(2) s(2) this] s(3) show ?thesis by (auto simp: enabled_def)
qed

lemma followed_sends:
  assumes run: "daemon_run E f" and fl: "followed E st i p f n" "st \<noteq> StatusRemoved" and m: "n \<le> m"
  obtains j where "m \<le> j" "send_act i p (f j) (f (Suc j))"
proof -
  note r = daemon_runD [OF run]
  have "\<exists>k \<ge> j. enabled (send_act i p) (f k)" if j: "m \<le> j" for j
  proof -
    obtain k where k: "j \<le> k" "sy_phase (f k) = Waiting" by (rule consumer_waits [OF r])
    have "check_runs i p (f k)"
      by (rule followed_runs [OF r(1), of st i n]) (use fl m j k(1) in \<open>auto simp: followed_def\<close>)
    with k send_enabled show ?thesis by blast
  qed
  with fair_daemonD(3) [OF r(2), of i p] that show thesis unfolding strongly_fair_def by blast
qed

lemma message_handled:
  assumes k: "dutiful_kernel E" and run: "daemon_run E f" and fl: "followed E st i p f n" "st \<noteq> StatusRemoved"
    and b: "gget (cx_backends (sy_ctx (f n))) (RsID i) = Some b"
    and j: "n \<le> j" "sy_phase (f j) = Received u" "up_Source u = i"
  obtains m where "j \<le> m" "sy_phase (f m) = Reweighting u" "consumer_act E (f m) (f (Suc m))"
proof -
  note r = daemon_runD [OF run] and st = run_step [OF daemon_runD(1) [OF run]]
  obtain m where m: "j \<le> m" "sy_phase (f m) = Received u" "consumer_act E (f m) (f (Suc m))"
    using consumer_acts [OF r(2) st, of j u] j(2) by auto
  have nm: "n \<le> m" using j(1) m(1) by simp
  obtain b' where b': "gget (cx_backends (sy_ctx (f m))) (RsID i) = Some b'" using rating_key [OF k run fl b nm] by blast
  have nr: "\<not> removed_msg u"
    by (rule reportsD(3) [where f = f, OF _ fl(2) nm]) (use fl(1) m(2) j(3) in \<open>simp_all add: followed_def holds_msg_def\<close>)
  from m(3) have "sy_phase (f (Suc m)) = Reweighting u"
    by (cases rule: consumer_act_cases)
      (use m(2) j(3) b' nr in \<open>auto simp: process_locked_def removed_msg_def Let_def split: if_splits\<close>)
  then obtain m' where "Suc m \<le> m'" "sy_phase (f m') = Reweighting u" "consumer_act E (f m') (f (Suc m'))"
    using consumer_acts [OF r(2) st, of "Suc m" u] by auto
  with m(1) that [of m'] show thesis by simp
qed

lemma send_act_received:
  assumes "send_act i p S S'"
  obtains u where "sy_phase S' = Received u" "up_Source u = i"
  using assms by (auto simp: send_act_def)

text \<open>The weight the kernel has is the one of the rating.\<close>

lemma rating_kernel_weight:
  assumes "consistent E (sy_ctx S)" "rating i S = (Some (bck_key b), Some w, x)"
  shows "kernel_weight (sy_ctx S) b = Some w" "sy_stash S i = x"
  using assms kernel_weight_of [OF assms(1), of "RsID i" b w] by (simp_all add: rating_def)

section \<open>A backend that fails is taken out\<close>

section \<open>A backend that fails is taken out\<close>

text \<open>One result of the check that is acted on, by what it does to the rating.\<close>

lemma acts_rating:
  assumes k: "dutiful_kernel E" and run: "daemon_run E f" and fl: "followed E st i p f n" "st \<noteq> StatusRemoved"
    and m: "n \<le> m" "sy_phase (f m) = Reweighting u" "up_Source u = i" "consumer_act E (f m) (f (Suc m))"
  shows "process_reweight E u (sy_stash (f m)) (sy_ctx (f m)) = (sy_stash (f (Suc m)), sy_ctx (f (Suc m)))"
    and "fst (rating i (f (Suc m))) = fst (rating i (f m))" "m_Status (up_Metrics u) = st"
proof -
  show p: "process_reweight E u (sy_stash (f m)) (sy_ctx (f m)) = (sy_stash (f (Suc m)), sy_ctx (f (Suc m)))"
    using m(4) by (cases rule: consumer_act_cases) (use m(2) in auto)
  show "fst (rating i (f (Suc m))) = fst (rating i (f m))"
    using consistent_reweight(4) [OF p daemon_run_consistent [OF k run], of "RsID i"] by (simp add: rating_def)
  show "m_Status (up_Metrics u) = st"
    using reportsD(2) [of st i f n m u] fl m(1-3) by (simp add: followed_def holds_msg_def)
qed

lemma down_rating:
  assumes k: "dutiful_kernel E" and c: "consistent E (sy_ctx S)" and u: "up_Source u = i" "m_Status (up_Metrics u) = StatusDown"
    and p: "process_reweight E u (sy_stash S) (sy_ctx S) = (sy_stash S', sy_ctx S')"
    and q: "fst (rating i S') = fst (rating i S)"
    and r: "rating i S \<in> {(Some q, Some w, None), (Some q, Some 0, Some w)}"
  shows "rating i S' = (Some q, Some 0, Some w)"
proof -
  obtain b where b: "gget (cx_backends (sy_ctx S)) (RsID (up_Source u)) = Some b" using r u(1) by (auto simp: rating_def)
  have up: "kernel_updates E" using k by (simp add: dutiful_kernel_def)
  note d = reweight_down [OF up c b u(2) p]
  from r show ?thesis
  proof (elim insertE)
    assume "rating i S = (Some q, Some w, None)"
    with d(2) b u(1) q show ?thesis by (auto simp: rating_def weight_of_def)
  next
    assume "rating i S = (Some q, Some 0, Some w)"
    with d(1) [of w] u(1) show ?thesis by (simp add: rating_def)
  qed simp
qed

lemma drained_step:
  assumes k: "dutiful_kernel E" and run: "daemon_run E f" and fl: "followed E StatusDown i p f n" and m: "n \<le> m"
  shows "rating i (f m) = (Some q, Some w, None) \<Longrightarrow> rating i (f (Suc m)) \<in> {(Some q, Some w, None), (Some q, Some 0, Some w)}"
    and "rating i (f m) = (Some q, Some 0, Some w) \<Longrightarrow> rating i (f (Suc m)) = (Some q, Some 0, Some w)"
proof -
  have "rating i (f (Suc m)) = rating i (f m) \<or> rating i (f (Suc m)) = (Some q, Some 0, Some w)"
    if r: "rating i (f m) \<in> {(Some q, Some w, None), (Some q, Some 0, Some w)}"
  proof -
    obtain b where b: "gget (cx_backends (sy_ctx (f m))) (RsID i) = Some b" using r by (auto simp: rating_def)
    show ?thesis
    proof (cases rule: rating_step [OF k run fl _ m b])
      case (3 u)
      from down_rating [OF k daemon_run_consistent [OF k run] 3(2-5) r] show ?thesis ..
    qed simp_all
  qed
  then show "rating i (f m) = (Some q, Some w, None) \<Longrightarrow> rating i (f (Suc m)) \<in> {(Some q, Some w, None), (Some q, Some 0, Some w)}"
    "rating i (f m) = (Some q, Some 0, Some w) \<Longrightarrow> rating i (f (Suc m)) = (Some q, Some 0, Some w)"
    by auto
qed


section \<open>A backend that recovers gets its weight back\<close>

lemma up_rating:
  assumes k: "dutiful_kernel E" and c: "consistent E (sy_ctx S)" and u: "up_Source u = i" "m_Status (up_Metrics u) = StatusUp"
    and p: "process_reweight E u (sy_stash S) (sy_ctx S) = (sy_stash S', sy_ctx S')"
    and q: "fst (rating i S') = fst (rating i S)"
  shows "rating i S = (Some q, Some w, None) \<Longrightarrow> rating i S' = (Some q, Some w, None)"
    and "rating i S = (Some q, Some x, Some w) \<Longrightarrow> rating i S' = (Some q, Some w, None) \<or>
      m_Health (up_Metrics u) \<noteq> 1 \<and> (\<exists>y. rating i S' = (Some q, Some y, Some w))"
proof -
  have up: "kernel_updates E" using k by (simp add: dutiful_kernel_def)
  show "rating i S' = (Some q, Some w, None)" if r: "rating i S = (Some q, Some w, None)"
  proof -
    obtain b where b: "gget (cx_backends (sy_ctx S)) (RsID (up_Source u)) = Some b" using r u(1) by (auto simp: rating_def)
    from reweight_up(1) [OF up c b u(2) p] r u(1) show ?thesis by (simp add: rating_def)
  qed
  show "rating i S' = (Some q, Some w, None) \<or> m_Health (up_Metrics u) \<noteq> 1 \<and> (\<exists>y. rating i S' = (Some q, Some y, Some w))"
    if r: "rating i S = (Some q, Some x, Some w)"
  proof -
    obtain b where b: "gget (cx_backends (sy_ctx S)) (RsID (up_Source u)) = Some b" using r u(1) by (auto simp: rating_def)
    from reweight_up(2) [OF up c b u(2) p, of w] r u(1) q show ?thesis
      by (cases "m_Health (up_Metrics u) = 1") (auto simp: rating_def split: if_splits)
  qed
qed

lemma recovering_step:
  assumes k: "dutiful_kernel E" and run: "daemon_run E f" and fl: "followed E StatusUp i p f n" and m: "n \<le> m"
  shows "rating i (f m) = (Some q, Some w, None) \<Longrightarrow> rating i (f (Suc m)) = (Some q, Some w, None)"
    and "rating i (f m) = (Some q, Some x, Some w) \<Longrightarrow> rating i (f (Suc m)) = (Some q, Some w, None) \<or>
      (\<exists>y. rating i (f (Suc m)) = (Some q, Some y, Some w))"
proof -
  note c = daemon_run_consistent [OF k run]
  have b: "\<exists>b. gget (cx_backends (sy_ctx (f m))) (RsID i) = Some b" if "rating i (f m) = (Some q, r)" for r
    using that by (auto simp: rating_def)
  show "rating i (f (Suc m)) = (Some q, Some w, None)" if r: "rating i (f m) = (Some q, Some w, None)"
  proof -
    obtain b where b: "gget (cx_backends (sy_ctx (f m))) (RsID i) = Some b" using b [OF r] ..
    show ?thesis
    proof (cases rule: rating_step [OF k run fl _ m b])
      case (3 u)
      from up_rating(1) [OF k c 3(2-5) r] show ?thesis .
    qed (use r in simp_all)
  qed
  show "rating i (f (Suc m)) = (Some q, Some w, None) \<or> (\<exists>y. rating i (f (Suc m)) = (Some q, Some y, Some w))"
    if r: "rating i (f m) = (Some q, Some x, Some w)"
  proof -
    obtain b where b: "gget (cx_backends (sy_ctx (f m))) (RsID i) = Some b" using b [OF r] ..
    show ?thesis
    proof (cases rule: rating_step [OF k run fl _ m b])
      case (3 u)
      from up_rating(2) [OF k c 3(2-5) r] show ?thesis by blast
    qed (use r in simp_all)
  qed
qed

text \<open>The successes at the end of the record of a check.\<close>

definition streak :: "nat \<Rightarrow> Pulse \<Rightarrow> sys \<Rightarrow> bool" where
  "streak j p S \<longleftrightarrow> (\<exists>s rs. sy_loop S (p_stopCh p) = Some s \<and> m_record (lp_metrics s) = rs @ replicate j StatusUp)"

lemma streak_less: "streak (Suc j) p S \<Longrightarrow> streak j p S"
proof -
  assume "streak (Suc j) p S"
  then obtain s rs where "sy_loop S (p_stopCh p) = Some s" "m_record (lp_metrics s) = (rs @ [StatusUp]) @ replicate j StatusUp"
    by (auto simp: streak_def)
  then show "streak j p S" unfolding streak_def by blast
qed

lemma push_streak:
  assumes "j < 100"
  shows "\<exists>qs. push_record (rs @ replicate j StatusUp) StatusUp = qs @ replicate (Suc j) StatusUp"
proof -
  have a: "(rs @ replicate j StatusUp) @ [StatusUp] = rs @ replicate (Suc j) StatusUp"
    by (simp add: replicate_append_same)
  show ?thesis
  proof (cases rs)
    case (Cons r rs')
    then show ?thesis unfolding push_record_def Let_def a by auto
  qed (use assms a in \<open>auto simp: push_record_def\<close>)
qed

text \<open>Only a message of its own changes what a check has recorded, while the context is open.\<close>

lemma open_check_step:
  assumes s: "sys_step E S S'" and r: "reachable E S" and c: "check_runs i p S" and o: "\<not> cx_stopped (sy_ctx S)"
  obtains "sy_loop S' (p_stopCh p) = sy_loop S (p_stopCh p)" | "send_act i p S S'"
proof -
  obtain s where ip: "(i, p) \<in> set (cx_loops (sy_ctx S))" and l: "sy_loop S (p_stopCh p) = Some s" "\<not> lp_done s"
    using c by (auto simp: check_runs_def)
  have lo: "loops_ok (sy_ctx S)" using reachable_inv [OF r] by (simp add: sys_inv_def)
  have same: "j = i \<and> q = p" if "(j, q) \<in> set (cx_loops (sy_ctx S))" "p_stopCh q = p_stopCh p" for j q
    using lo ip that unfolding loops_ok_def by blast
  have "sy_loop S' (p_stopCh p) = sy_loop S (p_stopCh p) \<or> send_act i p S S'"
    using s
  proof (cases rule: sys_step.cases)
    case own
    then show ?thesis
    proof (cases rule: own_step.cases)
      case (send j q t u t')
      show ?thesis
      proof (cases "p_stopCh q = p_stopCh p")
        case True
        then have "j = i" "q = p" using same send(2) by blast+
        with send show ?thesis by (simp add: send_actI)
      qed (use send(1) in simp)
    qed (use l o in auto)
  qed simp
  with that show thesis by blast
qed

lemma send_up:
  assumes "send_act i p S S'" "sy_phase S' = Received u" "m_Status (up_Metrics u) = StatusUp"
  obtains s s' t where "sy_loop S (p_stopCh p) = Some s" "sy_loop S' (p_stopCh p) = Some s'"
    "lp_metrics s' = metrics_Update (lp_metrics s) StatusUp t" "up_Metrics u = lp_metrics s'" "up_Source u = i" "\<not> lp_done s"
  using assms by (auto simp: send_act_def)

lemma streak_send:
  assumes "send_act i p S S'" "sy_phase S' = Received u" "m_Status (up_Metrics u) = StatusUp" "streak j p S" "j < 100"
  shows "streak (Suc j) p S'"
proof -
  obtain s s' t where s: "sy_loop S (p_stopCh p) = Some s" "sy_loop S' (p_stopCh p) = Some s'"
    "lp_metrics s' = metrics_Update (lp_metrics s) StatusUp t" by (rule send_up [OF assms(1-3)])
  obtain rs where "m_record (lp_metrics s) = rs @ replicate j StatusUp" using assms(4) s(1) by (auto simp: streak_def)
  with push_streak [OF assms(5), of rs] s show ?thesis by (auto simp: streak_def)
qed

lemma full_streak_health:
  assumes "send_act i p S S'" "sy_phase S' = Received u" "m_Status (up_Metrics u) = StatusUp" "streak 99 p S" "sys_inv E S"
  shows "m_Health (up_Metrics u) = 1"
proof -
  obtain s s' t where s: "sy_loop S (p_stopCh p) = Some s" "sy_loop S' (p_stopCh p) = Some s'" "\<not> lp_done s"
    "lp_metrics s' = metrics_Update (lp_metrics s) StatusUp t" "up_Metrics u = lp_metrics s'"
    by (rule send_up [OF assms(1-3)])
  obtain rs where rs: "m_record (lp_metrics s) = rs @ replicate 99 StatusUp" using assms(4) s(1) by (auto simp: streak_def)
  have "length (m_record (lp_metrics s)) \<le> 100" using assms(5) s(1,3) by (auto simp: sys_inv_def checks_ok_def metrics_ok_def)
  then have "push_record (m_record (lp_metrics s)) StatusUp = replicate 100 StatusUp"
    unfolding rs by (cases rs) (simp_all add: push_record_def replicate_append_same numeral_eq_Suc)
  then show ?thesis using f64.health_all_up [of "replicate 100 StatusUp"] by (simp add: s(4,5))
qed

text \<open>A check that finds its backend up at every turn comes to ninety-nine successes on end, and stays there.\<close>

lemma followed_message:
  assumes "followed E st i p f n" "st \<noteq> StatusRemoved" "n \<le> m" "send_act i p (f m) (f (Suc m))"
  obtains u where "sy_phase (f (Suc m)) = Received u" "up_Source u = i" "m_Status (up_Metrics u) = st"
proof -
  obtain u where u: "sy_phase (f (Suc m)) = Received u" "up_Source u = i" by (rule send_act_received [OF assms(4)])
  have "m_Status (up_Metrics u) = st"
    by (rule reportsD(2) [where f = f and n = n and m = "Suc m" and i = i])
      (use assms u in \<open>simp_all add: followed_def holds_msg_def\<close>)
  with u that show thesis by blast
qed

lemma streak_stays:
  assumes run: "daemon_run E f" and fl: "followed E StatusUp i p f n" and m: "n \<le> m" "m \<le> k" and j: "streak j p (f m)" "j < 100"
  shows "streak j p (f k)"
proof (rule stays [where P = "streak j p" and f = f, OF m(2) j(1)])
  fix h
  assume h: "m \<le> h" "streak j p (f h)"
  note r = daemon_runD [OF run]
  have nh: "n \<le> h" using m(1) h(1) by simp
  have ck: "check_runs i p (f h)"
    by (rule followed_runs [OF r(1), of StatusUp i n]) (use fl nh in \<open>simp_all add: followed_def\<close>)
  have op: "\<not> cx_stopped (sy_ctx (f h))" using r(3) by (simp add: stays_open_def)
  show "streak j p (f (Suc h))"
  proof (cases rule: open_check_step [OF run_step [OF r(1)] run_reachable [OF r(1)] ck op])
    case 1
    with h(2) show ?thesis by (simp add: streak_def)
  next
    case 2
    obtain u where u: "sy_phase (f (Suc h)) = Received u" "up_Source u = i" "m_Status (up_Metrics u) = StatusUp"
      by (rule followed_message [OF fl _ nh 2]) simp
    from streak_send [OF 2 u(1,3) h(2) j(2)] show ?thesis by (rule streak_less)
  qed
qed

lemma streak_grows:
  assumes run: "daemon_run E f" and fl: "followed E StatusUp i p f n" and j: "j < 100"
  shows "\<exists>m \<ge> n. streak j p (f m)"
  using j
proof (induction j)
  case 0
  obtain s where "sy_loop (f n) (p_stopCh p) = Some s" using fl by (auto simp: followed_def check_runs_def)
  then show ?case by (auto simp: streak_def)
next
  case (Suc j)
  then obtain m where m: "n \<le> m" "streak j p (f m)" by auto
  obtain k where k: "m \<le> k" "send_act i p (f k) (f (Suc k))" by (rule followed_sends [OF run fl _ m(1)]) simp
  have nk: "n \<le> k" using m(1) k(1) by simp
  obtain u where u: "sy_phase (f (Suc k)) = Received u" "up_Source u = i" "m_Status (up_Metrics u) = StatusUp"
    by (rule followed_message [OF fl _ nk k(2)]) simp
  have "streak j p (f k)" by (rule streak_stays [OF run fl m(1) k(1) m(2)]) (use Suc.prems in simp)
  from streak_send [OF k(2) u(1,3) this] Suc.prems nk show ?case by (meson Suc_lessD le_SucI)
qed

lemma full_message:
  assumes run: "daemon_run E f" and fl: "followed E StatusUp i p f n"
  obtains m u where "n \<le> m" "sy_phase (f m) = Received u" "up_Source u = i" "m_Health (up_Metrics u) = 1"
proof -
  obtain m where m: "n \<le> m" "streak 99 p (f m)" using streak_grows [OF run fl, of 99] by auto
  obtain k where k: "m \<le> k" "send_act i p (f k) (f (Suc k))" by (rule followed_sends [OF run fl _ m(1)]) simp
  have nk: "n \<le> k" using m(1) k(1) by simp
  obtain u where u: "sy_phase (f (Suc k)) = Received u" "up_Source u = i" "m_Status (up_Metrics u) = StatusUp"
    by (rule followed_message [OF fl _ nk k(2)]) simp
  have s: "streak 99 p (f k)" by (rule streak_stays [OF run fl m(1) k(1) m(2)]) simp
  have "sys_inv E (f k)" by (rule reachable_inv [OF run_reachable [OF daemon_runD(1) [OF run]]])
  from full_streak_health [OF k(2) u(1,3) s this] u(1,2) nk that [of "Suc k" u] show thesis by simp
qed


section \<open>A fair run\<close>

text \<open>
  A daemon with one check whose turns come one after the other: the check hands over a message, the consumer
  looks at it and changes the weight, and so on.  It stays as it is once the check has ended.
\<close>

definition drive_check :: "probe \<Rightarrow> ID \<Rightarrow> Pulse \<Rightarrow> sys \<Rightarrow> loop_state \<Rightarrow> sys" where
  "drive_check pr i p S s =
     (if p_stopCh p \<in> set (cx_closed (sy_ctx S))
      then let m = metrics_Update (lp_metrics s) StatusRemoved 0
        in S\<lparr>sy_phase := Received \<lparr>up_Source = i, up_Metrics = m\<rparr>,
             sy_loop := (sy_loop S)(p_stopCh p \<mapsto> s\<lparr>lp_metrics := m, lp_done := True\<rparr>)\<rparr>
      else let m = metrics_Update (lp_metrics s) (driver_Check pr (p_driver p)) 0
        in S\<lparr>sy_phase := Received \<lparr>up_Source = i, up_Metrics = m\<rparr>,
             sy_loop := (sy_loop S)(p_stopCh p \<mapsto> s\<lparr>lp_interval := p_interval p, lp_metrics := m\<rparr>)\<rparr>)"

definition drive :: "env \<Rightarrow> probe \<Rightarrow> ID \<Rightarrow> Pulse \<Rightarrow> sys \<Rightarrow> sys" where
  "drive E pr i p S = (case sy_phase S of
       Waiting \<Rightarrow> (case sy_loop S (p_stopCh p) of None \<Rightarrow> S
         | Some s \<Rightarrow> if lp_done s then S else drive_check pr i p S s)
     | Received u \<Rightarrow> (case process_locked u (sy_stash S) (sy_ctx S) of (go, st', c') \<Rightarrow>
         S\<lparr>sy_ctx := c', sy_stash := st', sy_phase := (if go then Reweighting u else Waiting)\<rparr>)
     | Reweighting u \<Rightarrow> (case process_reweight E u (sy_stash S) (sy_ctx S) of (st', c') \<Rightarrow>
         S\<lparr>sy_ctx := c', sy_stash := st', sy_phase := Waiting\<rparr>)
     | Ended \<Rightarrow> S)"

definition drive_run :: "env \<Rightarrow> probe \<Rightarrow> ID \<Rightarrow> Pulse \<Rightarrow> sys \<Rightarrow> nat \<Rightarrow> sys" where
  "drive_run E pr i p S n = (drive E pr i p ^^ n) S"

lemma drive_run_simps [simp]:
  "drive_run E pr i p S 0 = S" "drive_run E pr i p S (Suc n) = drive E pr i p (drive_run E pr i p S n)"
  by (simp_all add: drive_run_def)

text \<open>The one check of the context has begun, the context is open and the consumer has not ended.\<close>

definition one_check :: "ID \<Rightarrow> Pulse \<Rightarrow> sys \<Rightarrow> bool" where
  "one_check i p S \<longleftrightarrow> cx_loops (sy_ctx S) = [(i, p)] \<and> sy_loop S (p_stopCh p) \<noteq> None \<and>
     \<not> cx_stopped (sy_ctx S) \<and> sy_phase S \<noteq> Ended"

lemma drive_send:
  assumes "check_runs i p S" "sy_phase S = Waiting"
  shows "send_act i p S (drive E pr i p S)"
    and "p_stopCh p \<in> set (cx_closed (sy_ctx S)) \<Longrightarrow> last_act i p S (drive E pr i p S)"
proof -
  obtain s where s: "(i, p) \<in> set (cx_loops (sy_ctx S))" "sy_loop S (p_stopCh p) = Some s" "\<not> lp_done s"
    using assms(1) by (auto simp: check_runs_def)
  have d: "drive E pr i p S = drive_check pr i p S s" using assms(2) s by (simp add: drive_def)
  let ?r = "metrics_Update (lp_metrics s) StatusRemoved 0"
  let ?m = "metrics_Update (lp_metrics s) (driver_Check pr (p_driver p)) 0"
  have 1: "loop_step p i s (Some \<lparr>up_Source = i, up_Metrics = ?r\<rparr>) (s\<lparr>lp_metrics := ?r, lp_done := True\<rparr>)"
    by (rule loop_step.stop [OF s(3) refl])
  have 2: "loop_step p i s (Some \<lparr>up_Source = i, up_Metrics = ?m\<rparr>) (s\<lparr>lp_interval := p_interval p, lp_metrics := ?m\<rparr>)"
    by (rule loop_step.fire_send [OF s(3) refl])
  show a: "send_act i p S (drive E pr i p S)"
    using send_actI [OF s(1) assms(2) s(2) 1] send_actI [OF s(1) assms(2) s(2) 2] s(3)
    by (simp add: d drive_check_def Let_def)
  show "last_act i p S (drive E pr i p S)" if "p_stopCh p \<in> set (cx_closed (sy_ctx S))"
    using a that by (simp add: last_act_def check_ended_def d drive_check_def Let_def)
qed

lemma drive_consumer:
  assumes "sy_phase S = Received u \<or> sy_phase S = Reweighting u"
  shows "consumer_act E S (drive E pr i p S)"
  using assms
proof
  assume p: "sy_phase S = Received u"
  obtain go st' c' where l: "process_locked u (sy_stash S) (sy_ctx S) = (go, st', c')" by (metis prod.collapse)
  from own_step.look [OF p l, of E] p l show ?thesis by (simp add: consumer_act_def drive_def)
next
  assume p: "sy_phase S = Reweighting u"
  obtain st' c' where l: "process_reweight E u (sy_stash S) (sy_ctx S) = (st', c')" by force
  from own_step.reweight [OF p l] p l show ?thesis by (simp add: consumer_act_def drive_def)
qed

lemma send_act_own: "send_act i p S S' \<Longrightarrow> own_step E S S'"
  unfolding send_act_def by (elim conjE exE) (simp only: own_step.send)

lemma drive_own:
  assumes "one_check i p S"
  shows "own_step E S (drive E pr i p S) \<or> drive E pr i p S = S \<and> check_ended p S"
proof (cases "sy_phase S")
  case Waiting
  show ?thesis
  proof (cases "check_ended p S")
    case True
    then have "drive E pr i p S = S" using Waiting by (auto simp: check_ended_def drive_def)
    with True show ?thesis by simp
  next
    case False
    then have "check_runs i p S" using assms by (auto simp: one_check_def check_runs_def check_ended_def)
    then show ?thesis using drive_send(1) Waiting send_act_own by blast
  qed
next
  case (Received u)
  with drive_consumer [of S u E pr i p] show ?thesis by (simp add: consumer_act_def)
next
  case (Reweighting u)
  with drive_consumer [of S u E pr i p] show ?thesis by (simp add: consumer_act_def)
qed (use assms in \<open>simp add: one_check_def\<close>)

lemma updateBackend_stopped: "cx_stopped (snd (updateBackend E v k w c)) = cx_stopped c"
proof -
  obtain r c' where r: "updateBackend E v k w c = (r, c')" by force
  from r show ?thesis by (cases rule: updateBackend_cases) (use r in \<open>auto simp: quiet_sel logged_to_sel\<close>)
qed

lemma drive_one_check:
  assumes "one_check i p S"
  shows "one_check i p (drive E pr i p S)"
proof -
  have l: "cx_loops (sy_ctx (drive E pr i p S)) = cx_loops (sy_ctx S) \<and>
      (sy_loop S (p_stopCh p) \<noteq> None \<longrightarrow> sy_loop (drive E pr i p S) (p_stopCh p) \<noteq> None)"
    using drive_own [OF assms, of E pr] own_step_loops(1) own_step_grows by (fastforce simp: grows_def)
  have s: "cx_stopped (sy_ctx (drive E pr i p S)) = cx_stopped (sy_ctx S) \<and> sy_phase (drive E pr i p S) \<noteq> Ended"
  proof (cases "sy_phase S")
    case (Received u)
    obtain go st' c' where p: "process_locked u (sy_stash S) (sy_ctx S) = (go, st', c')" by (metis prod.collapse)
    then show ?thesis by (cases rule: process_locked_cases) (use Received p in \<open>auto simp: drive_def\<close>)
  next
    case (Reweighting u)
    obtain st' c' where p: "process_reweight E u (sy_stash S) (sy_ctx S) = (st', c')" by force
    then show ?thesis
      by (cases rule: process_reweight_ctx) (use Reweighting p in \<open>auto simp: drive_def updateBackend_stopped\<close>)
  qed (use assms in \<open>auto simp: one_check_def drive_def drive_check_def Let_def split: option.split\<close>)
  from l s assms show ?thesis by (simp add: one_check_def)
qed

lemma drive_run_one_check: "one_check i p S \<Longrightarrow> one_check i p (drive_run E pr i p S n)"
  by (induction n) (simp_all add: drive_one_check)

lemma drive_run_open: "one_check i p S \<Longrightarrow> stays_open (drive_run E pr i p S)"
  using drive_run_one_check by (fastforce simp: stays_open_def one_check_def)

lemma drive_run_fair:
  assumes "one_check i p S"
  shows "fair_daemon E (drive_run E pr i p S)"
proof -
  let ?f = "drive_run E pr i p S"
  have one: "one_check i p (?f n)" for n by (rule drive_run_one_check [OF assms])
  have "weakly_fair (consumer_act E) ?f"
    unfolding weakly_fair_def enabled_def using drive_consumer by (fastforce simp: consumer_act_def)
  moreover have "weakly_fair (begin_act j q) ?f" for j q
  proof -
    have "\<not> enabled (begin_act j q) (?f n)" for n
      using one [of n] by (auto simp: enabled_def begin_act_def one_check_def)
    then show ?thesis unfolding weakly_fair_def by blast
  qed
  moreover have "send_act j q (?f n) (?f (Suc n))" if "enabled (send_act j q) (?f n)" for j q n
  proof -
    have "j = i \<and> q = p \<and> sy_phase (?f n) = Waiting \<and> check_runs i p (?f n)"
      using that one [of n] by (auto simp: enabled_def send_act_def one_check_def check_runs_def)
    then show ?thesis using drive_send(1) by auto
  qed
  moreover have "last_act j q (?f n) (?f (Suc n))" if "enabled (last_act j q) (?f n)" for j q n
  proof -
    have "j = i \<and> q = p \<and> sy_phase (?f n) = Waiting \<and> check_runs i p (?f n) \<and> p_stopCh p \<in> set (cx_closed (sy_ctx (?f n)))"
      using that one [of n] by (auto simp: enabled_def last_act_def send_act_def one_check_def check_runs_def check_ended_def)
    then show ?thesis using drive_send(2) by auto
  qed
  ultimately show ?thesis unfolding fair_daemon_def strongly_fair_def by blast
qed

lemma idle_request: "calm E S \<Longrightarrow> calm E S \<and> sys_step E S S"
proof -
  obtain k where k: "k \<notin> set (gkeys (cx_services (sy_ctx S)))" using ex_new_if_finite [OF infinite_UNIV_listI] by blast
  then have "gget (cx_services (sy_ctx S)) k = None" using gm.keys_get by blast
  then have "api_run E (ApiRemoveService k) (sy_ctx S) = sy_ctx S" by (simp add: critical_defs removeService_def)
  with sys_step.request [of E S "ApiRemoveService k"] show "calm E S \<Longrightarrow> calm E S \<and> sys_step E S S" by simp
qed

lemma drive_run_calm:
  assumes "calm E S" "one_check i p S"
  shows "calm_run E (drive_run E pr i p S)"
proof -
  let ?f = "drive_run E pr i p S"
  have step: "calm E (?f (Suc n)) \<and> sys_step E (?f n) (?f (Suc n))" if "calm E (?f n)" for n
  proof (rule disjE [OF drive_own [OF drive_run_one_check [OF assms(2), of E pr n], of E pr]])
    assume "own_step E (?f n) (drive E pr i p (?f n))"
    with that show ?thesis using calm.own sys_step.own by auto
  next
    assume "drive E pr i p (?f n) = ?f n \<and> check_ended p (?f n)"
    with that idle_request show ?thesis by auto
  qed
  have "calm E (?f n)" for n by (induction n) (use assms(1) step in auto)
  with step show ?thesis by (simp add: calm_run_def)
qed

lemma drive_run_daemon: "calm E S \<Longrightarrow> one_check i p S \<Longrightarrow> daemon_run E (drive_run E pr i p S)"
  by (simp add: daemon_run_def drive_run_calm drive_run_fair drive_run_open)

text \<open>A check that was not stopped decides alone about its backend.\<close>

definition sole_check :: "StatusType \<Rightarrow> ID \<Rightarrow> Pulse \<Rightarrow> sys \<Rightarrow> bool" where
  "sole_check st i p S \<longleftrightarrow> one_check i p S \<and> check_runs i p S \<and> p_stopCh p \<notin> set (cx_closed (sy_ctx S)) \<and>
     (\<forall>u. holds_msg S u \<longrightarrow> up_Source u = i \<and> m_Status (up_Metrics u) = st)"

lemma drive_sole_check:
  assumes c: "calm E S" and s: "sole_check st i p S" and d: "driver_Check pr (p_driver p) = st"
  shows "own_step E S (drive E pr i p S)" "sole_check st i p (drive E pr i p S)"
proof -
  let ?S = "drive E pr i p S"
  have one: "one_check i p S" and ck: "check_runs i p S" and ncl: "p_stopCh p \<notin> set (cx_closed (sy_ctx S))"
    and msg: "\<And>u. holds_msg S u \<Longrightarrow> up_Source u = i \<and> m_Status (up_Metrics u) = st"
    using s by (simp_all add: sole_check_def)
  have "\<not> check_ended p S" using ck by (auto simp: check_runs_def check_ended_def)
  with drive_own [OF one] show own: "own_step E S ?S" by blast
  have ck': "check_runs i p ?S"
  proof (cases rule: check_step [OF sys_step.own [OF own] calm_reachable [OF c] ck])
    case 2
    then have "p_stopCh p \<in> set (cx_closed (sy_ctx S))" by (auto simp: last_act_def send_act_def check_ended_def)
    with ncl show ?thesis ..
  qed
  have "up_Source u = i \<and> m_Status (up_Metrics u) = st" if h: "holds_msg ?S u" for u
  proof (cases "sy_phase S")
    case Waiting
    obtain s where "sy_loop S (p_stopCh p) = Some s" "\<not> lp_done s" using ck by (auto simp: check_runs_def)
    with Waiting h d ncl show ?thesis by (auto simp: holds_msg_def drive_def drive_check_def Let_def)
  next
    case (Received v)
    with h msg [of v] show ?thesis
      by (auto simp: holds_msg_def drive_def split: prod.splits if_splits)
  next
    case (Reweighting v)
    with h show ?thesis by (auto simp: holds_msg_def drive_def split: prod.splits)
  qed (use one in \<open>simp add: one_check_def\<close>)
  with drive_one_check [OF one] ck' ncl own_step_loops(2) [OF own] show "sole_check st i p ?S" by (simp add: sole_check_def)
qed

lemma drive_run_followed:
  assumes "calm E S" "sole_check st i p S" "driver_Check pr (p_driver p) = st"
  shows "followed E st i p (drive_run E pr i p S) n" "sole_check st i p (drive_run E pr i p S n)"
proof -
  let ?f = "drive_run E pr i p S"
  have one: "one_check i p S" using assms(2) by (simp add: sole_check_def)
  have c: "calm E (?f m)" for m using drive_run_calm [OF assms(1) one] by (simp add: calm_run_def)
  have s: "sole_check st i p (?f m)" for m
    by (induction m) (use assms drive_sole_check(2) [OF c _ assms(3)] in simp_all)
  have "own_step E (?f m) (?f (Suc m))" for m using drive_sole_check(1) [OF c s assms(3)] by simp
  with s show "followed E st i p ?f n" by (auto simp: followed_def left_alone_def reports_def sole_check_def)
  show "sole_check st i p (?f n)" by (rule s)
qed

text \<open>Three turns after it has failed the first time.\<close>

lemma drive_drains:
  assumes k: "dutiful_kernel E" and c: "calm E S" and s: "sole_check StatusDown i p S" "sy_phase S = Waiting"
    and d: "driver_Check pr (p_driver p) = StatusDown" and r: "rating i S = (Some q, Some w, None)"
  shows "rating i (drive_run E pr i p S 3) = (Some q, Some 0, Some w)" "sy_phase (drive_run E pr i p S 3) = Waiting"
proof -
  let ?f = "drive_run E pr i p S"
  have one: "one_check i p S" and ck: "check_runs i p S" using s by (simp_all add: sole_check_def)
  note run = drive_run_daemon [OF c one, of pr] and fl = drive_run_followed(1) [OF c s(1) d, of 0]
  note st = drained_step [OF k run fl, where q = q and w = w]
  have "send_act i p S (?f 1)" using drive_send(1) [OF ck s(2)] by simp
  then obtain u where u: "sy_phase (?f 1) = Received u" "up_Source u = i" by (rule send_act_received)
  have r1: "rating i (?f 1) \<in> {(Some q, Some w, None), (Some q, Some 0, Some w)}" using st(1) [of 0] r by simp
  then obtain b where b: "gget (cx_backends (sy_ctx (?f 1))) (RsID i) = Some b" by (auto simp: rating_def)
  have "\<not> removed_msg u"
    by (rule reportsD(3) [where f = ?f and n = 0 and m = 1 and st = StatusDown and i = i])
      (use fl u in \<open>simp_all add: followed_def holds_msg_def\<close>)
  then have p2: "sy_phase (?f 2) = Reweighting u"
    using u b by (auto simp: numeral_2_eq_2 drive_def process_locked_def removed_msg_def Let_def split: prod.splits)
  have a2: "consumer_act E (?f 2) (?f (Suc 2))"
    unfolding drive_run_simps(2) by (rule drive_consumer) (use p2 in simp)
  have r2: "rating i (?f 2) \<in> {(Some q, Some w, None), (Some q, Some 0, Some w)}"
    using st [of 1] r1 by (auto simp: numeral_2_eq_2)
  note a = acts_rating [OF k run fl _ _ p2 u(2) a2]
  have "rating i (?f (Suc 2)) = (Some q, Some 0, Some w)"
    by (rule down_rating [OF k daemon_run_consistent [OF k run] u(2) a(3,1,2) r2]) simp_all
  moreover have "sy_phase (?f (Suc 2)) = Waiting" using a2 by (cases rule: consumer_act_cases) (use p2 in auto)
  ultimately show "rating i (?f 3) = (Some q, Some 0, Some w)" "sy_phase (?f 3) = Waiting"
    by (simp_all only: eval_nat_numeral numeral_2_eq_2)
qed

section \<open>The properties at work\<close>

text \<open>The check of the backend has begun.\<close>

definition demo_pulse :: Pulse where
  "demo_pulse = snd (hd (cx_loops demo_ctx))"

definition demo_sys :: sys where
  "demo_sys = (sys_start demo_ctx)\<lparr>sy_loop := [p_stopCh demo_pulse \<mapsto> loop_start demo_pulse 1]\<rparr>"

definition deaf :: probe where "deaf = \<lparr>dial = \<lambda>_. False, http_do = \<lambda>_ _ _. Inl []\<rparr>"
definition well :: probe where "well = \<lparr>dial = \<lambda>_. True, http_do = \<lambda>_ _ _. Inr 200\<rparr>"

lemma demo_facts:
  shows "cx_loops demo_ctx = [(n1, demo_pulse)]" "cx_closed demo_ctx = []" "\<not> cx_stopped demo_ctx"
    "weight_of (RsID n1) demo_ctx = Some 10" "driver_Check deaf (p_driver demo_pulse) = StatusDown"
    "driver_Check well (p_driver demo_pulse) = StatusUp"
proof -
  show "cx_loops demo_ctx = [(n1, demo_pulse)]" using demo_checks(1) by (auto simp: demo_pulse_def split: list.splits)
  show "cx_closed demo_ctx = []" by (rule demo_checks)
  show "\<not> cx_stopped demo_ctx" by code_simp
  show "weight_of (RsID n1) demo_ctx = Some 10" by code_simp
  show "driver_Check deaf (p_driver demo_pulse) = StatusDown" by code_simp
  show "driver_Check well (p_driver demo_pulse) = StatusUp" by code_simp
qed

lemma demo_calm: "calm kernel_env demo_sys"
proof -
  have "0 < sint (p_interval demo_pulse)"
    using reachable_timed [OF calm_reachable [OF demo_start]] demo_facts(1) by (simp add: timed_def sys_start_def)
  then have "first_interval (\<lambda>_. 1) demo_pulse = Ok 1" by (simp add: first_interval_def)
  from own_step.begin_check [of n1 demo_pulse "sys_start demo_ctx", OF _ _ this] demo_facts(1)
  have "own_step kernel_env (sys_start demo_ctx) demo_sys" unfolding demo_sys_def by (simp add: sys_start_def)
  with demo_start show ?thesis by (rule calm.own)
qed

lemma demo_sole [simp]: "sole_check st n1 demo_pulse demo_sys"
  by (simp add: sole_check_def one_check_def check_runs_def holds_msg_def demo_sys_def sys_start_def demo_facts loop_start_def)

lemma demo_kernel [simp]: "dutiful_kernel kernel_env"
proof -
  have "ipvsDo kernel_env l (UpdDestination s d) = None" for l s d by (simp add: kernel_env_def kernel_do_def)
  then show ?thesis by (simp add: dutiful_kernel_def kernel_updates_def)
qed

text \<open>The backend has been stopped; the check has failed once.\<close>

definition demo_stopped :: sys where
  "demo_stopped = demo_sys\<lparr>sy_ctx := api_run kernel_env (ApiRemoveBackend ''web'' ''n1'') (sy_ctx demo_sys)\<rparr>"

definition demo_low :: sys where
  "demo_low = drive_run kernel_env deaf n1 demo_pulse demo_sys 3"

lemma demo_low_facts:
  shows "sy_stash demo_low n1 = Some 10" "weight_of (RsID n1) (sy_ctx demo_low) = Some 0" "sy_phase demo_low = Waiting"
proof -
  have p: "sy_phase demo_sys = Waiting" by (simp add: demo_sys_def sys_start_def)
  obtain b where "gget (cx_backends demo_ctx) (RsID n1) = Some b" using demo_facts(4) by (auto simp: weight_of_def)
  with demo_facts(4) have "rating n1 demo_sys = (Some (bck_key b), Some 10, None)"
    by (simp add: rating_def demo_sys_def sys_start_def)
  from drive_drains [OF demo_kernel demo_calm demo_sole p demo_facts(5) this]
  show "sy_stash demo_low n1 = Some 10" "weight_of (RsID n1) (sy_ctx demo_low) = Some 0" "sy_phase demo_low = Waiting"
    by (simp_all add: demo_low_def rating_def)
qed

lemma demo_low_ok: "calm kernel_env demo_low" "sole_check StatusUp n1 demo_pulse demo_low"
proof -
  note c = demo_calm and s = demo_sole [of StatusDown]
  have one: "one_check n1 demo_pulse demo_sys" using s by (simp add: sole_check_def)
  show "calm kernel_env demo_low"
    using drive_run_calm [OF c one] by (simp add: demo_low_def calm_run_def)
  have "sole_check StatusDown n1 demo_pulse demo_low"
    unfolding demo_low_def by (rule drive_run_followed(2) [OF c s demo_facts(5)])
  then show "sole_check StatusUp n1 demo_pulse demo_low"
    by (simp add: sole_check_def holds_msg_def demo_low_facts)
qed

theorem removed_check_ends_witness:
  "\<exists>f. f (0::nat) = demo_stopped \<and> \<not> check_ended demo_pulse demo_stopped \<and> (\<exists>m. \<forall>k \<ge> m. check_ended demo_pulse (f k))"
proof -
  let ?f = "drive_run kernel_env deaf n1 demo_pulse demo_stopped"
  have c: "calm kernel_env demo_stopped"
    unfolding demo_stopped_def by (intro calm.request demo_calm) (simp add: harmless_def)
  have x: "sy_ctx demo_stopped = snd (removeBackend kernel_env ''web'' ''n1'' demo_ctx)"
    by (simp add: demo_stopped_def demo_sys_def sys_start_def critical_defs)
  have "\<not> cx_stopped (snd (removeBackend kernel_env ''web'' ''n1'' demo_ctx))"
    "gget (cx_backends (snd (removeBackend kernel_env ''web'' ''n1'' demo_ctx))) ''n1'' = None"
    by code_simp+
  moreover have "cx_loops (sy_ctx demo_stopped) = [(n1, demo_pulse)]"
  proof -
    obtain r c' where rb: "removeBackend kernel_env ''web'' ''n1'' demo_ctx = (r, c')" by force
    from same_removeBackend [OF this] demo_facts(1) show ?thesis by (simp add: x rb same_loops_def)
  qed
  ultimately have d: "cx_loops (sy_ctx demo_stopped) = [(n1, demo_pulse)]" "\<not> cx_stopped (sy_ctx demo_stopped)"
    and un: "\<not> owned (sy_ctx demo_stopped) n1 demo_pulse"
    by (simp_all add: x owned_def n1_def)
  have l: "sy_loop demo_stopped (p_stopCh demo_pulse) = Some (loop_start demo_pulse 1)" "sy_phase demo_stopped = Waiting"
    by (simp_all add: demo_stopped_def demo_sys_def sys_start_def)
  have one: "one_check n1 demo_pulse demo_stopped" using d l by (simp add: one_check_def)
  have no: "\<not> check_ended demo_pulse demo_stopped" using l by (simp add: check_ended_def loop_start_def)
  note r = daemon_runD [OF drive_run_daemon [OF c one, of deaf]]
  have "\<exists>m \<ge> 0. sy_stash (?f m) n1 = None \<and> sy_phase (?f m) = Waiting \<and> (\<forall>k \<ge> m. check_ended demo_pulse (?f k))"
    by (rule removed_check_ends [OF r, of n1 demo_pulse 0]) (use d no un in simp_all)
  then obtain m where m: "\<forall>k \<ge> m. check_ended demo_pulse (?f k)" by auto
  show ?thesis by (intro exI [of _ ?f] exI [of _ m] conjI) (use no m in simp_all)
qed



end
