(* ===== verification/Gorb_DockerLink.thy ===== *)
theory Gorb_DockerLink
  imports Gorb_Daemon
begin

text \<open>
  \<open>src/gorb-docker-link/main.go\<close>: the second program of the repository.  It listens to Docker and
  asks a GORB daemon, over its REST interface, to create and remove the backends of containers.
  The Docker client is a parameter (a listing, the answers to inspections, the events); the daemon is
  behind \<open>httpDo\<close> of the environment, and the last property connects the two programs.
\<close>

section \<open>State and requests\<close>

record APIPort =
  ap_PrivatePort :: i64
  ap_PublicPort :: i64
  ap_Type :: string
  ap_IP :: string

record link_config =
  lc_hostIPs :: "ip list"
  lc_remote :: string

text \<open>The cache of exposed services, a set of names, and what was sent.\<close>

record link =
  li_exposed :: "string set"
  li_log :: log

text \<open>The errors, by their texts' parameters.\<close>

datatype link_error =
    CommunicationError error
  | UnknownError url
  | BackendExists string
  | ParentNotFound string
  | BackendNotFound string

datatype link_result = Done | Failed link_error | Crash

type_synonym action = "link \<Rightarrow> link_result \<times> link"

definition show_int :: "int \<Rightarrow> string" where
  "show_int n = (if n < 0 then CHR ''-'' # show_nat (nat (- n)) else show_nat (nat n))"

definition link_url :: "link_config \<Rightarrow> string list \<Rightarrow> string" where
  "link_url cfg ws = ''http://'' @ path_Join (lc_remote cfg # ''service'' # ws)"

text \<open>The error of \<open>http.NewRequest\<close> is dropped, and its request is nil then.\<close>

definition link_request :: "env \<Rightarrow> string \<Rightarrow> string \<Rightarrow> json \<Rightarrow> http_request option" where
  "link_request E meth u body = (case parseURL E u of Inl e \<Rightarrow> None
     | Inr x \<Rightarrow> Some \<lparr>rq_method = meth, rq_url = x, rq_body = body\<rparr>)"

text \<open>\<open>client.Do\<close> of a nil request panics.\<close>

definition roundtrip :: "env \<Rightarrow> http_request option \<Rightarrow> (nat \<Rightarrow> action option) \<Rightarrow> action" where
  "roundtrip E rqst eh st = (case rqst of None \<Rightarrow> (Crash, st)
     | Some r \<Rightarrow>
         (case http_call E r (li_log st) of
            (Inl e, l') \<Rightarrow> (Failed (CommunicationError e), st\<lparr>li_log := l'\<rparr>)
          | (Inr code, l') \<Rightarrow>
              if code = 200 then (Done, st\<lparr>li_log := l'\<rparr>)
              else (case eh code of
                  Some h \<Rightarrow> h (st\<lparr>li_log := l'\<rparr>)
                | None \<Rightarrow> (Failed (UnknownError (rq_url r)), st\<lparr>li_log := l'\<rparr>))))"

definition mark_exposed :: "string \<Rightarrow> link \<Rightarrow> link" where
  "mark_exposed vs st = st\<lparr>li_exposed := insert vs (li_exposed st)\<rparr>"

section \<open>Actions\<close>

definition link_createService :: "env \<Rightarrow> link_config \<Rightarrow> string \<Rightarrow> i64 \<Rightarrow> string \<Rightarrow> action" where
  "link_createService E cfg vs n proto st =
     roundtrip E (link_request E ''PUT'' (link_url cfg [vs])
         (service_json (zero_ServiceOptions\<lparr>so_Port := ucast n, so_Protocol := proto\<rparr>)))
       (\<lambda>code. if code = 409 then Some (\<lambda>st. (Done, mark_exposed vs st)) else None) st"

definition link_backend :: "APIPort \<Rightarrow> BackendOptions" where
  "link_backend b = zero_BackendOptions\<lparr>bo_Host := ap_IP b, bo_Port := ucast (ap_PublicPort b),
     bo_Pulse := (if ap_Type b = ''udp'' then Some (zero_PulseOptions\<lparr>po_Type := ''none''\<rparr>) else None)\<rparr>"

text \<open>The first part: find out whether the service exists, or create it.\<close>

definition ensure_service :: "env \<Rightarrow> link_config \<Rightarrow> string \<Rightarrow> APIPort \<Rightarrow> action" where
  "ensure_service E cfg vs b st =
     (if vs \<in> li_exposed st then (Done, st)
      else (case parseURL E (link_url cfg [vs]) of
          Inl e \<Rightarrow> (Failed (CommunicationError (ErrExternal e)), st)
        | Inr u \<Rightarrow>
            (case http_call E \<lparr>rq_method = ''GET'', rq_url = u, rq_body = JNull\<rparr> (li_log st) of
               (Inl e, l') \<Rightarrow> (Failed (CommunicationError e), st\<lparr>li_log := l'\<rparr>)
             | (Inr code, l') \<Rightarrow>
                 if code = 200 then (Done, mark_exposed vs (st\<lparr>li_log := l'\<rparr>))
                 else link_createService E cfg vs (ap_PrivatePort b) (ap_Type b) (st\<lparr>li_log := l'\<rparr>))))"

definition link_createBackend :: "env \<Rightarrow> link_config \<Rightarrow> string \<Rightarrow> string \<Rightarrow> APIPort \<Rightarrow> action" where
  "link_createBackend E cfg vs rs b st =
     (case ensure_service E cfg vs b st of
        (Done, st1) \<Rightarrow>
          roundtrip E (link_request E ''PUT'' (link_url cfg [vs, rs]) (backend_json (link_backend b)))
            (\<lambda>code. if code = 409 then Some (\<lambda>st. (Failed (BackendExists (path_Join [vs, rs])), st))
              else if code = 404 then Some (\<lambda>st. (Failed (ParentNotFound vs), st)) else None) st1
      | (r, st1) \<Rightarrow> (r, st1))"

definition link_removeBackend :: "env \<Rightarrow> link_config \<Rightarrow> string \<Rightarrow> string \<Rightarrow> APIPort \<Rightarrow> action" where
  "link_removeBackend E cfg vs rs b st =
     roundtrip E (link_request E ''DELETE'' (link_url cfg [vs, rs]) JNull)
       (\<lambda>code. if code = 404 then Some (\<lambda>st. (Failed (BackendNotFound (path_Join [vs, rs])), st)) else None) st"

section \<open>Ports of a container\<close>

definition mangle :: "string \<Rightarrow> string" where
  "mangle s = map (\<lambda>r. if r = CHR ''/'' \<or> r = CHR '':'' then CHR ''-'' else r) s"

text \<open>\<open>strings.Trim(s, "-")\<close>\<close>

definition trim_dash :: "string \<Rightarrow> string" where
  "trim_dash s = rev (dropWhile (\<lambda>r. r = CHR ''-'') (rev (dropWhile (\<lambda>r. r = CHR ''-'') s)))"

definition mangled_id :: "string \<Rightarrow> i64 \<Rightarrow> string \<Rightarrow> string" where
  "mangled_id name port type = mangle name @ ''-'' @ show_int (sint port) @ ''-'' @ type"

definition vs_name :: "string \<Rightarrow> APIPort \<Rightarrow> string" where
  "vs_name vs b = mangled_id vs (ap_PrivatePort b) (ap_Type b)"

definition rs_name :: "string \<Rightarrow> APIPort \<Rightarrow> string" where
  "rs_name rs b = trim_dash (mangled_id rs (ap_PublicPort b) (ap_Type b))"

text \<open>The errors of the bindings, first to last, or \<open>None\<close> for a panic.\<close>

fun invokeFunc :: "link_config \<Rightarrow> (string \<Rightarrow> string \<Rightarrow> APIPort \<Rightarrow> action) \<Rightarrow> string \<Rightarrow> string \<Rightarrow>
    APIPort list \<Rightarrow> link \<Rightarrow> link_error list option \<times> link" where
  "invokeFunc cfg fn vs rs [] st = (Some [], st)"
| "invokeFunc cfg fn vs rs (b # bs) st =
     (if ap_PrivatePort b = 0 \<or> ap_PublicPort b = 0 then invokeFunc cfg fn vs rs bs st
      else if ap_IP b = ''0.0.0.0'' \<and> lc_hostIPs cfg = [] then (None, st)
      else
        let b' = (if ap_IP b = ''0.0.0.0'' then b\<lparr>ap_IP := ip_String (hd (lc_hostIPs cfg))\<rparr> else b) in
        (case fn (vs_name vs b') (rs_name rs b') b' st of
           (Crash, st1) \<Rightarrow> (None, st1)
         | (Done, st1) \<Rightarrow> invokeFunc cfg fn vs rs bs st1
         | (Failed e, st1) \<Rightarrow> (case invokeFunc cfg fn vs rs bs st1 of
               (None, st2) \<Rightarrow> (None, st2) | (Some es, st2) \<Rightarrow> (Some (e # es), st2))))"

section \<open>The program\<close>

record container =
  ct_Image :: string
  ct_Names :: "string list"
  ct_Ports :: "APIPort list"

record inspected =
  in_Image :: string
  in_Name :: string
  in_Ports :: "APIPort list"

record docker_event =
  ev_Status :: string
  ev_ID :: string

definition link_actions :: "env \<Rightarrow> link_config \<Rightarrow> string \<Rightarrow> (string \<Rightarrow> string \<Rightarrow> APIPort \<Rightarrow> action) option" where
  "link_actions E cfg status = (if status = ''start'' then Some (link_createBackend E cfg)
     else if status = ''kill'' then Some (link_removeBackend E cfg) else None)"

text \<open>The two loops; \<open>False\<close> is a panic.\<close>

fun link_bootstrap :: "env \<Rightarrow> link_config \<Rightarrow> container list \<Rightarrow> link \<Rightarrow> bool \<times> link" where
  "link_bootstrap E cfg [] st = (True, st)"
| "link_bootstrap E cfg (k # ks) st = (case ct_Names k of [] \<Rightarrow> (False, st)
     | name # _ \<Rightarrow> (case invokeFunc cfg (link_createBackend E cfg) (ct_Image k) name (ct_Ports k) st of
         (None, st') \<Rightarrow> (False, st') | (Some es, st') \<Rightarrow> link_bootstrap E cfg ks st'))"

fun link_events :: "env \<Rightarrow> link_config \<Rightarrow> (log \<Rightarrow> string \<Rightarrow> string + inspected) \<Rightarrow> docker_event list \<Rightarrow> link \<Rightarrow> bool \<times> link" where
  "link_events E cfg inspect [] st = (True, st)"
| "link_events E cfg inspect (ev # evs) st = (case link_actions E cfg (ev_Status ev) of
       None \<Rightarrow> link_events E cfg inspect evs st
     | Some fn \<Rightarrow> (case inspect (li_log st) (ev_ID ev) of
         Inl e \<Rightarrow> link_events E cfg inspect evs st
       | Inr i \<Rightarrow> if in_Ports i = [] then link_events E cfg inspect evs st
           else (case invokeFunc cfg fn (in_Image i) (in_Name i) (in_Ports i) st of
               (None, st') \<Rightarrow> (False, st') | (Some es, st') \<Rightarrow> link_events E cfg inspect evs st')))"

text \<open>
  The program ends when the event feed does; \<open>log.Fatalf\<close> ends it before (\<open>None\<close>).
\<close>

definition link_main ::
  "env \<Rightarrow> (string \<Rightarrow> string + 'i) \<Rightarrow> ('i \<Rightarrow> string + net_addr list) \<Rightarrow> string \<Rightarrow> string \<Rightarrow> string option \<Rightarrow>
     string + container list \<Rightarrow> (log \<Rightarrow> string \<Rightarrow> string + inspected) \<Rightarrow> docker_event list \<Rightarrow> log \<Rightarrow> (bool \<times> link) option" where
  "link_main E byName addrs device remote client listing inspect evs l =
     (case InterfaceIPs byName addrs device of Inl e \<Rightarrow> None
      | Inr ips \<Rightarrow> (case client of Some e \<Rightarrow> None
        | None \<Rightarrow> (case listing of Inl e \<Rightarrow> None
          | Inr ks \<Rightarrow>
              let cfg = \<lparr>lc_hostIPs = ips, lc_remote = remote\<rparr> in
              (case link_bootstrap E cfg ks \<lparr>li_exposed = {}, li_log = l\<rparr> of
                 (False, st) \<Rightarrow> Some (False, st)
               | (True, st) \<Rightarrow> Some (link_events E cfg inspect evs st)))))"

section \<open>Names\<close>

lemma show_nat_chars: "c \<in> set (show_nat n) \<Longrightarrow> is_digit c"
  using show_nat_digits [of n] by (simp add: list_all_iff)

lemma show_int_form:
  obtains pre d ds where "show_int n = pre @ d # ds" "d \<noteq> CHR ''-''" "CHR ''/'' \<notin> set (show_int n)"
proof -
  define m where "m = (if n < 0 then nat (- n) else nat n)"
  define pre where "pre = (if n < 0 then ''-'' else [])"
  obtain d ds where d: "show_nat m = d # ds" using show_nat_digits [of m] by (cases "show_nat m") auto
  have "is_digit d" using show_nat_chars [of d m] d by simp
  then have "d \<noteq> CHR ''-''" by (auto simp: is_digit_def)
  moreover have "CHR ''/'' \<notin> set (show_nat m)" using show_nat_chars [of "CHR ''/''" m] by (auto simp: is_digit_def)
  moreover have "show_int n = pre @ show_nat m" by (simp add: show_int_def m_def pre_def)
  ultimately show thesis using that [of pre d ds] d by (auto simp: pre_def)
qed

lemma show_int_no_slash: "CHR ''/'' \<notin> set (show_int n)"
  by (rule show_int_form [of n])

lemma mangle_no_slash: "CHR ''/'' \<notin> set (mangle s)"
  by (auto simp: mangle_def)

lemma plain_with_dash: "CHR ''-'' \<in> set w \<Longrightarrow> CHR ''/'' \<notin> set w \<Longrightarrow> plain_seg w"
  by (auto simp: plain_seg_def)

lemma mangled_id_no_slash: "CHR ''/'' \<notin> set ty \<Longrightarrow> CHR ''/'' \<notin> set (mangled_id s n ty)"
  using mangle_no_slash by (auto simp: mangled_id_def show_int_no_slash)

lemma vs_name_plain: "CHR ''/'' \<notin> set (ap_Type b) \<Longrightarrow> plain_seg (vs_name vs b)"
  using mangled_id_no_slash by (intro plain_with_dash) (auto simp: vs_name_def mangled_id_def)

lemma dropWhile_stop: "\<not> P y \<Longrightarrow> dropWhile P (xs @ y # ys) = dropWhile P xs @ y # ys"
  by (induction xs) auto

lemma rs_name_plain:
  assumes "CHR ''/'' \<notin> set (ap_Type b)" "ap_Type b \<noteq> []" "last (ap_Type b) \<noteq> CHR ''-''"
  shows "plain_seg (rs_name rs b)"
proof -
  let ?P = "\<lambda>r. r = CHR ''-''" and ?ty = "ap_Type b"
  obtain pre d ds where n: "show_int (sint (ap_PublicPort b)) = pre @ d # ds" "d \<noteq> CHR ''-''"
    by (rule show_int_form)
  obtain tb tl where ty: "?ty = tb @ [tl]" "tl \<noteq> CHR ''-''" using assms(2,3) by (cases ?ty rule: rev_cases) auto
  let ?id = "mangled_id rs (ap_PublicPort b) ?ty"
  have "dropWhile ?P ?id = dropWhile ?P (mangle rs @ ''-'' @ pre) @ d # ds @ ''-'' @ tb @ [tl]"
    using dropWhile_stop [of ?P d "mangle rs @ ''-'' @ pre" "ds @ ''-'' @ ?ty"] n by (simp add: mangled_id_def ty(1))
  then have "rs_name rs b = dropWhile ?P (mangle rs @ ''-'' @ pre) @ d # ds @ ''-'' @ tb @ [tl]"
    using ty(2) by (simp add: rs_name_def trim_dash_def)
  then have "CHR ''-'' \<in> set (rs_name rs b)" by simp
  moreover have "set (rs_name rs b) \<subseteq> set ?id"
    unfolding rs_name_def trim_dash_def by (auto dest!: set_dropWhileD)
  ultimately show ?thesis using mangled_id_no_slash [OF assms(1)] by (intro plain_with_dash) auto
qed

lemma link_url_plain:
  assumes "list_all plain_seg (lc_remote cfg # ws)"
  shows "link_url cfg ws = ''http://'' @ lc_remote cfg @ ''/'' @ join_with ''/'' (''service'' # ws)"
proof -
  have "list_all plain_seg (lc_remote cfg # ''service'' # ws)" using assms by (simp add: plain_seg_def)
  moreover from this have "lc_remote cfg \<noteq> []" by (auto simp: plain_seg_def)
  ultimately show ?thesis
    using path_Clean_plain [of "lc_remote cfg # ''service'' # ws"] by (simp add: link_url_def path_Join_def)
qed

section \<open>Requests of one action\<close>

lemma service_not_backend [simp]: "service_json s \<noteq> backend_json b" "backend_json b \<noteq> service_json s"
  by (simp_all add: service_json_def backend_json_def)

definition get_rq :: "url \<Rightarrow> http_request" where
  "get_rq u = \<lparr>rq_method = ''GET'', rq_url = u, rq_body = JNull\<rparr>"

definition service_rq :: "url \<Rightarrow> APIPort \<Rightarrow> http_request" where
  "service_rq u b = \<lparr>rq_method = ''PUT'', rq_url = u,
     rq_body = service_json (zero_ServiceOptions\<lparr>so_Port := ucast (ap_PrivatePort b), so_Protocol := ap_Type b\<rparr>)\<rparr>"

definition backend_rq :: "url \<Rightarrow> APIPort \<Rightarrow> http_request" where
  "backend_rq u b = \<lparr>rq_method = ''PUT'', rq_url = u, rq_body = backend_json (link_backend b)\<rparr>"

lemma rq_distinct [simp]:
  "get_rq u \<noteq> service_rq v b" "get_rq u \<noteq> backend_rq v b" "service_rq u b \<noteq> backend_rq v b"
  "service_rq u b \<noteq> get_rq v" "backend_rq u b \<noteq> get_rq v" "backend_rq u b \<noteq> service_rq v b"
  by (simp_all add: get_rq_def service_rq_def backend_rq_def)

lemma ensure_cases:
  assumes "ensure_service E cfg vs b st = (r, st')" "parseURL E (link_url cfg [vs]) = Inr us"
  obtains (cached) "vs \<in> li_exposed st" "r = Done" "st' = st"
  | (found) "vs \<notin> li_exposed st" "r = Done" "li_log st' = [EvHttp (get_rq us) (Inr 200)] @ li_log st"
      "li_exposed st' = insert vs (li_exposed st)"
  | (created) a0 where "vs \<notin> li_exposed st" "r = Done" "a0 \<noteq> Inr 200"
      "li_log st' = [EvHttp (service_rq us b) (Inr 200), EvHttp (get_rq us) a0] @ li_log st" "li_exposed st' = li_exposed st"
  | (existed) a0 where "vs \<notin> li_exposed st" "r = Done"
      "li_log st' = [EvHttp (service_rq us b) (Inr 409), EvHttp (get_rq us) a0] @ li_log st"
      "li_exposed st' = insert vs (li_exposed st)"
  | (failed) es where "vs \<notin> li_exposed st" "r \<noteq> Done" "li_log st' = es @ li_log st" "li_exposed st' = li_exposed st"
      "\<forall>x \<in> set es. \<exists>a. x = EvHttp (get_rq us) a \<and> a \<noteq> Inr 200 \<or> x = EvHttp (service_rq us b) a \<and> a \<notin> {Inr 200, Inr 409}"
proof (cases "vs \<in> li_exposed st")
  case True
  then show thesis using cached assms(1) by (simp add: ensure_service_def)
next
  case False
  let ?a0 = "httpDo E (li_log st) (get_rq us)"
  let ?l1 = "EvHttp (get_rq us) ?a0 # li_log st"
  let ?a1 = "httpDo E ?l1 (service_rq us b)"
  note e = assms(1) [symmetric, unfolded ensure_service_def http_call_def Let_def, folded get_rq_def]
  show thesis
  proof (cases ?a0)
    case (Inl m)
    with e False assms(2) show thesis by (intro failed [of "[EvHttp (get_rq us) ?a0]"]) auto
  next
    case (Inr code)
    show thesis
    proof (cases "code = 200")
      case True
      with e False assms(2) Inr show thesis by (intro found) (auto simp: mark_exposed_def)
    next
      case c: False
      from e False assms(2) Inr c have s: "(r, st') = link_createService E cfg vs (ap_PrivatePort b) (ap_Type b) (st\<lparr>li_log := ?l1\<rparr>)"
        by simp
      note s' = s [unfolded link_createService_def link_request_def assms(2) sum.case roundtrip_def option.case
          http_call_def Let_def, folded service_rq_def, simplified]
      show thesis
      proof (cases ?a1)
        case (Inl m)
        with s' False Inr c show thesis
          by (intro failed [of "[EvHttp (service_rq us b) ?a1, EvHttp (get_rq us) ?a0]"]) auto
      next
        case i: (Inr k)
        consider "k = 200" | "k = 409" | "k \<noteq> 200" "k \<noteq> 409" by blast
        then show thesis
        proof cases
          case 1
          with s' False i Inr c show thesis by (intro created [of ?a0]) auto
        next
          case 2
          with s' False i Inr c show thesis by (intro existed [of ?a0]) (auto simp: mark_exposed_def)
        next
          case 3
          with s' False i Inr c show thesis
            by (intro failed [of "[EvHttp (service_rq us b) ?a1, EvHttp (get_rq us) ?a0]"]) auto
        qed
      qed
    qed
  qed
qed

text \<open>A daemon under the name \<open>gorb\<close> that answers every request with 200, for the witnesses.\<close>

definition link_env :: env where
  "link_env = ok_env\<lparr>parseURL := \<lambda>u. Inr \<lparr>u_scheme = ''http'', u_host = ''gorb'', u_path = drop 11 u, u_query = []\<rparr>\<rparr>"

definition link_cfg :: link_config where
  "link_cfg = \<lparr>lc_hostIPs = [], lc_remote = ''gorb''\<rparr>"

definition web_port :: APIPort where
  "web_port = \<lparr>ap_PrivatePort = 80, ap_PublicPort = 81, ap_Type = ''tcp'', ap_IP = ''10.0.0.1''\<rparr>"

section \<open>Properties\<close>

text \<open>
  Claim C25. A backend is asked for only after its service: the daemon is sent the \<open>PUT\<close> of a backend when the
  service is in the cache, or was found by a \<open>GET\<close>, or was created, or existed, in this very action; the action
  reports success exactly if that \<open>PUT\<close> was answered with 200.  The cache gains a service only from a \<open>GET\<close>
  answered with 200 or a \<open>PUT\<close> answered with 409, and never loses one; for a cached service nothing but the
  \<open>PUT\<close> of the backend is sent, so once the daemon has lost the service the action can only fail.
\<close>

theorem backend_after_service:
  assumes "link_createBackend E cfg vs rs b st = (r, st')"
    and "parseURL E (link_url cfg [vs]) = Inr us" and "parseURL E (link_url cfg [vs, rs]) = Inr ub"
  shows "\<exists>es. li_log st' = es @ li_log st \<and>
    ((\<exists>a. EvHttp (backend_rq ub b) a \<in> set es) \<longrightarrow> vs \<in> li_exposed st \<or> EvHttp (get_rq us) (Inr 200) \<in> set es \<or>
       EvHttp (service_rq us b) (Inr 200) \<in> set es \<or> EvHttp (service_rq us b) (Inr 409) \<in> set es) \<and>
    (r = Done \<longleftrightarrow> EvHttp (backend_rq ub b) (Inr 200) \<in> set es) \<and>
    li_exposed st' = li_exposed st \<union> (if EvHttp (get_rq us) (Inr 200) \<in> set es \<or>
       EvHttp (service_rq us b) (Inr 409) \<in> set es then {vs} else {}) \<and>
    (vs \<in> li_exposed st \<longrightarrow> (\<exists>a. es = [EvHttp (backend_rq ub b) a] \<and> (a = Inr 404 \<longrightarrow> r = Failed (ParentNotFound vs))))"
proof -
  obtain r1 st1 where e: "ensure_service E cfg vs b st = (r1, st1)" by force
  let ?a = "httpDo E (li_log st1) (backend_rq ub b)"
  have put: "li_log st' = EvHttp (backend_rq ub b) ?a # li_log st1 \<and> li_exposed st' = li_exposed st1 \<and>
      (r = Done \<longleftrightarrow> ?a = Inr 200) \<and> (?a = Inr 404 \<longrightarrow> r = Failed (ParentNotFound vs))" if "r1 = Done"
    using assms(1) [unfolded link_createBackend_def e that prod.case link_result.case link_request_def assms(3) sum.case
        roundtrip_def option.case http_call_def Let_def, folded backend_rq_def]
    by (cases ?a) (auto split: if_splits)
  have no_put: "r = r1 \<and> st' = st1" if "r1 \<noteq> Done"
    using assms(1) that by (cases r1) (simp_all add: link_createBackend_def e)
  from e assms(2) show ?thesis
  proof (cases rule: ensure_cases)
    case cached
    with put show ?thesis by (intro exI [of _ "[EvHttp (backend_rq ub b) ?a]"]) auto
  next
    case found
    with put show ?thesis
      by (intro exI [of _ "[EvHttp (backend_rq ub b) ?a, EvHttp (get_rq us) (Inr 200)]"]) auto
  next
    case (created a0)
    with put show ?thesis
      by (intro exI [of _ "[EvHttp (backend_rq ub b) ?a, EvHttp (service_rq us b) (Inr 200), EvHttp (get_rq us) a0]"]) auto
  next
    case (existed a0)
    with put show ?thesis
      by (intro exI [of _ "[EvHttp (backend_rq ub b) ?a, EvHttp (service_rq us b) (Inr 409), EvHttp (get_rq us) a0]"]) auto
  next
    case (failed es)
    with no_put show ?thesis by (intro exI [of _ es]) auto
  qed
qed

theorem backend_after_service_witness:
  "let run = link_createBackend link_env link_cfg ''web'' ''n'' web_port \<lparr>li_exposed = {}, li_log = []\<rparr>;
       url = \<lambda>p. \<lparr>u_scheme = ''http'', u_host = ''gorb'', u_path = p, u_query = []\<rparr>
   in fst run = Done \<and> (\<exists>es. li_log (snd run) = es @ [] \<and>
     EvHttp (backend_rq (url ''/service/web/n'') web_port) (Inr 200) \<in> set es) \<and> ''web'' \<in> li_exposed (snd run)"
proof -
  let ?run = "link_createBackend link_env link_cfg ''web'' ''n'' web_port \<lparr>li_exposed = {}, li_log = []\<rparr>"
  let ?us = "\<lparr>u_scheme = ''http'', u_host = ''gorb'', u_path = ''/service/web'', u_query = []\<rparr>"
  let ?ub = "\<lparr>u_scheme = ''http'', u_host = ''gorb'', u_path = ''/service/web/n'', u_query = []\<rparr>"
  have d: "fst ?run = Done" "''web'' \<in> li_exposed (snd ?run)" by code_simp+
  have u: "parseURL link_env (link_url link_cfg [''web'']) = Inr ?us"
    "parseURL link_env (link_url link_cfg [''web'', ''n'']) = Inr ?ub" by code_simp+
  have r: "?run = (Done, snd ?run)" using d(1) by (metis prod.collapse)
  from backend_after_service [OF r u] d show ?thesis by (auto simp: Let_def)
qed

definition link_service :: "APIPort \<Rightarrow> ServiceOptions" where
  "link_service b = zero_ServiceOptions\<lparr>so_Port := ucast (ap_PrivatePort b), so_Protocol := ap_Type b\<rparr>"

definition url_parsed :: "env \<Rightarrow> string \<Rightarrow> string \<Rightarrow> bool" where
  "url_parsed E h p \<longleftrightarrow> parseURL E (''http://'' @ h @ p) = Inr \<lparr>u_scheme = ''http'', u_host = h, u_path = p, u_query = []\<rparr>"

text \<open>
  What the link sends for a binding of a TCP or UDP port is what the daemon does: whatever the names of
  image and container, the mangled names are single path segments, the router of the daemon takes the two \<open>PUT\<close>
  requests to the handlers that create the service and the backend, under exactly these names, and the bodies
  decode to the options the link meant.  (The URL parser and the router do what their documentation says.)
\<close>

lemma link_reaches_daemon:
  assumes "mux_documented mux" and "plain_seg (lc_remote cfg)" and "ap_Type b \<in> {''tcp'', ''udp''}"
    and "url_parsed E (lc_remote cfg) (''/service/'' @ vs_name vs b)"
    and "url_parsed E (lc_remote cfg) (''/service/'' @ vs_name vs b @ ''/'' @ rs_name rs b)"
  shows "\<exists>rq rq'. link_request E ''PUT'' (link_url cfg [vs_name vs b]) (service_json (link_service b)) = Some rq \<and>
    serve mux D mt (rq_method rq) (u_path (rq_url rq)) (Some (rq_body rq)) c =
      Some (reply (\<lambda>_. Ok no_content) (createService D (vs_name vs b) (link_service b) c)) \<and>
    link_request E ''PUT'' (link_url cfg [vs_name vs b, rs_name rs b]) (backend_json (link_backend b)) = Some rq' \<and>
    serve mux D mt (rq_method rq') (u_path (rq_url rq')) (Some (rq_body rq')) c =
      Some (reply (\<lambda>_. Ok no_content) (createBackend D (vs_name vs b) (rs_name rs b) (link_backend b) c))"
proof -
  let ?v = "vs_name vs b" and ?k = "rs_name rs b"
  have v: "plain_seg ?v" and k: "plain_seg ?k"
    using assms(3) by (auto intro!: vs_name_plain rs_name_plain)
  have u: "link_url cfg [?v] = ''http://'' @ lc_remote cfg @ ''/service/'' @ ?v"
    "link_url cfg [?v, ?k] = ''http://'' @ lc_remote cfg @ ''/service/'' @ ?v @ ''/'' @ ?k"
    using assms(2) v k by (simp_all add: link_url_plain)
  have s: "service_unmarshal (Some (service_json (link_service b))) = Inr (link_service b)"
    by (simp add: service_document) (simp add: link_service_def zero_ServiceOptions_def)
  have d: "backend_unmarshal (Some (backend_json (link_backend b))) = Inr (link_backend b)"
    by (subst backend_document) (auto simp: link_backend_def zero_BackendOptions_def zero_PulseOptions_def)
  note serves = dispatch [OF assms(1) v k, of D mt _ _ c, unfolded Let_def append_assoc]
  show ?thesis
    using assms(4,5) serves
    by (auto simp: url_parsed_def link_request_def u s d serviceCreateHandler_def backendCreateHandler_def critical_defs var_def)
qed

lemma link_reaches_daemon_witness:
  "\<exists>rq. link_request link_env ''PUT'' (link_url link_cfg [vs_name ''a/web:1'' web_port]) (service_json (link_service web_port)) = Some rq \<and>
     serve (first_match 0) ok_env (serviceListHandler ok_env) (rq_method rq) (u_path (rq_url rq)) (Some (rq_body rq)) web_ctx =
       Some (reply (\<lambda>_. Ok no_content) (createService ok_env ''a-web-1-80-tcp'' (link_service web_port) web_ctx))"
proof -
  have m: "mux_documented (first_match 0)" by (simp add: mux_documented_def)
  have p: "plain_seg (lc_remote link_cfg)" "ap_Type web_port \<in> {''tcp'', ''udp''}"
    by (simp_all add: link_cfg_def plain_seg_def web_port_def)
  have u: "url_parsed link_env (lc_remote link_cfg) q" for q
    by (simp add: url_parsed_def link_env_def link_cfg_def)
  have n: "vs_name ''a/web:1'' web_port = ''a-web-1-80-tcp''" by code_simp
  from link_reaches_daemon [where vs = "''a/web:1''" and D = ok_env and mt = "serviceListHandler ok_env" and c = web_ctx, OF m p u u] show ?thesis
    unfolding n by blast
qed

end
