(* ===== verification/Gorb_Pair.thy ===== *)
theory Gorb_Pair
  imports Gorb_DockerLink
begin

text \<open>
  The two programs of the repository together: gorb-docker-link with a daemon behind its HTTP client.  The state
  of the daemon is what the requests in the link's log have made of the context it started with, and its answer
  to the next request is what the handlers of \<open>src/http.go\<close> write.
\<close>

section \<open>The daemon behind the link\<close>

text \<open>A path without a route is not found; a handler that panics closes the connection.\<close>

definition answer :: "(response outcome \<times> ctx) option \<Rightarrow> string + nat" where
  "answer r = (case r of None \<Rightarrow> Inr 404 | Some (Ok res, c) \<Rightarrow> Inr (rs_code res) | Some (_, c) \<Rightarrow> Inl ''EOF'')"

definition serve_rq :: "router \<Rightarrow> env \<Rightarrow> handler \<Rightarrow> http_request \<Rightarrow> ctx \<Rightarrow> (response outcome \<times> ctx) option" where
  "serve_rq mux D mt rq c = serve mux D mt (rq_method rq) (u_path (rq_url rq)) (Some (rq_body rq)) c"

fun daemon_after :: "router \<Rightarrow> env \<Rightarrow> handler \<Rightarrow> ctx \<Rightarrow> log \<Rightarrow> ctx" where
  "daemon_after mux D mt c [] = c"
| "daemon_after mux D mt c (EvHttp rq a # l) =
     (case serve_rq mux D mt rq (daemon_after mux D mt c l) of None \<Rightarrow> daemon_after mux D mt c l | Some (r, c') \<Rightarrow> c')"
| "daemon_after mux D mt c (ev # l) = daemon_after mux D mt c l"

definition paired :: "router \<Rightarrow> env \<Rightarrow> handler \<Rightarrow> ctx \<Rightarrow> env \<Rightarrow> bool" where
  "paired mux D mt c L \<longleftrightarrow> (\<forall>l rq. httpDo L l rq = answer (serve_rq mux D mt rq (daemon_after mux D mt c l)))"

text \<open>A binding whose addresses at the daemon the URL parser takes apart as documented.\<close>

definition addressable :: "env \<Rightarrow> link_config \<Rightarrow> string \<Rightarrow> string \<Rightarrow> APIPort \<Rightarrow> bool" where
  "addressable L cfg vs rs b \<longleftrightarrow> ap_Type b \<in> {''tcp'', ''udp''} \<and>
     url_parsed L (lc_remote cfg) (''/service/'' @ vs_name vs b) \<and>
     url_parsed L (lc_remote cfg) (''/service/'' @ vs_name vs b @ ''/'' @ rs_name rs b)"

definition service_url :: "link_config \<Rightarrow> string \<Rightarrow> url" where
  "service_url cfg v = \<lparr>u_scheme = ''http'', u_host = lc_remote cfg, u_path = ''/service/'' @ v, u_query = []\<rparr>"

definition backend_url :: "link_config \<Rightarrow> string \<Rightarrow> string \<Rightarrow> url" where
  "backend_url cfg v k = \<lparr>u_scheme = ''http'', u_host = lc_remote cfg, u_path = ''/service/'' @ v @ ''/'' @ k, u_query = []\<rparr>"

definition delete_rq :: "url \<Rightarrow> http_request" where
  "delete_rq u = \<lparr>rq_method = ''DELETE'', rq_url = u, rq_body = JNull\<rparr>"

lemma addressable_names:
  assumes "addressable L cfg vs rs b"
  shows "plain_seg (vs_name vs b)" "plain_seg (rs_name rs b)"
  using assms by (auto simp: addressable_def intro!: vs_name_plain rs_name_plain)

lemma addressable_urls:
  assumes "addressable L cfg vs rs b" "plain_seg (lc_remote cfg)"
  shows "parseURL L (link_url cfg [vs_name vs b]) = Inr (service_url cfg (vs_name vs b))"
    and "parseURL L (link_url cfg [vs_name vs b, rs_name rs b]) = Inr (backend_url cfg (vs_name vs b) (rs_name rs b))"
  using assms addressable_names [OF assms(1)]
  by (simp_all add: addressable_def url_parsed_def link_url_plain service_url_def backend_url_def)

lemma status_query_ctx [simp]: "snd (serviceStatusHandler D vars body c) = c"
  by (auto simp: serviceStatusHandler_def reply_def critical_defs split: outcome.splits)

text \<open>What the daemon does with the four requests of the link.\<close>

lemma serve_link:
  assumes "mux_documented mux" "plain_seg v" "plain_seg k"
  shows "serve_rq mux D mt (get_rq (service_url cfg v)) c =
      Some (serviceStatusHandler D (gput ''vsID'' v gempty) (Some JNull) c)"
    and "serve_rq mux D mt (service_rq (service_url cfg v) b) c =
      Some (reply (\<lambda>_. Ok no_content) (createService D v (link_service b) c))"
    and "serve_rq mux D mt (backend_rq (backend_url cfg v k) b) c =
      Some (reply (\<lambda>_. Ok no_content) (createBackend D v k (link_backend b) c))"
    and "serve_rq mux D mt (delete_rq (backend_url cfg v k)) c = Some (reply (\<lambda>_. Ok no_content) (removeBackend D v k c))"
proof -
  note serves = dispatch [OF assms, of D mt _ _ c, unfolded Let_def append_assoc]
  have s: "service_unmarshal (Some (service_json (link_service b))) = Inr (link_service b)"
    by (simp add: service_document) (simp add: link_service_def zero_ServiceOptions_def)
  have d: "backend_unmarshal (Some (backend_json (link_backend b))) = Inr (link_backend b)"
    by (subst backend_document) (auto simp: link_backend_def zero_BackendOptions_def zero_PulseOptions_def)
  show "serve_rq mux D mt (get_rq (service_url cfg v)) c =
      Some (serviceStatusHandler D (gput ''vsID'' v gempty) (Some JNull) c)"
    using serves by (simp add: serve_rq_def get_rq_def service_url_def)
  show "serve_rq mux D mt (service_rq (service_url cfg v) b) c =
      Some (reply (\<lambda>_. Ok no_content) (createService D v (link_service b) c))"
    using serves s by (simp add: serve_rq_def service_rq_def service_url_def serviceCreateHandler_def critical_defs var_def
        flip: link_service_def)
  show "serve_rq mux D mt (backend_rq (backend_url cfg v k) b) c =
      Some (reply (\<lambda>_. Ok no_content) (createBackend D v k (link_backend b) c))"
    using serves d by (simp add: serve_rq_def backend_rq_def backend_url_def backendCreateHandler_def critical_defs var_def)
  show "serve_rq mux D mt (delete_rq (backend_url cfg v k)) c = Some (reply (\<lambda>_. Ok no_content) (removeBackend D v k c))"
    using serves by (simp add: serve_rq_def delete_rq_def backend_url_def backendRemoveHandler_def critical_defs var_def)
qed

lemma answer_ok:
  assumes "answer (Some (reply (\<lambda>_. Ok no_content) r)) = Inr 200"
  obtains x c' where "r = (Ok x, c')"
  using assms
  by (cases r; cases "fst r") (auto simp: answer_def reply_def writeError_def)

lemma snd_reply [simp]: "snd (reply f r) = snd r"
  by (auto simp: reply_def split: prod.splits outcome.splits)

section \<open>What the requests of the link keep\<close>

definition keeps :: "ctx \<Rightarrow> ctx \<Rightarrow> bool" where
  "keeps c c' \<longleftrightarrow> (\<forall>i s. gget (cx_services c) i = Some s \<longrightarrow> gget (cx_services c') i = Some s) \<and>
     (\<forall>k b. gget (cx_backends c) k = Some b \<longrightarrow> gget (cx_backends c') k = Some b)"

lemma keeps_refl [simp]: "keeps c c"
  by (simp add: keeps_def)

lemma keeps_trans: "keeps c d \<Longrightarrow> keeps d e \<Longrightarrow> keeps c e"
  by (simp add: keeps_def)

lemma keeps_createService:
  assumes "createService E i so c = (r, c')"
  shows "keeps c c'"
  using assms by (cases rule: createService_cases) (auto simp: keeps_def quiet_sel logged_to_sel)

lemma keeps_createBackend:
  assumes "createBackend E v k bo c = (r, c')"
  shows "keeps c c'"
  using createBackend_kept [OF assms] createBackend_at [OF assms] unfolding keeps_def by (metis (no_types))

text \<open>The backend of a binding, as the daemon has it.\<close>

definition exposes :: "ctx \<Rightarrow> string \<Rightarrow> string \<Rightarrow> APIPort \<Rightarrow> bool" where
  "exposes c v k b \<longleftrightarrow> (\<exists>x. gget (cx_backends c) k = Some x \<and> gget (cx_services c) v = Some (b_service x) \<and>
     bo_Host (b_options x) = ap_IP b \<and> bo_Port (b_options x) = ucast (ap_PublicPort b))"

lemma exposes_keeps: "exposes c v k b \<Longrightarrow> keeps c c' \<Longrightarrow> exposes c' v k b"
  unfolding exposes_def keeps_def by blast

lemma createBackend_exposes:
  assumes "createBackend D v k (link_backend b) c = (Ok x, c')"
  shows "exposes c' v k b"
  using assms
proof (cases rule: createBackend_cases)
  case (ok vs o1 p c1 c2)
  obtain l o2 po where f: "backend_Fill D (link_backend b) (cx_log c) = (Inr o2, l)"
    and o: "o1 = o2\<lparr>bo_Pulse := Some po\<rparr> \<or> (\<exists>w. o1 = o2\<lparr>bo_Pulse := Some po, bo_VsID := w\<rparr>)"
    using ok(4) unfolding new_backend_def by blast
  from backend_Fill_Inr [OF f] o have "bo_Host o1 = ap_IP b" "bo_Port o1 = ucast (ap_PublicPort b)"
    by (auto simp: link_backend_def)
  then show ?thesis
    using ok(3) by (simp add: exposes_def ok(8) logged_to_sel [OF ok(7)] quiet_sel [OF ok(5)])
qed simp_all

lemma daemon_after_http:
  "serve_rq mux D mt rq (daemon_after mux D mt c l) = Some (r, c') \<Longrightarrow> daemon_after mux D mt c (EvHttp rq a # l) = c'"
  by simp

text \<open>The requests of one action to expose a binding.\<close>

definition start_event :: "link_config \<Rightarrow> string \<Rightarrow> string \<Rightarrow> APIPort \<Rightarrow> event \<Rightarrow> bool" where
  "start_event cfg v k b ev \<longleftrightarrow> (\<exists>a. ev = EvHttp (get_rq (service_url cfg v)) a \<or>
     ev = EvHttp (service_rq (service_url cfg v) b) a \<or> ev = EvHttp (backend_rq (backend_url cfg v k) b) a)"

lemma keeps_start_events:
  assumes m: "mux_documented mux" "plain_seg v" "plain_seg k" and es: "list_all (start_event cfg v k b) es"
  shows "keeps (daemon_after mux D mt c l) (daemon_after mux D mt c (es @ l))"
  using es
proof (induction es)
  case (Cons ev es)
  let ?c = "daemon_after mux D mt c (es @ l)"
  have "keeps ?c (daemon_after mux D mt c (ev # es @ l))"
  proof -
    consider a where "ev = EvHttp (get_rq (service_url cfg v)) a" | a where "ev = EvHttp (service_rq (service_url cfg v) b) a"
      | a where "ev = EvHttp (backend_rq (backend_url cfg v k) b) a"
      using Cons.prems by (auto simp: start_event_def)
    then show ?thesis
    proof cases
      case 1
      then show ?thesis
        by (simp add: serve_link(1) [OF m] split: prod.split) (metis keeps_refl snd_conv status_query_ctx)
    next
      case 2
      obtain r c' where r: "createService D v (link_service b) ?c = (r, c')" by force
      with 2 keeps_createService [OF r] show ?thesis
        by (simp add: serve_link(2) [OF m] split: prod.split) (metis snd_conv snd_reply)
    next
      case 3
      obtain r c' where r: "createBackend D v k (link_backend b) ?c = (r, c')" by force
      with 3 keeps_createBackend [OF r] show ?thesis
        by (simp add: serve_link(3) [OF m] split: prod.split) (metis snd_conv snd_reply)
    qed
  qed
  with Cons show ?case using keeps_trans by simp
qed simp

lemma action_log:
  assumes "link_createBackend L cfg v k b st = (r, st')"
    and u: "parseURL L (link_url cfg [v]) = Inr (service_url cfg v)" "parseURL L (link_url cfg [v, k]) = Inr (backend_url cfg v k)"
  obtains es where "li_log st' = es @ li_log st" "list_all (start_event cfg v k b) es" "r \<noteq> Done"
  | es where "li_log st' = EvHttp (backend_rq (backend_url cfg v k) b) (Inr 200) # es @ li_log st"
      "list_all (start_event cfg v k b) es" "r = Done" "httpDo L (es @ li_log st) (backend_rq (backend_url cfg v k) b) = Inr 200"
proof -
  let ?us = "service_url cfg v" and ?ub = "backend_url cfg v k"
  obtain r1 st1 where e: "ensure_service L cfg v b st = (r1, st1)" by force
  have ev: "\<exists>es. li_log st1 = es @ li_log st \<and> list_all (start_event cfg v k b) es"
    using e u(1)
  proof (cases rule: ensure_cases)
    case cached
    then show ?thesis by simp
  next
    case found
    then show ?thesis by (intro exI [of _ "[EvHttp (get_rq ?us) (Inr 200)]"]) (simp add: start_event_def)
  next
    case (created a0)
    then show ?thesis
      by (intro exI [of _ "[EvHttp (service_rq ?us b) (Inr 200), EvHttp (get_rq ?us) a0]"]) (simp add: start_event_def)
  next
    case (existed a0)
    then show ?thesis
      by (intro exI [of _ "[EvHttp (service_rq ?us b) (Inr 409), EvHttp (get_rq ?us) a0]"]) (simp add: start_event_def)
  next
    case (failed es)
    then show ?thesis by (intro exI [of _ es]) (auto simp: list_all_iff start_event_def)
  qed
  then obtain es where es: "li_log st1 = es @ li_log st" "list_all (start_event cfg v k b) es" by blast
  show thesis
  proof (cases "r1 = Done")
    case True
    let ?a = "httpDo L (li_log st1) (backend_rq ?ub b)"
    have put: "li_log st' = EvHttp (backend_rq ?ub b) ?a # li_log st1 \<and> (r = Done \<longleftrightarrow> ?a = Inr 200)"
      using assms(1) [unfolded link_createBackend_def e True prod.case link_result.case link_request_def u(2) sum.case
          roundtrip_def option.case http_call_def Let_def, folded backend_rq_def]
      by (cases ?a) (auto split: if_splits)
    show thesis
    proof (cases "?a = Inr 200")
      case True
      with put es show thesis by (intro that(2) [of es]) simp_all
    next
      case False
      with put es show thesis by (intro that(1) [of "EvHttp (backend_rq ?ub b) ?a # es"]) (simp_all add: start_event_def)
    qed
  next
    case False
    then have "r = r1 \<and> st' = st1" using assms(1) by (cases r1) (simp_all add: link_createBackend_def e)
    with False es show thesis by (intro that(1) [of es]) simp_all
  qed
qed

lemma start_action:
  assumes m: "mux_documented mux" and h: "plain_seg (lc_remote cfg)" and a: "addressable L cfg vs rs b"
    and p: "paired mux D mt c L" and run: "link_createBackend L cfg (vs_name vs b) (rs_name rs b) b st = (r, st')"
  shows "keeps (daemon_after mux D mt c (li_log st)) (daemon_after mux D mt c (li_log st'))"
    and "r = Done \<Longrightarrow> exposes (daemon_after mux D mt c (li_log st')) (vs_name vs b) (rs_name rs b) b"
proof -
  let ?v = "vs_name vs b" and ?k = "rs_name rs b" and ?d = "daemon_after mux D mt c"
  note mm = m addressable_names [OF a]
  have "keeps (?d (li_log st)) (?d (li_log st')) \<and> (r = Done \<longrightarrow> exposes (?d (li_log st')) ?v ?k b)"
    using run addressable_urls [OF a h]
  proof (cases rule: action_log)
    case (1 es)
    then show ?thesis using keeps_start_events [OF mm 1(2), of D mt c "li_log st"] by simp
  next
    case (2 es)
    let ?c = "?d (es @ li_log st)"
    have k: "keeps (?d (li_log st)) ?c" by (rule keeps_start_events [OF mm 2(2)])
    have "answer (Some (reply (\<lambda>_. Ok no_content) (createBackend D ?v ?k (link_backend b) ?c))) = Inr 200"
      using p [unfolded paired_def, rule_format, of "es @ li_log st" "backend_rq (backend_url cfg ?v ?k) b"] 2(4)
      by (simp add: serve_link(3) [OF mm])
    then obtain x c' where cb: "createBackend D ?v ?k (link_backend b) ?c = (Ok x, c')" by (rule answer_ok)
    have "?d (li_log st') = c'"
      unfolding 2(1) by (rule daemon_after_http) (simp add: serve_link(3) [OF mm] cb reply_def)
    with k keeps_createBackend [OF cb] keeps_trans createBackend_exposes [OF cb] show ?thesis by simp
  qed
  then show "keeps (?d (li_log st)) (?d (li_log st'))" "r = Done \<Longrightarrow> exposes (?d (li_log st')) ?v ?k b" by blast+
qed

section \<open>What the removals of the link do\<close>

lemma removeBackend_absent:
  assumes "removeBackend E v j c = (r, c')" "gget (cx_backends c) k = None"
  shows "gget (cx_backends c') k = None"
proof (cases "k = j")
  case True
  with assms show ?thesis by (simp add: removeBackend_def)
next
  case False
  with removeBackend_at(1) [OF assms(1)] assms(2) show ?thesis by simp
qed

lemma stop_action:
  assumes m: "mux_documented mux" and h: "plain_seg (lc_remote cfg)" and a: "addressable L cfg vs rs b"
    and p: "paired mux D mt c L" and run: "link_removeBackend L cfg (vs_name vs b) (rs_name rs b) b st = (r, st')"
  shows "gget (cx_backends (daemon_after mux D mt c (li_log st))) j = None \<Longrightarrow>
      gget (cx_backends (daemon_after mux D mt c (li_log st'))) j = None"
    and "r = Done \<Longrightarrow> gget (cx_backends (daemon_after mux D mt c (li_log st'))) (rs_name rs b) = None"
proof -
  let ?v = "vs_name vs b" and ?k = "rs_name rs b" and ?d = "daemon_after mux D mt c"
  let ?rq = "delete_rq (backend_url cfg ?v ?k)" and ?a = "httpDo L (li_log st) (delete_rq (backend_url cfg ?v ?k))"
  note mm = m addressable_names [OF a]
  have l: "li_log st' = EvHttp ?rq ?a # li_log st \<and> (r = Done \<longrightarrow> ?a = Inr 200)"
    using run [unfolded link_removeBackend_def link_request_def addressable_urls(2) [OF a h] sum.case
        roundtrip_def option.case http_call_def Let_def, folded delete_rq_def]
    by (cases ?a) (auto split: if_splits)
  obtain x d where d: "removeBackend D ?v ?k (?d (li_log st)) = (x, d)" by force
  have after: "?d (li_log st') = d"
    using l serve_link(4) [OF mm, of D mt cfg "?d (li_log st)"] d by (simp split: prod.split) (metis snd_conv snd_reply)
  show "gget (cx_backends (?d (li_log st))) j = None \<Longrightarrow> gget (cx_backends (?d (li_log st'))) j = None"
    using removeBackend_absent [OF d] after by simp
  show "gget (cx_backends (?d (li_log st'))) ?k = None" if "r = Done"
  proof -
    have "answer (Some (reply (\<lambda>_. Ok no_content) (removeBackend D ?v ?k (?d (li_log st))))) = Inr 200"
      using p [unfolded paired_def, rule_format, of "li_log st" ?rq] l that by (simp add: serve_link(4) [OF mm])
    then obtain y where y: "removeBackend D ?v ?k (?d (li_log st)) = (Ok y, d)" 
      by (rule answer_ok) (use d in simp)
    from y show ?thesis unfolding after by (cases rule: removeBackend_cases) simp_all
  qed
qed

section \<open>All ports of a container\<close>

definition public_port :: "APIPort \<Rightarrow> bool" where
  "public_port b \<longleftrightarrow> ap_PrivatePort b \<noteq> 0 \<and> ap_PublicPort b \<noteq> 0"

definition bound_port :: "link_config \<Rightarrow> APIPort \<Rightarrow> APIPort" where
  "bound_port cfg b = (if ap_IP b = ''0.0.0.0'' then b\<lparr>ap_IP := ip_String (hd (lc_hostIPs cfg))\<rparr> else b)"

lemma bound_port_names [simp]:
  "vs_name vs (bound_port cfg b) = vs_name vs b" "rs_name rs (bound_port cfg b) = rs_name rs b"
  "addressable L cfg vs rs (bound_port cfg b) = addressable L cfg vs rs b"
  by (simp_all add: bound_port_def vs_name_def rs_name_def addressable_def)

lemma invoke_public:
  assumes "public_port b" "ap_IP b = ''0.0.0.0'' \<longrightarrow> lc_hostIPs cfg \<noteq> []"
  shows "invokeFunc cfg fn vs rs (b # bs) st =
    (case fn (vs_name vs b) (rs_name rs b) (bound_port cfg b) st of
       (Crash, st1) \<Rightarrow> (None, st1)
     | (Done, st1) \<Rightarrow> invokeFunc cfg fn vs rs bs st1
     | (Failed e, st1) \<Rightarrow> (case invokeFunc cfg fn vs rs bs st1 of
           (None, st2) \<Rightarrow> (None, st2) | (Some es, st2) \<Rightarrow> (Some (e # es), st2)))"
  using assms by (auto simp: public_port_def Let_def bound_port_def vs_name_def rs_name_def)

lemma invoke_cases:
  assumes "invokeFunc cfg fn vs rs (b # bs) st = (Some es, st')"
  obtains (skipped) "\<not> public_port b" "invokeFunc cfg fn vs rs bs st = (Some es, st')"
  | (success) st1 where "public_port b" "fn (vs_name vs b) (rs_name rs b) (bound_port cfg b) st = (Done, st1)"
      "invokeFunc cfg fn vs rs bs st1 = (Some es, st')"
  | (failure) e st1 es' where "public_port b" "fn (vs_name vs b) (rs_name rs b) (bound_port cfg b) st = (Failed e, st1)"
      "invokeFunc cfg fn vs rs bs st1 = (Some es', st')" "es = e # es'"
proof (cases "public_port b")
  case False
  then show thesis using skipped assms by (auto simp: public_port_def)
next
  case True
  then have h: "ap_IP b = ''0.0.0.0'' \<longrightarrow> lc_hostIPs cfg \<noteq> []" using assms by (auto simp: public_port_def split: if_splits)
  obtain x st1 where r: "fn (vs_name vs b) (rs_name rs b) (bound_port cfg b) st = (x, st1)" by force
  obtain y st2 where y: "invokeFunc cfg fn vs rs bs st1 = (y, st2)" by force
  show thesis
    using assms [unfolded invoke_public [OF True h] r prod.case y] True r y success failure
    by (cases x; cases y) auto
qed

lemma invoke_start:
  assumes m: "mux_documented mux" and h: "plain_seg (lc_remote cfg)" and p: "paired mux D mt c L"
    and a: "\<forall>b \<in> set bs. addressable L cfg vs rs b"
    and run: "invokeFunc cfg (link_createBackend L cfg) vs rs bs st = (Some es, st')"
  shows "keeps (daemon_after mux D mt c (li_log st)) (daemon_after mux D mt c (li_log st')) \<and>
    (es = [] \<longrightarrow> (\<forall>b \<in> set bs. public_port b \<longrightarrow>
       exposes (daemon_after mux D mt c (li_log st')) (vs_name vs b) (rs_name rs b) (bound_port cfg b)))"
  using a run
proof (induction bs arbitrary: st es)
  case (Cons b bs)
  have ab: "addressable L cfg vs rs (bound_port cfg b)" using Cons.prems(1) by simp
  have rest: "\<forall>b \<in> set bs. addressable L cfg vs rs b" using Cons.prems(1) by simp
  note act = start_action [OF m h ab p, unfolded bound_port_names]
  from Cons.prems(2) show ?case
  proof (cases rule: invoke_cases)
    case skipped
    with Cons.IH [OF rest skipped(2)] show ?thesis by auto
  next
    case (success st1)
    from Cons.IH [OF rest success(3)] act [OF success(2)] keeps_trans exposes_keeps show ?thesis
      by (metis set_ConsD)
  next
    case (failure e st1 es')
    from Cons.IH [OF rest failure(3)] act(1) [OF failure(2)] keeps_trans failure(4) show ?thesis by blast
  qed
qed simp

lemma invoke_stop:
  assumes m: "mux_documented mux" and h: "plain_seg (lc_remote cfg)" and p: "paired mux D mt c L"
    and a: "\<forall>b \<in> set bs. addressable L cfg vs rs b"
    and run: "invokeFunc cfg (link_removeBackend L cfg) vs rs bs st = (Some es, st')"
  shows "(gget (cx_backends (daemon_after mux D mt c (li_log st))) k = None \<longrightarrow>
      gget (cx_backends (daemon_after mux D mt c (li_log st'))) k = None) \<and>
    (es = [] \<longrightarrow> (\<forall>b \<in> set bs. public_port b \<longrightarrow>
       gget (cx_backends (daemon_after mux D mt c (li_log st'))) (rs_name rs b) = None))"
  using a run
proof (induction bs arbitrary: st es k)
  case (Cons b bs)
  have ab: "addressable L cfg vs rs (bound_port cfg b)" using Cons.prems(1) by simp
  have rest: "\<forall>b \<in> set bs. addressable L cfg vs rs b" using Cons.prems(1) by simp
  note act = stop_action [OF m h ab p, unfolded bound_port_names]
  from Cons.prems(2) show ?case
  proof (cases rule: invoke_cases)
    case skipped
    with Cons.IH [OF rest skipped(2)] show ?thesis by auto
  next
    case (success st1)
    from Cons.IH [OF rest success(3)] act [OF success(2)] show ?thesis by auto
  next
    case (failure e st1 es')
    from Cons.IH [OF rest failure(3)] act(1) [OF failure(2)] failure(4) show ?thesis by auto
  qed
qed simp

section \<open>Properties\<close>

text \<open>
  Claim C17. The two programs together: when the link has gone through the ports of a started container without
  an error, the daemon has a backend for each public one, under the mangled names, with the address and port of
  the binding and on the service of that name, and has lost nothing it had before, errors or not; and when it
  has gone through the ports of a killed one without an error, the daemon has none of these backends any more.
  (The link is the daemon's only client meanwhile; router and URL parser do what their documentation says.)
\<close>

theorem container_ports_exposed:
  assumes "mux_documented mux" and "plain_seg (lc_remote cfg)" and "paired mux D mt c L"
    and "\<forall>b \<in> set bs. addressable L cfg vs rs b"
  shows "(\<forall>es st'. invokeFunc cfg (link_createBackend L cfg) vs rs bs st = (Some es, st') \<longrightarrow>
      keeps (daemon_after mux D mt c (li_log st)) (daemon_after mux D mt c (li_log st')) \<and>
      (es = [] \<longrightarrow> (\<forall>b \<in> set bs. public_port b \<longrightarrow>
         exposes (daemon_after mux D mt c (li_log st')) (vs_name vs b) (rs_name rs b) (bound_port cfg b)))) \<and>
    (\<forall>st'. invokeFunc cfg (link_removeBackend L cfg) vs rs bs st = (Some [], st') \<longrightarrow>
      (\<forall>b \<in> set bs. public_port b \<longrightarrow>
         gget (cx_backends (daemon_after mux D mt c (li_log st'))) (rs_name rs b) = None))"
  using invoke_start [OF assms] invoke_stop [OF assms] by blast

text \<open>A link with its daemon, which has just started.\<close>

definition pair_ctx :: ctx where
  "pair_ctx = snd (NewContext ok_env \<lparr>co_Disco = [], co_Endpoints = [[10, 0, 0, 1]], co_Flush = False, co_ListenPort = 0,
     co_VipInterface = []\<rparr> [])"

definition pair_service :: ctx where
  "pair_service = snd (createService ok_env ''a-web-1-80-tcp'' (link_service web_port) pair_ctx)"

definition pair_backend :: ctx where
  "pair_backend = snd (createBackend ok_env ''a-web-1-80-tcp'' ''node-c-81-tcp'' (link_backend web_port) pair_service)"

definition pair_link :: env where
  "pair_link = link_env\<lparr>httpDo := \<lambda>l rq. answer (serve_rq (first_match 0) ok_env (serviceListHandler ok_env) rq
     (daemon_after (first_match 0) ok_env (serviceListHandler ok_env) pair_ctx l))\<rparr>"

theorem container_ports_exposed_witness:
  "\<exists>st1 st2. invokeFunc link_cfg (link_createBackend pair_link link_cfg) ''a/web:1'' ''/node/c'' [web_port]
       \<lparr>li_exposed = {}, li_log = []\<rparr> = (Some [], st1) \<and>
     exposes (daemon_after (first_match 0) ok_env (serviceListHandler ok_env) pair_ctx (li_log st1))
       ''a-web-1-80-tcp'' ''node-c-81-tcp'' web_port \<and>
     invokeFunc link_cfg (link_removeBackend pair_link link_cfg) ''a/web:1'' ''/node/c'' [web_port] st1 = (Some [], st2) \<and>
     gget (cx_backends (daemon_after (first_match 0) ok_env (serviceListHandler ok_env) pair_ctx (li_log st2))) ''node-c-81-tcp'' = None"
proof -
  let ?mux = "first_match 0" and ?mt = "serviceListHandler ok_env"
  let ?d = "daemon_after ?mux ok_env ?mt pair_ctx"
  let ?v = "''a-web-1-80-tcp''" and ?k = "''node-c-81-tcp''" and ?b = web_port
  let ?us = "service_url link_cfg ?v" and ?ub = "backend_url link_cfg ?v ?k"
  have n: "vs_name ''a/web:1'' ?b = ?v" "rs_name ''/node/c'' ?b = ?k" "bound_port link_cfg ?b = ?b" "public_port ?b" by code_simp+
  have m: "mux_documented ?mux" "plain_seg (lc_remote link_cfg)"
    by (simp_all add: mux_documented_def link_cfg_def plain_seg_def)
  have p: "paired ?mux ok_env ?mt pair_ctx pair_link"
    by (simp add: paired_def pair_link_def)
  have "url_parsed pair_link (lc_remote link_cfg) q" for q
    by (simp add: url_parsed_def pair_link_def link_env_def link_cfg_def)
  then have a: "addressable pair_link link_cfg ''a/web:1'' ''/node/c'' ?b" by (simp add: addressable_def web_port_def)
  have ip: "ap_IP ?b = ''0.0.0.0'' \<longrightarrow> lc_hostIPs link_cfg \<noteq> []" by (simp add: web_port_def)
  note u = addressable_urls [OF a m(2), unfolded n] and s = serve_link [OF m(1) addressable_names [OF a, unfolded n], of ok_env ?mt link_cfg]
  note h = p [unfolded paired_def, rule_format]
  let ?c1 = pair_service and ?c2 = pair_backend
  have c: "serviceStatusHandler ok_env (gput ''vsID'' ?v gempty) (Some JNull) pair_ctx = (writeError ErrObjectNotFound, pair_ctx)"
    "createService ok_env ?v (link_service ?b) pair_ctx = (Ok (), ?c1)"
    "createBackend ok_env ?v ?k (link_backend ?b) ?c1 = (Ok (), ?c2)"
    "\<exists>x c3. removeBackend ok_env ?v ?k ?c2 = (Ok x, c3)"
  proof -
    have "fst (serviceStatusHandler ok_env (gput ''vsID'' ?v gempty) (Some JNull) pair_ctx) = writeError ErrObjectNotFound"
      by code_simp
    then show "serviceStatusHandler ok_env (gput ''vsID'' ?v gempty) (Some JNull) pair_ctx = (writeError ErrObjectNotFound, pair_ctx)"
      by (metis prod.collapse status_query_ctx)
    have f: "fst (createService ok_env ?v (link_service ?b) pair_ctx) = Ok ()" "fst (createBackend ok_env ?v ?k (link_backend ?b) ?c1) = Ok ()"
      "case fst (removeBackend ok_env ?v ?k ?c2) of Ok _ \<Rightarrow> True | _ \<Rightarrow> False"
      by code_simp+
    then show "createService ok_env ?v (link_service ?b) pair_ctx = (Ok (), ?c1)"
      "createBackend ok_env ?v ?k (link_backend ?b) ?c1 = (Ok (), ?c2)"
      unfolding pair_service_def pair_backend_def by (metis prod.collapse)+
    from f(3) show "\<exists>x c3. removeBackend ok_env ?v ?k ?c2 = (Ok x, c3)"
      by (cases "removeBackend ok_env ?v ?k ?c2") (auto split: outcome.splits)
  qed
  then obtain x c3 where rm: "removeBackend ok_env ?v ?k ?c2 = (Ok x, c3)" by blast
  let ?l1 = "[EvHttp (get_rq ?us) (Inr 404)]" let ?l2 = "EvHttp (service_rq ?us ?b) (Inr 200) # ?l1"
  let ?l3 = "EvHttp (backend_rq ?ub ?b) (Inr 200) # ?l2" let ?l4 = "EvHttp (delete_rq ?ub) (Inr 200) # ?l3"
  have d1: "?d ?l1 = pair_ctx" by (simp add: s(1) c(1))
  have d2: "?d ?l2 = ?c1" using d1 by (simp add: s(2) c(2) reply_def)
  have d3: "?d ?l3 = ?c2" using d2 by (simp only: daemon_after.simps s(3) c(3) reply_def prod.case outcome.case option.case)
  have w: "httpDo pair_link [] (get_rq ?us) = Inr 404" "httpDo pair_link ?l1 (service_rq ?us ?b) = Inr 200"
    "httpDo pair_link ?l2 (backend_rq ?ub ?b) = Inr 200" "httpDo pair_link ?l3 (delete_rq ?ub) = Inr 200"
    unfolding h d1 d2 d3 daemon_after.simps(1) s c(1,2,3) rm by (simp_all add: answer_def reply_def writeError_def error_code_def)
  have "ensure_service pair_link link_cfg ?v ?b \<lparr>li_exposed = {}, li_log = []\<rparr> = (Done, \<lparr>li_exposed = {}, li_log = ?l2\<rparr>)"
    unfolding ensure_service_def u sum.case http_call_def Let_def link_createService_def link_request_def option.case roundtrip_def
      get_rq_def [symmetric] service_rq_def [symmetric]
    by (simp add: w)
  then have "link_createBackend pair_link link_cfg ?v ?k ?b \<lparr>li_exposed = {}, li_log = []\<rparr> = (Done, \<lparr>li_exposed = {}, li_log = ?l3\<rparr>)"
    unfolding link_createBackend_def link_request_def u sum.case roundtrip_def option.case http_call_def Let_def backend_rq_def [symmetric]
    by (simp add: w)
  then have r1: "invokeFunc link_cfg (link_createBackend pair_link link_cfg) ''a/web:1'' ''/node/c'' [?b] \<lparr>li_exposed = {}, li_log = []\<rparr>
      = (Some [], \<lparr>li_exposed = {}, li_log = ?l3\<rparr>)"
    by (simp only: invoke_public [OF n(4) ip] n prod.case link_result.case invokeFunc.simps(1))
  have "link_removeBackend pair_link link_cfg ?v ?k ?b \<lparr>li_exposed = {}, li_log = ?l3\<rparr> = (Done, \<lparr>li_exposed = {}, li_log = ?l4\<rparr>)"
    unfolding link_removeBackend_def link_request_def u sum.case roundtrip_def option.case http_call_def Let_def delete_rq_def [symmetric]
    by (simp add: w)
  then have r2: "invokeFunc link_cfg (link_removeBackend pair_link link_cfg) ''a/web:1'' ''/node/c'' [?b] \<lparr>li_exposed = {}, li_log = ?l3\<rparr>
      = (Some [], \<lparr>li_exposed = {}, li_log = ?l4\<rparr>)"
    by (simp only: invoke_public [OF n(4) ip] n prod.case link_result.case invokeFunc.simps(1))
  have "\<forall>b \<in> set [?b]. addressable pair_link link_cfg ''a/web:1'' ''/node/c'' b" using a by simp
  note all = container_ports_exposed [OF m p this]
  let ?st = "\<lambda>l. \<lparr>li_exposed = {}, li_log = l\<rparr>"
  have "exposes (?d ?l3) ?v ?k ?b"
    using all [THEN conjunct1, rule_format, OF r1, THEN conjunct2] n by simp
  moreover have "gget (cx_backends (?d ?l4)) ?k = None"
    using all [THEN conjunct2, rule_format, OF r2] n by simp
  ultimately show ?thesis using r1 r2
    by (intro exI [of _ "?st ?l3"] exI [of _ "?st ?l4"]) (simp only: link.simps simp_thms)
qed

end
