(* ===== verification/Spec2Isabelle.thy ===== *)
theory Spec2Isabelle
  imports Gorb_Serve Gorb_Fair Gorb_Pair
begin

text \<open>
  A verification library for gorb, a front end to the Linux IPVS load balancer: a daemon with a REST
  interface that keeps virtual services and their backends in the kernel's IPVS table, checks the
  backends' health and sets their weights by it, and follows an external key-value store; and
  gorb-docker-link, a second program that registers the containers of a Docker host with a daemon.

  \<^bold>\<open>Parts and theories.\<close>  Each theory models one part, in the order of the calls.

  \<^item> \<open>Gorb_Prelude\<close>: machine types, the error values, outcomes (a value, an error, a panic), Go's map
    (locale \<open>go_map\<close>, interpreted on association lists with distinct keys), strings and paths.
    \<open>Gorb_Float\<close>: IEEE double arithmetic as rational numbers that are rounded after every operation
    (locale \<open>rounding\<close>, interpreted on \<open>fl64\<close>).  \<open>Gorb_World\<close>: the outside as a record of functions
    (\<open>env\<close>) and a log of what was asked of it (locale \<open>logged\<close>).
  \<^item> \<open>Gorb_Util\<close>: \<open>src/util\<close> - addresses, typed look-up in dynamic options, intervals, JSON output.
  \<^item> \<open>Gorb_Ipvs\<close>: \<open>src/ipvs-shim/ipvs_shim.go\<close>, and the abstract IPVS table the requests of a log make.
  \<^item> \<open>Gorb_Disco\<close>: \<open>src/disco\<close> - the two service discovery drivers.
  \<^item> \<open>Gorb_Metrics\<close>, \<open>Gorb_Pulse\<close>: \<open>src/pulse\<close> - status, statistics, the kinds of check, their options
    and the loop (locale \<open>check_iface\<close> for the drivers).
  \<^item> \<open>Gorb_Options\<close>, \<open>Gorb_Store\<close>, \<open>Gorb_Context\<close>: \<open>src/core/options.go\<close>, the reading and writing half of
    \<open>src/core/store.go\<close>, and \<open>src/core/context.go\<close>: one definition per method, named after it, from a
    context to an outcome and a context.  \<open>Gorb_Invariant\<close> has a case rule per operation and the
    well-formedness \<open>ctx_wf\<close>; \<open>Gorb_Lifecycle\<close> what the operations guarantee; \<open>Gorb_Kernel\<close> the
    refinement of the kernel's table by the maps of the context.
  \<^item> \<open>Gorb_Runtime\<close>: \<open>processPulseUpdate\<close> of \<open>src/core/runtime.go\<close> in its two critical sections.
  \<^item> \<open>Gorb_Sync\<close>: \<open>NewStore\<close>, \<open>Sync\<close>, \<open>Close\<close> and the ticker of \<open>src/core/store.go\<close>, and what a
    synchronization achieves.  \<open>Gorb_Kv\<close>: the content of the external store as a table that the accepted requests of a
    log make (\<open>kv_table\<close>; locale \<open>kv_dir\<close>, the contract of the methods of \<open>store.go\<close> for one kind of object,
    interpreted for services and for backends), and what each operation of the context does to maps and store
    together.  \<open>Gorb_Mirror\<close>: the store as a copy of the context (\<open>mirrored\<close>).  \<open>Gorb_Restart\<close>: \<open>NewContext\<close> and
    \<open>NewStore\<close> on what an earlier daemon left in the kernel and the store.
  \<^item> \<open>Gorb_Api\<close>: the exported methods with the mode in which they take the mutex.  \<open>Gorb_Http\<close>:
    \<open>src/http.go\<close>.  \<open>Gorb_Daemon\<close>: \<open>src/main.go\<close>.  \<open>Gorb_Exporter\<close>: \<open>src/core/prometheus_exporter.go\<close>.
  \<^item> \<open>Gorb_Locks\<close>: the calls of the mutex each goroutine makes, and Go's \<open>sync.RWMutex\<close> as a step
    relation.  \<open>Gorb_System\<close>: the whole daemon as a step relation, \<open>run\<close> of \<open>runtime.go\<close> included; the
    locales \<open>sync_invariant\<close> and, extending it, \<open>ctx_invariant\<close> state what a predicate must satisfy to be kept by a
    synchronization and by every request.  \<open>Gorb_Reach\<close>: the reachable states on a kernel that does as documented.
    \<open>Gorb_Serve\<close>: the daemon from \<open>main\<close> on, its states under REST requests, ticks of the store and its own steps.
    \<open>Gorb_Checks\<close>: whose checks run.  \<open>Gorb_Fair\<close>: infinite fair runs of the whole daemon and what they come to in the end.
  \<^item> \<open>Gorb_DockerLink\<close>: \<open>src/gorb-docker-link/main.go\<close>.  \<open>Gorb_Pair\<close>: both programs together, the link's HTTP
    client answered by the handlers of a daemon whose context the link's log of requests has made.

  \<^bold>\<open>How state and operations correspond to the code.\<close>  \<open>ctx\<close> is the struct \<open>Context\<close>.  Service objects are
  never changed after they are made, so a backend holds the object itself, and \<open>s_addr\<close> stands for its address
  in pointer comparisons.  A stop channel is a number, \<open>cx_closed\<close> lists the closed ones, and closing one again
  is a panic.  \<open>cx_loops\<close> lists the check loops that were started.  An operation that fails or panics leaves
  the state it had come to.  The order in which a \<open>range\<close> loop visits a map is the parameter \<open>iterKeys\<close>, of
  which only \<open>fair_iter\<close> (each key once) is ever assumed.  Answers from outside may depend on everything asked
  before.  A goroutine is a component of the state of a step relation; rendezvous and critical sections are steps.

  \<^bold>\<open>What the lemmas show.\<close>  The context stays well-formed through every operation and in every reachable state
  of the daemon; its maps refine the kernel's table while the kernel does as asked; what the status queries
  report is in the kernel; creation and removal do all or what is said of their failures; the weight of a
  backend is stashed, rescaled and restored by the health of the last hundred checks in \<open>float64\<close> arithmetic;
  a synchronization makes the context agree with the store, spares what agrees already and is then idle; the store stays a copy of the context,
  and a daemon restarted with the flush flag comes back from it with all it had; in every state a daemon comes to in
  any interleaving, the kernel's table is the image of the maps and the stash belongs to checks that have not ended;
  the checks that run are those of the backends in the map; in every fair run the check of a removed backend ends,
  a backend that keeps failing ends up without weight in the kernel and one that keeps succeeding ends up with all
  of it; the REST interface answers with the codes of the errors, changes nothing on refusal and returns what was put; the exporter shows what the queries report; flat use of the
  mutex always terminates; the link's requests reach the daemon's handlers with the names and options it meant, and when the link has
  gone through a container's ports without an error the daemon has, or no longer has, a backend for each public one.
  Other theorems are about defects: of life cycle and weights (a backend that fails again while it recovers keeps
  its weight), the recursive read lock, checks that never end, a store that is read before the lock is taken,
  documents of refused services, a restart that adopts nothing.

  \<^bold>\<open>What is assumed of the outside.\<close>  Only what a theorem names.  \<open>fair_iter\<close>: a loop over a map sees each key once.
  \<open>kernel_ok\<close>, \<open>kernel_yields\<close>, \<open>kernel_exact\<close>: the kernel refuses a service or destination that exists and takes
  one that does not, and deletes what it has; \<open>kernel_updates\<close>: it updates what it has; \<open>accepts_updates\<close>, \<open>accepts_all\<close>: it accepts changes of weight, or
  everything.  \<open>kv_exact\<close>, \<open>kv_up\<close>, \<open>kv_listed\<close>: the store answers by its content, lists every key of a directory
  once, and \<open>DeleteTree\<close> removes a key and what lies below it (not every key that begins with the same letters).
  \<open>resolver_stable\<close>: a name has one address.  \<open>fair_daemon\<close>: the scheduler lets a goroutine that can go on do so in
  the end, and a check that is ready to send again and again is received from again and again.
  \<open>mux_documented\<close>, \<open>url_parsed\<close>: the router picks the route whose template fits, the URL parser finds the parts of
  a plain URL.  \<open>paired\<close>: the link's HTTP client is answered by the daemon, which has no other client.  Each of these holds in a world that a witness computes with.

  \<^bold>\<open>Bounds and fuel.\<close>  There is no fuel: loops are recursions over lists or step relations.  A mean of up to
  \<open>2 ^ 53\<close> backends is covered by the rounding lemmas; intervals, weights, ports and durations have their
  widths and wrap around.  The run of goroutines on the mutex has at most twice as many steps as calls plus one.

  \<^bold>\<open>Not modelled.\<close>  Log output; net/http, the router, libipvs and netlink, the key-value library, the
  Prometheus registry and text format, the Docker client (parameters, with what the code relies on as
  hypotheses named in the theorems); the parsing of JSON text (a body is a decoded document or none) and of
  command lines; data races on options that handlers marshal after releasing the lock, and on the map that
  \<open>Close\<close> walks without it; strings beyond ASCII; real time (a timer fires at any moment).  The vendored packages are not
  part of the program.
\<close>

end
